(* ===== verification/Prelude.thy ===== *)
theory Prelude
  imports Main "HOL-Library.Word"
begin

text \<open>
  Shared vocabulary of the development: the C integer types, the outcome of a kernel
  operation, the state-passing operations over a record of C globals with their
  weakest-precondition rules, the two loop forms of the source, and the generic facts on
  lists and words that several components use.
\<close>

unbundle bit_operations_syntax

section \<open>C integer types\<close>

text \<open>The typedefs of \<^verbatim>\<open>kernel/types.h\<close>; plain \<^verbatim>\<open>char\<close> is unsigned on RISC-V.\<close>

type_synonym uchar = "8 word"
type_synonym ushort = "16 word"
type_synonym uint32 = "32 word"
type_synonym uint64 = "64 word"

section \<open>Outcomes and state-passing operations\<close>

text \<open>
  The addresses on which the kernel puts processes to sleep. \<open>ChOther\<close> stands for the
  address of any object that has no constructor of its own.
\<close>

datatype chan =
    ChTicks | ChLog | ChConsR | ChUartTx | ChDisk
  | ChBuf nat | ChProc nat | ChPipeRead nat | ChPipeWrite nat
  | ChBufLock nat | ChInodeLock nat | ChOther uint64

text \<open>
  An operation returns, calls \<^verbatim>\<open>panic\<close> (which never returns), goes to sleep on a
  channel until another process changes the state, or performs an access outside the
  bounds of a C array, whose effect C leaves undefined.
\<close>

datatype 'a res = Ok 'a | Panic string | Block chan | Fault

type_synonym ('s, 'a) kop = "'s \<Rightarrow> ('a \<times> 's) res"

definition kret :: "'a \<Rightarrow> ('s, 'a) kop" where
  "kret x = (\<lambda>s. Ok (x, s))"

definition kbind :: "('s, 'a) kop \<Rightarrow> ('a \<Rightarrow> ('s, 'b) kop) \<Rightarrow> ('s, 'b) kop" where
  "kbind m f = (\<lambda>s. case m s of Ok (x, t) \<Rightarrow> f x t | Panic e \<Rightarrow> Panic e
     | Block c \<Rightarrow> Block c | Fault \<Rightarrow> Fault)"

definition kthen :: "('s, 'a) kop \<Rightarrow> ('s, 'b) kop \<Rightarrow> ('s, 'b) kop" where
  "kthen m n = kbind m (\<lambda>_. n)"

definition kget :: "('s \<Rightarrow> 'a) \<Rightarrow> ('s, 'a) kop" where
  "kget f = (\<lambda>s. Ok (f s, s))"

definition kmod :: "('s \<Rightarrow> 's) \<Rightarrow> ('s, unit) kop" where
  "kmod f = (\<lambda>s. Ok ((), f s))"

definition kpanic :: "string \<Rightarrow> ('s, 'a) kop" where
  "kpanic e = (\<lambda>s. Panic e)"

definition kblock :: "chan \<Rightarrow> ('s, 'a) kop" where
  "kblock c = (\<lambda>s. Block c)"

definition kfault :: "('s, 'a) kop" where
  "kfault = (\<lambda>s. Fault)"

definition kwhen :: "bool \<Rightarrow> ('s, unit) kop \<Rightarrow> ('s, unit) kop" where
  "kwhen b m = (if b then m else kret ())"

text \<open>\<open>kassert\<close> is \<^verbatim>\<open>if(!b) panic(e)\<close>; \<open>kcheck\<close> is the bounds check of an array access.\<close>

definition kassert :: "bool \<Rightarrow> string \<Rightarrow> ('s, unit) kop" where
  "kassert b e = (if b then kret () else kpanic e)"

definition kcheck :: "bool \<Rightarrow> ('s, unit) kop" where
  "kcheck b = (if b then kret () else kfault)"

text \<open>
  \<open>kfor\<close> is a counting loop over the values its variable takes; \<open>kfind\<close> is such a loop
  whose body may \<^verbatim>\<open>return\<close> or \<^verbatim>\<open>break\<close> with a value.
\<close>

primrec kfor :: "'i list \<Rightarrow> ('i \<Rightarrow> ('s, unit) kop) \<Rightarrow> ('s, unit) kop" where
  "kfor [] f = kret ()"
| "kfor (i # is) f = kthen (f i) (kfor is f)"

primrec kfind :: "'i list \<Rightarrow> ('i \<Rightarrow> ('s, 'a option) kop) \<Rightarrow> ('s, 'a option) kop" where
  "kfind [] f = kret None"
| "kfind (i # is) f = kbind (f i) (\<lambda>r. case r of Some x \<Rightarrow> kret (Some x) | None \<Rightarrow> kfind is f)"

lemmas kop_defs = kret_def kbind_def kthen_def kget_def kmod_def kpanic_def kblock_def
  kfault_def kwhen_def kassert_def kcheck_def

text \<open>Running an operation from a given state, one statement at a time.\<close>

named_theorems krun \<open>equations that run an operation from a state\<close>

lemma krun_basic [krun]:
  "kret x s = Ok (x, s)" "kget f s = Ok (f s, s)" "kmod h s = Ok ((), h s)"
  "kassert b e s = (if b then Ok ((), s) else Panic e)"
  "kcheck b s = (if b then Ok ((), s) else Fault)"
  by (simp_all add: kop_defs)

lemma krun_stop [krun]: "kpanic e s = Panic e" "kblock c s = Block c" "kfault s = Fault"
  by (simp_all add: kop_defs)

lemma krun_bind [krun]:
  "kbind (kget f) g1 s = g1 (f s) s" "kbind (kret x) g2 s = g2 x s"
  "kbind (kbind m f3) g3 s = kbind m (\<lambda>x. kbind (f3 x) g3) s"
  "kbind (kthen m4 n) g4 s = kthen m4 (kbind n g4) s"
  "kbind (kmod h) k s = k () (h s)"
  by (auto simp: kop_defs split: res.splits)

lemma krun_bind_stop [krun]:
  "kbind (kpanic e) g s = Panic e" "kbind (kblock c) g s = Block c" "kbind kfault g s = Fault"
  by (simp_all add: kop_defs)

lemma krun_then [krun]:
  "kthen (kmod f) m s = m (f s)" "kthen (kret x) m s = m s" "kthen (kget g) m s = m s"
  "kthen (kbind l k) m s = kbind l (\<lambda>x. kthen (k x) m) s"
  "kthen (kthen l' n) m s = kthen l' (kthen n m) s"
  "kthen (kassert b e) m s = (if b then m s else Panic e)"
  "kthen (kcheck b) m s = (if b then m s else Fault)"
  by (auto simp: kop_defs split: res.splits)

lemma krun_then_stop [krun]:
  "kthen (kpanic e) m s = Panic e" "kthen (kblock c) m s = Block c" "kthen kfault m s = Fault"
  by (simp_all add: kop_defs)

lemma krun_when [krun]:
  "kwhen b m s = (if b then m s else Ok ((), s))"
  "kthen (kwhen b m) n s = (if b then kthen m n s else n s)"
  "kbind (kwhen b m) k s = (if b then kbind m k s else k () s)"
  by (auto simp: kop_defs)

lemma krun_if [krun]:
  "(if b then m else n) s = (if b then m s else n s)"
  "kbind (if b then m1 else n1) g s = (if b then kbind m1 g s else kbind n1 g s)"
  "kthen (if b then m2 else n2) l s = (if b then kthen m2 l s else kthen n2 l s)"
  by auto

lemma kbind_Ok: "m s = Ok (x, t) \<Longrightarrow> kbind m f s = f x t"
  by (simp add: kbind_def)

lemma kthen_Ok: "m s = Ok (x, t) \<Longrightarrow> kthen m n s = n t"
  by (simp add: kthen_def kbind_def)

lemma kbind_eq_Ok: "kbind m f s = Ok r \<longleftrightarrow> (\<exists>x t. m s = Ok (x, t) \<and> f x t = Ok r)"
  by (auto simp: kbind_def split: res.splits)

lemma kthen_eq_Ok: "kthen m n s = Ok r \<longleftrightarrow> (\<exists>x t. m s = Ok (x, t) \<and> n t = Ok r)"
  by (simp add: kthen_def kbind_eq_Ok)

text \<open>A search loop whose body leaves the state alone until it finds its index.\<close>

lemma kfind_first:
  assumes "\<And>i. i \<in> set is \<Longrightarrow> \<not> P i \<Longrightarrow> f i s = Ok (None, s)"
    and "\<And>i. i \<in> set is \<Longrightarrow> P i \<Longrightarrow> f i s = kbind (g i) (\<lambda>v. kret (Some v)) s"
  shows "kfind is f s = (case find P is of None \<Rightarrow> Ok (None, s) | Some i \<Rightarrow> kbind (g i) (\<lambda>v. kret (Some v)) s)"
  using assms
proof (induction "is")
  case Nil
  then show ?case by (simp add: kret_def)
next
  case (Cons i "is")
  show ?case
  proof (cases "P i")
    case True
    then have "f i s = kbind (g i) (\<lambda>v. kret (Some v)) s" using Cons.prems(2) by simp
    then show ?thesis using True by (auto simp: kbind_def kret_def split: res.splits)
  next
    case False
    then have "f i s = Ok (None, s)" using Cons.prems(1) by simp
    then show ?thesis using False Cons by (simp add: kbind_Ok)
  qed
qed

section \<open>Weakest preconditions\<close>

text \<open>
  \<open>wp m Q s\<close>: run from \<open>s\<close>, the operation \<open>m\<close> returns (it neither panics nor sleeps nor
  faults) and its value and final state satisfy \<open>Q\<close>.
\<close>

definition wp :: "('s, 'a) kop \<Rightarrow> ('a \<Rightarrow> 's \<Rightarrow> bool) \<Rightarrow> 's \<Rightarrow> bool" where
  "wp m Q s \<longleftrightarrow> (case m s of Ok (x, t) \<Rightarrow> Q x t | _ \<Rightarrow> False)"

named_theorems wp_simps \<open>weakest-precondition equations of the operations\<close>

lemma wp_iff: "wp m Q s \<longleftrightarrow> (\<exists>x t. m s = Ok (x, t) \<and> Q x t)"
  by (auto simp: wp_def split: res.splits)

lemma wpD: "wp m Q s \<Longrightarrow> \<exists>x t. m s = Ok (x, t) \<and> Q x t"
  by (simp add: wp_iff)

lemma wpI: "m s = Ok (x, t) \<Longrightarrow> Q x t \<Longrightarrow> wp m Q s"
  by (simp add: wp_iff)

lemma wp_mono: "wp m Q s \<Longrightarrow> (\<And>x t. m s = Ok (x, t) \<Longrightarrow> Q x t \<Longrightarrow> R x t) \<Longrightarrow> wp m R s"
  by (auto simp: wp_iff)

lemma wp_conj: "wp m (\<lambda>x t. Q x t \<and> R x t) s \<longleftrightarrow> wp m Q s \<and> wp m R s"
  by (auto simp: wp_iff)

lemma wp_ret [wp_simps]: "wp (kret x) Q s \<longleftrightarrow> Q x s"
  by (simp add: wp_def kret_def)

lemma wp_bind [wp_simps]: "wp (kbind m f) Q s \<longleftrightarrow> wp m (\<lambda>x. wp (f x) Q) s"
  by (auto simp: wp_def kbind_def split: res.splits)

lemma wp_then [wp_simps]: "wp (kthen m n) Q s \<longleftrightarrow> wp m (\<lambda>_. wp n Q) s"
  by (simp add: kthen_def wp_bind)

lemma wp_get [wp_simps]: "wp (kget f) Q s \<longleftrightarrow> Q (f s) s"
  by (simp add: wp_def kget_def)

lemma wp_mod [wp_simps]: "wp (kmod f) Q s \<longleftrightarrow> Q () (f s)"
  by (simp add: wp_def kmod_def)

lemma wp_panic [wp_simps]: "wp (kpanic e) Q s \<longleftrightarrow> False"
  by (simp add: wp_def kpanic_def)

lemma wp_block [wp_simps]: "wp (kblock c) Q s \<longleftrightarrow> False"
  by (simp add: wp_def kblock_def)

lemma wp_fault [wp_simps]: "wp kfault Q s \<longleftrightarrow> False"
  by (simp add: wp_def kfault_def)

lemma wp_when [wp_simps]: "wp (kwhen b m) Q s \<longleftrightarrow> (if b then wp m Q s else Q () s)"
  by (simp add: kwhen_def wp_ret)

lemma wp_assert [wp_simps]: "wp (kassert b e) Q s \<longleftrightarrow> b \<and> Q () s"
  by (simp add: kassert_def wp_ret wp_panic)

lemma wp_check [wp_simps]: "wp (kcheck b) Q s \<longleftrightarrow> b \<and> Q () s"
  by (simp add: kcheck_def wp_ret wp_fault)

lemma wp_if [wp_simps]: "wp (if b then m else n) Q s \<longleftrightarrow> (if b then wp m Q s else wp n Q s)"
  by simp

text \<open>
  The loop rules: an invariant indexed by the values the variable has already taken.
\<close>

lemma wp_kfor_rev:
  assumes "I [] s"
    and "\<And>xs x ys t. is = xs @ x # ys \<Longrightarrow> I xs t \<Longrightarrow> wp (f x) (\<lambda>_. I (xs @ [x])) t"
    and "\<And>t. I is t \<Longrightarrow> Q () t"
  shows "wp (kfor is f) Q s"
proof -
  have "is = xs @ ys \<Longrightarrow> I xs t \<Longrightarrow> wp (kfor ys f) Q t" for xs ys t
  proof (induction ys arbitrary: xs t)
    case Nil
    then show ?case using assms(3) by (simp add: wp_ret)
  next
    case (Cons y ys)
    have "wp (f y) (\<lambda>_. I (xs @ [y])) t"
      using assms(2) Cons.prems by blast
    then have "wp (f y) (\<lambda>_. wp (kfor ys f) Q) t"
      by (rule wp_mono) (use Cons in auto)
    then show ?case by (simp add: wp_then)
  qed
  from this [of "[]" "is" s] assms(1) show ?thesis by simp
qed

lemma wp_kfind:
  assumes "I [] s"
    and "\<And>xs x ys t. is = xs @ x # ys \<Longrightarrow> I xs t \<Longrightarrow>
           wp (f x) (\<lambda>r u. case r of None \<Rightarrow> I (xs @ [x]) u | Some v \<Rightarrow> Q (Some v) u) t"
    and "\<And>t. I is t \<Longrightarrow> Q None t"
  shows "wp (kfind is f) Q s"
proof -
  have "is = xs @ ys \<Longrightarrow> I xs t \<Longrightarrow> wp (kfind ys f) Q t" for xs ys t
  proof (induction ys arbitrary: xs t)
    case Nil
    then show ?case using assms(3) by (simp add: wp_ret)
  next
    case (Cons y ys)
    have "wp (f y) (\<lambda>r u. case r of None \<Rightarrow> I (xs @ [y]) u | Some v \<Rightarrow> Q (Some v) u) t"
      using assms(2) Cons.prems by blast
    then have "wp (f y) (\<lambda>r. wp (case r of Some x \<Rightarrow> kret (Some x) | None \<Rightarrow> kfind ys f) Q) t"
      by (rule wp_mono) (use Cons in \<open>auto simp: wp_ret split: option.splits\<close>)
    then show ?case by (simp add: wp_bind)
  qed
  from this [of "[]" "is" s] assms(1) show ?thesis by simp
qed

section \<open>Lists\<close>

lemma find_SomeD: "find P xs = Some x \<Longrightarrow> x \<in> set xs \<and> P x"
  by (induction xs) (auto split: if_splits)

lemma upt_split:
  assumes "[0..<n] = xs @ i # ys"
  shows "i = length xs" and "i < n"
proof -
  have l: "length xs < n" using arg_cong [OF assms, of length] by simp
  have "[0..<n] ! length xs = i" using assms by simp
  with l show "i = length xs" and "i < n" by simp_all
qed

text \<open>The last \<open>n\<close> elements of a list.\<close>

definition lastn :: "nat \<Rightarrow> 'a list \<Rightarrow> 'a list" where
  "lastn n xs = drop (length xs - n) xs"

lemma length_lastn [simp]: "length (lastn n xs) = min n (length xs)"
  by (simp add: lastn_def)

lemma lastn_all [simp]: "length xs \<le> n \<Longrightarrow> lastn n xs = xs"
  by (simp add: lastn_def)

lemma lastn_snoc: "0 < n \<Longrightarrow> lastn n (lastn n xs @ [x]) = lastn n (xs @ [x])"
  by (cases "length xs < n") (auto simp: lastn_def Suc_diff_le not_less)

end
