(* ===== verification/Spinlock.thy ===== *)
theory Spinlock
  imports Prelude
begin

text \<open>
  Spin locks (\<^verbatim>\<open>kernel/spinlock.c\<close>) on several CPUs. The state has the per-CPU fields of
  \<^verbatim>\<open>struct cpu\<close> that the locks use, the interrupt-enable bit of each hart and the locks.
  Each operation is cut into the memory accesses that other CPUs can observe; the
  step relation interleaves those of all CPUs, each with a program counter inside
  \<open>acquire\<close> and \<open>release\<close>. The memory fences of the source order these accesses, which the
  interleaving already is.
\<close>

section \<open>The operations\<close>

record spinlock =
  locked :: uint32
  lkcpu :: "nat option"

record cpu =
  noff :: int
  intena :: bool
  sie :: bool

record harts =
  cpus :: "nat \<Rightarrow> cpu"
  locks :: "nat \<Rightarrow> spinlock"

definition upd_cpu :: "nat \<Rightarrow> (cpu \<Rightarrow> cpu) \<Rightarrow> harts \<Rightarrow> harts" where
  "upd_cpu c f s = s\<lparr>cpus := (cpus s)(c := f (cpus s c))\<rparr>"

definition upd_lock :: "nat \<Rightarrow> (spinlock \<Rightarrow> spinlock) \<Rightarrow> harts \<Rightarrow> harts" where
  "upd_lock lk f s = s\<lparr>locks := (locks s)(lk := f (locks s lk))\<rparr>"

definition initlock :: "nat \<Rightarrow> (harts, unit) kop" where
  "initlock lk = kmod (upd_lock lk (\<lambda>l. l\<lparr>locked := 0, lkcpu := None\<rparr>))"

text \<open>The hart's \<^verbatim>\<open>sstatus.SIE\<close> bit (\<^verbatim>\<open>kernel/riscv.h\<close>).\<close>

definition intr_get :: "nat \<Rightarrow> (harts, bool) kop" where
  "intr_get c = kget (\<lambda>s. sie (cpus s c))"

definition intr_on :: "nat \<Rightarrow> (harts, unit) kop" where
  "intr_on c = kmod (upd_cpu c (\<lambda>p. p\<lparr>sie := True\<rparr>))"

definition intr_off :: "nat \<Rightarrow> (harts, unit) kop" where
  "intr_off c = kmod (upd_cpu c (\<lambda>p. p\<lparr>sie := False\<rparr>))"

definition push_off :: "nat \<Rightarrow> (harts, unit) kop" where
  "push_off c =
     kbind (intr_get c) (\<lambda>old.
     kthen (intr_off c)
     (kthen (kbind (kget (\<lambda>s. noff (cpus s c))) (\<lambda>n.
               kwhen (n = 0) (kmod (upd_cpu c (\<lambda>p. p\<lparr>intena := old\<rparr>)))))
            (kmod (upd_cpu c (\<lambda>p. p\<lparr>noff := noff p + 1\<rparr>)))))"

definition pop_off :: "nat \<Rightarrow> (harts, unit) kop" where
  "pop_off c =
     kbind (intr_get c) (\<lambda>on.
     kthen (kwhen on (kpanic ''pop_off - interruptible''))
     (kbind (kget (\<lambda>s. noff (cpus s c))) (\<lambda>n.
     kthen (kwhen (n < 1) (kpanic ''pop_off''))
     (kthen (kmod (upd_cpu c (\<lambda>p. p\<lparr>noff := noff p - 1\<rparr>)))
     (kbind (kget (\<lambda>s. cpus s c)) (\<lambda>p.
            kwhen (noff p = 0 \<and> intena p) (intr_on c)))))))"

definition holding :: "nat \<Rightarrow> nat \<Rightarrow> (harts, bool) kop" where
  "holding c lk = kget (\<lambda>s. locked (locks s lk) \<noteq> 0 \<and> lkcpu (locks s lk) = Some c)"

text \<open>
  \<open>acquire\<close> up to its spin loop, one successful test-and-set, and the rest; \<open>release\<close> up to
  the atomic store, and the rest.
\<close>

definition acquire_enter :: "nat \<Rightarrow> nat \<Rightarrow> (harts, unit) kop" where
  "acquire_enter c lk =
     kthen (push_off c) (kbind (holding c lk) (\<lambda>h. kwhen h (kpanic ''acquire'')))"

definition test_and_set :: "nat \<Rightarrow> (harts, uint32) kop" where
  "test_and_set lk =
     kbind (kget (\<lambda>s. locked (locks s lk))) (\<lambda>v.
     kthen (kmod (upd_lock lk (\<lambda>l. l\<lparr>locked := 1\<rparr>))) (kret v))"

definition acquire_owner :: "nat \<Rightarrow> nat \<Rightarrow> (harts, unit) kop" where
  "acquire_owner c lk = kmod (upd_lock lk (\<lambda>l. l\<lparr>lkcpu := Some c\<rparr>))"

definition release_owner :: "nat \<Rightarrow> nat \<Rightarrow> (harts, unit) kop" where
  "release_owner c lk =
     kbind (holding c lk) (\<lambda>h.
     kthen (kwhen (\<not> h) (kpanic ''release''))
           (kmod (upd_lock lk (\<lambda>l. l\<lparr>lkcpu := None\<rparr>))))"

definition release_unlock :: "nat \<Rightarrow> nat \<Rightarrow> (harts, unit) kop" where
  "release_unlock c lk =
     kthen (kmod (upd_lock lk (\<lambda>l. l\<lparr>locked := 0\<rparr>))) (pop_off c)"

text \<open>
  The two functions as one CPU runs them. A test-and-set that finds the lock taken spins
  until another CPU releases it: on its own it makes no progress.
\<close>

definition acquire :: "nat \<Rightarrow> nat \<Rightarrow> (harts, unit) kop" where
  "acquire c lk =
     kthen (acquire_enter c lk)
     (kbind (test_and_set lk) (\<lambda>v.
      if v \<noteq> 0 then kblock (ChOther (of_nat lk)) else acquire_owner c lk))"

definition release :: "nat \<Rightarrow> nat \<Rightarrow> (harts, unit) kop" where
  "release c lk = kthen (release_owner c lk) (release_unlock c lk)"

section \<open>All CPUs together\<close>

datatype lpc = Run | Spin nat | Got nat | Rel nat

record machine =
  hs :: harts
  pc :: "nat \<Rightarrow> lpc"
  held :: "nat \<Rightarrow> nat list"

definition mupd :: "nat \<Rightarrow> lpc \<Rightarrow> nat list \<Rightarrow> harts \<Rightarrow> machine \<Rightarrow> machine" where
  "mupd c p l h m = m\<lparr>hs := h, pc := (pc m)(c := p), held := (held m)(c := l)\<rparr>"

text \<open>
  A CPU at \<open>Run\<close> starts an acquire or a release of any lock, or, outside every critical
  section, switches its interrupts on or off.
\<close>

inductive lstep :: "machine \<Rightarrow> machine \<Rightarrow> bool" where
  Enter: "pc m c = Run \<Longrightarrow> acquire_enter c lk (hs m) = Ok ((), h) \<Longrightarrow>
    lstep m (mupd c (Spin lk) (held m c) h m)"
| SpinFail: "pc m c = Spin lk \<Longrightarrow> test_and_set lk (hs m) = Ok (v, h) \<Longrightarrow> v \<noteq> 0 \<Longrightarrow>
    lstep m (mupd c (Spin lk) (held m c) h m)"
| SpinGot: "pc m c = Spin lk \<Longrightarrow> test_and_set lk (hs m) = Ok (0, h) \<Longrightarrow>
    lstep m (mupd c (Got lk) (held m c) h m)"
| Owner: "pc m c = Got lk \<Longrightarrow> acquire_owner c lk (hs m) = Ok ((), h) \<Longrightarrow>
    lstep m (mupd c Run (lk # held m c) h m)"
| Release: "pc m c = Run \<Longrightarrow> release_owner c lk (hs m) = Ok ((), h) \<Longrightarrow>
    lstep m (mupd c (Rel lk) (remove1 lk (held m c)) h m)"
| Unlock: "pc m c = Rel lk \<Longrightarrow> release_unlock c lk (hs m) = Ok ((), h) \<Longrightarrow>
    lstep m (mupd c Run (held m c) h m)"
| Intr: "pc m c = Run \<Longrightarrow> noff (cpus (hs m) c) = 0 \<Longrightarrow>
    lstep m (mupd c Run (held m c) (upd_cpu c (\<lambda>p. p\<lparr>sie := b\<rparr>) (hs m)) m)"

inductive_cases lstepE: "lstep m m'"

definition machine0 :: machine where
  "machine0 = \<lparr>hs = \<lparr>cpus = (\<lambda>_. \<lparr>noff = 0, intena = False, sie = False\<rparr>),
     locks = (\<lambda>_. \<lparr>locked = 0, lkcpu = None\<rparr>)\<rparr>, pc = (\<lambda>_. Run), held = (\<lambda>_. [])\<rparr>"

section \<open>Mutual exclusion\<close>

text \<open>CPU \<open>c\<close> is between its successful test-and-set and its unlock of \<open>lk\<close>.\<close>

definition inside :: "machine \<Rightarrow> nat \<Rightarrow> nat \<Rightarrow> bool" where
  "inside m lk c \<longleftrightarrow> pc m c = Got lk \<or> pc m c = Rel lk \<or> lk \<in> set (held m c)"

definition in_lock_code :: "lpc \<Rightarrow> int" where
  "in_lock_code p = (case p of Run \<Rightarrow> 0 | _ \<Rightarrow> 1)"

definition lock_inv :: "machine \<Rightarrow> bool" where
  "lock_inv m \<longleftrightarrow>
     (\<forall>lk c. inside m lk c \<longrightarrow> locked (locks (hs m) lk) \<noteq> 0) \<and>
     (\<forall>lk c d. inside m lk c \<longrightarrow> inside m lk d \<longrightarrow> c = d) \<and>
     (\<forall>lk c. lkcpu (locks (hs m) lk) = Some c \<longleftrightarrow> lk \<in> set (held m c)) \<and>
     (\<forall>lk c. lk \<in> set (held m c) \<longrightarrow> pc m c \<noteq> Got lk \<and> pc m c \<noteq> Rel lk)"

definition intr_inv :: "machine \<Rightarrow> bool" where
  "intr_inv m \<longleftrightarrow>
     (\<forall>c. distinct (held m c)) \<and>
     (\<forall>c. noff (cpus (hs m) c) = int (length (held m c)) + in_lock_code (pc m c)) \<and>
     (\<forall>c. noff (cpus (hs m) c) \<noteq> 0 \<longrightarrow> \<not> sie (cpus (hs m) c))"

lemmas lock_op_defs = acquire_enter_def test_and_set_def acquire_owner_def release_owner_def
  release_unlock_def push_off_def pop_off_def holding_def intr_get_def intr_on_def intr_off_def
  upd_cpu_def upd_lock_def kop_defs

text \<open>What each atomic piece does to the locks and to the interrupt state.\<close>

lemma acquire_enter_ok:
  assumes "acquire_enter c lk h = Ok ((), h')"
  shows "locks h' = locks h"
    and "noff (cpus h' d) = noff (cpus h d) + (if d = c then 1 else 0)"
    and "sie (cpus h' d) \<longleftrightarrow> sie (cpus h d) \<and> d \<noteq> c"
  using assms by (auto simp: lock_op_defs split: if_splits)

lemma test_and_set_ok:
  assumes "test_and_set lk h = Ok (v, h')"
  shows "locked (locks h lk) = v"
    and "locks h' = (locks h)(lk := (locks h lk)\<lparr>locked := 1\<rparr>)" and "cpus h' = cpus h"
  using assms by (auto simp: lock_op_defs)

lemma acquire_owner_ok:
  assumes "acquire_owner c lk h = Ok ((), h')"
  shows "locks h' = (locks h)(lk := (locks h lk)\<lparr>lkcpu := Some c\<rparr>)" and "cpus h' = cpus h"
  using assms by (auto simp: lock_op_defs)

lemma release_owner_ok:
  assumes "release_owner c lk h = Ok ((), h')"
  shows "lkcpu (locks h lk) = Some c"
    and "locks h' = (locks h)(lk := (locks h lk)\<lparr>lkcpu := None\<rparr>)" and "cpus h' = cpus h"
  using assms by (auto simp: lock_op_defs split: if_splits)

lemma release_unlock_ok:
  assumes "release_unlock c lk h = Ok ((), h')"
  shows "locks h' = (locks h)(lk := (locks h lk)\<lparr>locked := 0\<rparr>)"
    and "noff (cpus h' d) = noff (cpus h d) - (if d = c then 1 else 0)"
    and "sie (cpus h' d) \<longrightarrow> sie (cpus h d) \<or> d = c \<and> noff (cpus h' c) = 0"
  using assms by (auto simp: lock_op_defs split: if_splits)

lemmas lock_op_ok = acquire_enter_ok test_and_set_ok acquire_owner_ok release_owner_ok
  release_unlock_ok

lemma lock_inv0: "lock_inv machine0" and intr_inv0: "intr_inv machine0"
  by (simp_all add: lock_inv_def intr_inv_def machine0_def inside_def in_lock_code_def)

lemma mupd_simps [simp]:
  "hs (mupd c p l h m) = h"
  "pc (mupd c p l h m) d = (if d = c then p else pc m d)"
  "held (mupd c p l h m) d = (if d = c then l else held m d)"
  by (simp_all add: mupd_def)

lemma inside_mupd:
  "inside (mupd c p l h m) lk d \<longleftrightarrow>
     (if d = c then p = Got lk \<or> p = Rel lk \<or> lk \<in> set l else inside m lk d)"
  by (simp add: inside_def)

lemma intr_inv_step:
  assumes "lstep m m'" and "lock_inv m" and "intr_inv m"
  shows "intr_inv m'"
  using assms
proof (induction rule: lstep.induct)
  case (Enter m c lk h)
  then show ?case
    using acquire_enter_ok [OF Enter.hyps(2)] by (simp add: intr_inv_def in_lock_code_def)
next
  case (SpinFail m c lk v h)
  then show ?case
    using test_and_set_ok [OF SpinFail.hyps(2)] by (simp add: intr_inv_def in_lock_code_def)
next
  case (SpinGot m c lk h)
  then show ?case
    using test_and_set_ok [OF SpinGot.hyps(2)] by (simp add: intr_inv_def in_lock_code_def)
next
  case (Owner m c lk h)
  then have "lk \<notin> set (held m c)" unfolding lock_inv_def by blast
  with Owner show ?case
    using acquire_owner_ok [OF Owner.hyps(2)] by (simp add: intr_inv_def in_lock_code_def)
next
  case (Release m c lk h)
  then have "lk \<in> set (held m c)"
    using release_owner_ok [OF Release.hyps(2)] by (simp add: lock_inv_def)
  then have "length (held m c) = Suc (length (remove1 lk (held m c)))"
    using length_pos_if_in_set [of lk "held m c"] by (simp add: length_remove1)
  with Release show ?case
    using release_owner_ok [OF Release.hyps(2)] by (simp add: intr_inv_def in_lock_code_def)
next
  case (Unlock m c lk h)
  have inv: "noff (cpus (hs m) d) = int (length (held m d)) + in_lock_code (pc m d)"
    "noff (cpus (hs m) d) \<noteq> 0 \<longrightarrow> \<not> sie (cpus (hs m) d)" for d
    using Unlock.prems(2) by (simp_all add: intr_inv_def)
  note u = release_unlock_ok [OF Unlock.hyps(2)]
  have "noff (cpus h d) = int (length (held m d)) + (if d = c then 0 else in_lock_code (pc m d))" for d
    using u(2) [of d] inv(1) [of d] Unlock.hyps(1) by (simp add: in_lock_code_def)
  moreover have "noff (cpus h d) \<noteq> 0 \<longrightarrow> \<not> sie (cpus h d)" for d
    using u(2,3) [of d] inv [of d] Unlock.hyps(1) by (cases "d = c") (auto simp: in_lock_code_def)
  moreover have "distinct (held m d)" for d using Unlock.prems(2) by (simp add: intr_inv_def)
  ultimately show ?case by (auto simp: intr_inv_def in_lock_code_def)
next
  case (Intr m c b)
  then show ?case by (simp add: intr_inv_def upd_cpu_def)
qed

lemma inside_simps:
  "pc m c = Got lk \<Longrightarrow> inside m lk c" "pc m c = Rel lk \<Longrightarrow> inside m lk c"
  "lk \<in> set (held m c) \<Longrightarrow> inside m lk c"
  by (simp_all add: inside_def)

lemma lock_invD:
  assumes "lock_inv m"
  shows "inside m lk c \<Longrightarrow> locked (locks (hs m) lk) \<noteq> 0"
    and "inside m lk c \<Longrightarrow> inside m lk d \<Longrightarrow> c = d"
    and "lkcpu (locks (hs m) lk) = Some c \<longleftrightarrow> lk \<in> set (held m c)"
    and "lk \<in> set (held m c) \<Longrightarrow> pc m c \<noteq> Got lk \<and> pc m c \<noteq> Rel lk"
  using assms unfolding lock_inv_def by blast+

lemma lock_invI:
  assumes "\<And>lk c. inside m lk c \<Longrightarrow> locked (locks (hs m) lk) \<noteq> 0"
    and "\<And>lk c d. inside m lk c \<Longrightarrow> inside m lk d \<Longrightarrow> c = d"
    and "\<And>lk c. lkcpu (locks (hs m) lk) = Some c \<longleftrightarrow> lk \<in> set (held m c)"
    and "\<And>lk c. lk \<in> set (held m c) \<Longrightarrow> pc m c \<noteq> Got lk \<and> pc m c \<noteq> Rel lk"
  shows "lock_inv m"
  using assms unfolding lock_inv_def by blast

text \<open>A step of CPU \<open>c\<close> on lock \<open>lk\<close> that is inside it, or about to be.\<close>

lemma lock_inv_mupd:
  assumes inv: "lock_inv m"
    and ins: "\<And>l d. inside (mupd c p l' h m) l d \<Longrightarrow> inside m l d \<or> l = lk \<and> d = c"
    and alone: "\<And>d. inside m lk d \<Longrightarrow> d = c"
    and other: "\<And>l. l \<noteq> lk \<Longrightarrow> locks h l = locks (hs m) l"
    and lck: "inside (mupd c p l' h m) lk c \<Longrightarrow> locked (locks h lk) \<noteq> 0"
    and only: "\<And>d. inside (mupd c p l' h m) lk d \<Longrightarrow> d = c"
    and held: "\<And>l. l \<noteq> lk \<Longrightarrow> l \<in> set l' \<longleftrightarrow> l \<in> set (held m c)"
    and cpu: "lkcpu (locks h lk) = (if lk \<in> set l' then Some c else None)"
    and pcs: "p \<in> {Run, Got lk, Rel lk}" "lk \<in> set l' \<Longrightarrow> p = Run"
  shows "lock_inv (mupd c p l' h m)"
proof (rule lock_invI)
  show "locked (locks (hs (mupd c p l' h m)) l) \<noteq> 0" if "inside (mupd c p l' h m) l d" for l d
    using that ins [OF that] lck only other lock_invD(1) [OF inv] by (cases "l = lk") auto
  show "d = e" if "inside (mupd c p l' h m) l d" "inside (mupd c p l' h m) l e" for l d e
    using ins [OF that(1)] ins [OF that(2)] lock_invD(2) [OF inv] only that
    by (cases "l = lk") blast+
  have "lk \<notin> set (held m d)" if "d \<noteq> c" for d
    using alone inside_simps(3) that by blast
  then show "lkcpu (locks (hs (mupd c p l' h m)) l) = Some d \<longleftrightarrow>
      l \<in> set (held (mupd c p l' h m) d)" for l d
    using cpu other [of l] held lock_invD(3) [OF inv, of l d] by (cases "l = lk") auto
  show "pc (mupd c p l' h m) d \<noteq> Got l \<and> pc (mupd c p l' h m) d \<noteq> Rel l"
    if "l \<in> set (held (mupd c p l' h m) d)" for l d
    using that pcs lock_invD(4) [OF inv, of l d] by (cases "d = c") auto
qed

lemma lock_inv_step:
  assumes "lstep m m'" and "lock_inv m" and "intr_inv m"
  shows "lock_inv m'"
  using assms
proof (induction rule: lstep.induct)
  case (Enter m c lk h)
  then show ?case
    using acquire_enter_ok [OF Enter.hyps(2)]
    by (auto simp: lock_inv_def inside_mupd inside_def split: if_splits)
next
  case (SpinFail m c lk v h)
  have "inside (mupd c (Spin lk) (held m c) h m) = inside m"
    using SpinFail.hyps(1) by (intro ext) (auto simp: inside_def)
  with SpinFail show ?case
    using test_and_set_ok [OF SpinFail.hyps(2)] by (simp add: lock_inv_def)
next
  case (SpinGot m c lk h)
  have none: "\<not> inside m lk d" for d
    using lock_invD(1) [OF SpinGot.prems(1)] test_and_set_ok(1) [OF SpinGot.hyps(2)] by blast
  moreover from this have "lk \<notin> set (held m d)" for d using inside_simps(3) by blast
  moreover from this have "lkcpu (locks (hs m) lk) = None"
    using lock_invD(3) [OF SpinGot.prems(1), of lk] by (cases "lkcpu (locks (hs m) lk)") auto
  ultimately show ?case
    using SpinGot.prems(1) test_and_set_ok [OF SpinGot.hyps(2)]
    by (intro lock_inv_mupd [where lk = lk]) (auto simp: inside_def split: if_splits)
next
  case (Owner m c lk h)
  have own: "inside m lk d \<Longrightarrow> d = c" for d
    using lock_invD(2) [OF Owner.prems(1)] inside_simps(1) [OF Owner.hyps(1)] by blast
  have "locked (locks (hs m) lk) \<noteq> 0"
    using lock_invD(1) [OF Owner.prems(1)] inside_simps(1) [OF Owner.hyps(1)] by blast
  then show ?case
    using Owner acquire_owner_ok [OF Owner.hyps(2)] own
    by (intro lock_inv_mupd [where lk = lk]) (auto simp: inside_def split: if_splits)
next
  case (Release m c lk h)
  have own: "lk \<in> set (held m c)" "lk \<notin> set (remove1 lk (held m c))"
    using lock_invD(3) [OF Release.prems(1)] release_owner_ok [OF Release.hyps(2)] Release.prems(2)
    by (simp_all add: intr_inv_def)
  have "inside m lk d \<Longrightarrow> d = c" for d
    using lock_invD(2) [OF Release.prems(1)] inside_simps(3) [OF own(1)] by blast
  moreover have "locked (locks (hs m) lk) \<noteq> 0"
    using lock_invD(1) [OF Release.prems(1)] inside_simps(3) [OF own(1)] by blast
  ultimately show ?case
    using Release release_owner_ok [OF Release.hyps(2)] own notin_set_remove1
    by (intro lock_inv_mupd [where lk = lk]) (auto simp: inside_def split: if_splits)
next
  case (Unlock m c lk h)
  have out: "lk \<notin> set (held m c)" using lock_invD(4) [OF Unlock.prems(1)] Unlock.hyps(1) by blast
  have alone: "inside m lk d \<Longrightarrow> d = c" for d
    using lock_invD(2) [OF Unlock.prems(1)] inside_simps(2) [OF Unlock.hyps(1)] by blast
  then have "lk \<notin> set (held m d)" for d using out inside_simps(3) [of lk m d] by (cases "d = c") auto
  then have "lkcpu (locks (hs m) lk) = None"
    using lock_invD(3) [OF Unlock.prems(1), of lk] by (cases "lkcpu (locks (hs m) lk)") auto
  then show ?case
    using Unlock release_unlock_ok [OF Unlock.hyps(2)] out alone
    by (intro lock_inv_mupd [where lk = lk]) (auto simp: inside_def split: if_splits)
next
  case (Intr m c b)
  then show ?case by (auto simp: lock_inv_def upd_cpu_def inside_def split: if_splits)
qed

lemma reachable_inv:
  assumes "lstep\<^sup>*\<^sup>* machine0 m"
  shows "lock_inv m \<and> intr_inv m"
  using assms
  by (induction rule: rtranclp_induct) (auto intro: lock_inv0 intr_inv0 lock_inv_step intr_inv_step)

text \<open>
  C5: in every state that any interleaving of \<open>acquire\<close> and \<open>release\<close> calls on any number of
  CPUs can reach, at most one CPU is between the acquisition and the release of a lock; the
  lock then is marked as held, \<open>holding\<close> is true exactly on the CPU that has completed
  \<open>acquire\<close> and not begun \<open>release\<close>, and that CPU has interrupts off.
\<close>

theorem mutual_exclusion:
  assumes "lstep\<^sup>*\<^sup>* machine0 m"
  shows "(inside m lk c \<and> inside m lk d \<longrightarrow> c = d) \<and>
    (inside m lk c \<longrightarrow> locked (locks (hs m) lk) \<noteq> 0) \<and>
    holding c lk (hs m) = Ok (lk \<in> set (held m c), hs m) \<and>
    (inside m lk c \<longrightarrow> \<not> sie (cpus (hs m) c))"
proof -
  have inv: "lock_inv m" "intr_inv m" using reachable_inv [OF assms] by auto
  have "inside m lk c \<Longrightarrow> noff (cpus (hs m) c) \<noteq> 0"
    using inv(2) by (auto simp: intr_inv_def inside_def in_lock_code_def split: lpc.splits)
  then show ?thesis
    using inv inside_simps(3) [of lk m c]
    by (auto simp: lock_inv_def intr_inv_def holding_def kop_defs)
qed

definition two_cpus :: machine where
  "two_cpus = mupd 0 Run [7]
     (upd_lock 7 (\<lambda>l. \<lparr>locked = 1, lkcpu = Some 0\<rparr>)
       (upd_cpu 0 (\<lambda>p. \<lparr>noff = 1, intena = False, sie = False\<rparr>) (hs machine0))) machine0"

lemma one_acquire: "lstep\<^sup>*\<^sup>* machine0 two_cpus"
proof -
  let ?h1 = "upd_cpu 0 (\<lambda>p. \<lparr>noff = 1, intena = False, sie = False\<rparr>) (hs machine0)"
  let ?m1 = "mupd 0 (Spin 7) [] ?h1 machine0"
  let ?h2 = "upd_lock 7 (\<lambda>l. \<lparr>locked = 1, lkcpu = None\<rparr>) ?h1"
  let ?m2 = "mupd 0 (Got 7) [] ?h2 machine0"
  have 1: "lstep machine0 ?m1"
    using Enter [of machine0 0 7 ?h1] by (simp add: machine0_def lock_op_defs)
  have 2: "lstep ?m1 ?m2"
    using SpinGot [of ?m1 0 7 ?h2] by (simp add: machine0_def lock_op_defs mupd_def)
  have 3: "lstep ?m2 two_cpus"
    using Owner [of ?m2 0 7 "hs two_cpus"]
    by (simp add: machine0_def lock_op_defs mupd_def two_cpus_def)
  show ?thesis
    by (rule converse_rtranclp_into_rtranclp [OF 1 converse_rtranclp_into_rtranclp
          [OF 2 r_into_rtranclp [of lstep, OF 3]]])
qed

theorem mutual_exclusion_witness:
  "inside two_cpus 7 0 \<and> \<not> inside two_cpus 7 1 \<and> holding 0 7 (hs two_cpus) = Ok (True, hs two_cpus)"
  using mutual_exclusion [OF one_acquire, of 7 0 1]
  by (simp add: inside_def two_cpus_def) 

text \<open>
  C14: in every reachable state a CPU that calls \<open>release\<close> on a lock it holds, and one that is
  about to unlock, complete without a panic: \<open>pop_off\<close> never finds interrupts enabled or
  an empty nesting count.
\<close>

theorem release_never_panics:
  assumes "lstep\<^sup>*\<^sup>* machine0 m" and "pc m c = Run" and "lk \<in> set (held m c)"
  shows "\<exists>h. release c lk (hs m) = Ok ((), h)"
proof -
  have inv: "lock_inv m" "intr_inv m" using reachable_inv [OF assms(1)] by auto
  have "noff (cpus (hs m) c) = int (length (held m c)) + in_lock_code (pc m c)"
    using inv(2) by (simp add: intr_inv_def)
  then have "noff (cpus (hs m) c) \<ge> 1"
    using length_pos_if_in_set [OF assms(3)] assms(2) by (cases "held m c") (auto simp: in_lock_code_def)
  moreover from this have "\<not> sie (cpus (hs m) c)" using inv(2) by (simp add: intr_inv_def)
  moreover have "locked (locks (hs m) lk) \<noteq> 0" "lkcpu (locks (hs m) lk) = Some c"
    using lock_invD(1,3) [OF inv(1)] inside_simps(3) [OF assms(3)] assms(3) by blast+
  ultimately show ?thesis by (simp add: release_def lock_op_defs)
qed

theorem release_never_panics_witness:
  "\<exists>h. release 0 7 (hs two_cpus) = Ok ((), h)"
  using release_never_panics [OF one_acquire, of 0 7] by (simp add: two_cpus_def)

end
