(* ===== verification/Riscv.thy ===== *)
theory Riscv
  imports Prelude
begin

text \<open>
  The address arithmetic of \<^verbatim>\<open>kernel/riscv.h\<close> and \<^verbatim>\<open>kernel/memlayout.h\<close>: page rounding,
  the fields of page-table entries and of Sv39 virtual addresses, and the layout of
  physical and virtual memory.
\<close>

section \<open>The macros\<close>

definition PGSIZE :: uint64 where
  "PGSIZE = 4096"

definition PGSHIFT :: nat where
  "PGSHIFT = 12"

definition PGROUNDUP :: "uint64 \<Rightarrow> uint64" where
  "PGROUNDUP sz = (sz + PGSIZE - 1) AND NOT (PGSIZE - 1)"

definition PGROUNDDOWN :: "uint64 \<Rightarrow> uint64" where
  "PGROUNDDOWN a = a AND NOT (PGSIZE - 1)"

definition PTE_V :: uint64 where "PTE_V = push_bit 0 1"
definition PTE_R :: uint64 where "PTE_R = push_bit 1 1"
definition PTE_W :: uint64 where "PTE_W = push_bit 2 1"
definition PTE_X :: uint64 where "PTE_X = push_bit 3 1"
definition PTE_U :: uint64 where "PTE_U = push_bit 4 1"

definition PA2PTE :: "uint64 \<Rightarrow> uint64" where
  "PA2PTE pa = push_bit 10 (drop_bit 12 pa)"

definition PTE2PA :: "uint64 \<Rightarrow> uint64" where
  "PTE2PA pte = push_bit 12 (drop_bit 10 pte)"

definition PTE_FLAGS :: "uint64 \<Rightarrow> uint64" where
  "PTE_FLAGS pte = pte AND 0x3FF"

definition PXMASK :: uint64 where
  "PXMASK = 0x1FF"

definition PXSHIFT :: "nat \<Rightarrow> nat" where
  "PXSHIFT level = PGSHIFT + 9 * level"

definition PX :: "nat \<Rightarrow> uint64 \<Rightarrow> uint64" where
  "PX level va = drop_bit (PXSHIFT level) va AND PXMASK"

definition MAXVA :: uint64 where
  "MAXVA = push_bit (9 + 9 + 9 + 12 - 1) 1"

definition SATP_SV39 :: uint64 where
  "SATP_SV39 = push_bit 60 8"

definition MAKE_SATP :: "uint64 \<Rightarrow> uint64" where
  "MAKE_SATP pagetable = SATP_SV39 OR drop_bit 12 pagetable"

definition KERNBASE :: uint64 where
  "KERNBASE = 0x80000000"

definition PHYSTOP :: uint64 where
  "PHYSTOP = KERNBASE + 128 * 1024 * 1024"

definition TRAMPOLINE :: uint64 where
  "TRAMPOLINE = MAXVA - PGSIZE"

definition KSTACK :: "uint64 \<Rightarrow> uint64" where
  "KSTACK p = TRAMPOLINE - (p + 1) * 2 * PGSIZE"

definition TRAPFRAME :: uint64 where
  "TRAPFRAME = TRAMPOLINE - PGSIZE"

definition NPROC :: nat where
  "NPROC = 64"

section \<open>Page rounding\<close>

text \<open>A page-aligned address, and the page an address lies in.\<close>

definition pg_aligned :: "uint64 \<Rightarrow> bool" where
  "pg_aligned a \<longleftrightarrow> a mod PGSIZE = 0"

lemma not_mask_12: "NOT (4095 :: uint64) = NOT (mask 12)"
  by (simp add: mask_eq_exp_minus_1)

lemma and_not_mask_12: "(a :: uint64) AND NOT 4095 = push_bit 12 (drop_bit 12 a)"
  unfolding not_mask_12 by (rule bit_word_eqI) (auto simp: bit_simps)

lemma unat_and_not_mask: "unat ((a :: uint64) AND NOT 4095) = unat a div 4096 * 4096"
proof -
  have "unat (drop_bit 12 a) = unat a div 4096"
    by (simp add: drop_bit_eq_div unat_div)
  moreover have "unat a div 4096 < 2 ^ 52"
    using unsigned_less [of a, where ?'a = nat] by (simp add: div_less_iff_less_mult)
  ultimately show ?thesis
    unfolding and_not_mask_12
    using unat_mult_lem [of "drop_bit 12 a" 4096] by (simp add: push_bit_eq_mult)
qed

lemma unat_PGROUNDDOWN: "unat (PGROUNDDOWN a) = unat a div 4096 * 4096"
  using unat_and_not_mask [of a] by (simp add: PGROUNDDOWN_def PGSIZE_def)

lemma unat_PGROUNDUP:
  assumes "unat sz + 4095 < 2 ^ 64"
  shows "unat (PGROUNDUP sz) = (unat sz + 4095) div 4096 * 4096"
proof -
  have "unat (sz + 4095) = unat sz + 4095"
    using assms by (simp add: unat_plus_if')
  then show ?thesis
    unfolding PGROUNDUP_def PGSIZE_def
    using unat_and_not_mask [of "sz + 4095"] by (simp add: add.commute)
qed

lemma pg_aligned_iff: "pg_aligned a \<longleftrightarrow> 4096 dvd unat a"
proof -
  have "a mod 4096 = 0 \<longleftrightarrow> unat (a mod 4096) = 0"
    by (simp only: unat_eq_0)
  then show ?thesis
    by (simp add: pg_aligned_def PGSIZE_def unat_mod dvd_eq_mod_eq_0)
qed

lemma PGROUNDDOWN_aligned [simp]: "pg_aligned (PGROUNDDOWN a)"
  by (simp add: pg_aligned_iff unat_PGROUNDDOWN)

lemma PGROUNDDOWN_id: "pg_aligned a \<Longrightarrow> PGROUNDDOWN a = a"
  by (rule word_unat_eq_iff [THEN iffD2]) (simp add: unat_PGROUNDDOWN pg_aligned_iff)

lemma PGROUNDUP_aligned [simp]: "pg_aligned (PGROUNDUP a)"
  using PGROUNDDOWN_aligned [of "a + PGSIZE - 1"] by (simp add: PGROUNDUP_def PGROUNDDOWN_def)

lemma PGROUNDUP_id: "pg_aligned a \<Longrightarrow> unat a + 4095 < 2 ^ 64 \<Longrightarrow> PGROUNDUP a = a"
  by (rule word_unat_eq_iff [THEN iffD2]) (auto simp: unat_PGROUNDUP pg_aligned_iff elim!: dvdE)

lemma round_up_down:
  "4096 dvd (n :: nat) \<longleftrightarrow> (n + 4095) div 4096 * 4096 = n div 4096 * 4096"
proof -
  define q r where "q = n div 4096" and "r = n mod 4096"
  then have n: "n = r + q * 4096" and r: "r < 4096" by simp_all
  have "(n + 4095) div 4096 = q + (r + 4095) div 4096"
    unfolding n by (simp add: add.commute add.left_commute)
  moreover have "(r + 4095) div 4096 = (if r = 0 then 0 else 1)"
    using r by (auto simp: div_nat_eqI)
  ultimately show ?thesis
    by (simp add: dvd_eq_mod_eq_0 flip: q_def r_def)
qed

section \<open>Page-table entries and virtual addresses\<close>

text \<open>
  C23: rounding an address down gives the start of its page, rounding up gives the least
  page boundary at or above it, and both leave a page boundary alone (no overflow at the
  top of the address space).
\<close>

theorem page_rounding:
  assumes "unat a + 4095 < 2 ^ 64"
  shows "pg_aligned (PGROUNDDOWN a) \<and> PGROUNDDOWN a \<le> a \<and> a - PGROUNDDOWN a < PGSIZE \<and>
    pg_aligned (PGROUNDUP a) \<and> a \<le> PGROUNDUP a \<and> PGROUNDUP a - a < PGSIZE \<and>
    (pg_aligned a \<longleftrightarrow> PGROUNDUP a = PGROUNDDOWN a)"
proof -
  have d: "unat (PGROUNDDOWN a) = unat a div 4096 * 4096" by (rule unat_PGROUNDDOWN)
  have u: "unat (PGROUNDUP a) = (unat a + 4095) div 4096 * 4096"
    using assms by (rule unat_PGROUNDUP)
  have le: "PGROUNDDOWN a \<le> a" "a \<le> PGROUNDUP a"
    using d u by (simp_all add: word_le_nat_alt)
  moreover have "a - PGROUNDDOWN a < PGSIZE" "PGROUNDUP a - a < PGSIZE"
    using le d u by (simp_all add: word_less_nat_alt unat_sub PGSIZE_def)
  moreover have "pg_aligned a \<longleftrightarrow> PGROUNDUP a = PGROUNDDOWN a"
    unfolding word_unat_eq_iff d u pg_aligned_iff by (rule round_up_down)
  ultimately show ?thesis by simp
qed

theorem page_rounding_witness:
  "PGROUNDUP 4097 = 8192 \<and> PGROUNDDOWN 4097 = 4096 \<and> 4097 - PGROUNDDOWN 4097 < PGSIZE"
  using page_rounding [of 4097] by (simp add: PGROUNDUP_def PGROUNDDOWN_def PGSIZE_def)

lemma aligned_bits: "pg_aligned pa \<Longrightarrow> bit pa n \<Longrightarrow> 12 \<le> n"
proof (rule ccontr)
  assume "pg_aligned pa" and "bit pa n" and "\<not> 12 \<le> n"
  moreover from \<open>pg_aligned pa\<close> have "take_bit 12 pa = 0"
    by (simp add: pg_aligned_def PGSIZE_def take_bit_eq_mod)
  ultimately show False
    by (metis bit_take_bit_iff bit_0_eq bot_apply bot_bool_def not_le)
qed

lemma bits_below: "(x :: uint64) < 2 ^ k \<Longrightarrow> k < 64 \<Longrightarrow> bit x n \<Longrightarrow> n < k"
proof (rule ccontr)
  assume lt: "x < 2 ^ k" and k: "k < 64" and b: "bit x n" and "\<not> n < k"
  then have "(2 :: nat) ^ k \<le> 2 ^ n" by simp
  also have "2 ^ n \<le> unat x"
  proof -
    have "bit (unat x) n" using b by (simp add: bit_unsigned_iff)
    then have "odd (unat x div 2 ^ n)" by (simp add: bit_iff_odd)
    then show ?thesis by (metis div_less even_zero not_less)
  qed
  finally have "2 ^ k \<le> unat x" .
  moreover have "unat (2 ^ k :: uint64) = 2 ^ k"
    using unat_of_nat [where ?'a = 64, of "2 ^ k"] power_strict_increasing [OF k, of "2 :: nat"]
    by simp
  ultimately show False using lt by (simp add: word_less_nat_alt)
qed

lemma pte_fields:
  assumes "pg_aligned pa" and "pa < 2 ^ 56" and "perm < 2 ^ 10"
  shows "PTE2PA (PA2PTE pa OR perm OR PTE_V) = pa \<and>
    PTE_FLAGS (PA2PTE pa OR perm OR PTE_V) = perm OR PTE_V"
proof
  have pa: "bit pa n \<Longrightarrow> 12 \<le> n \<and> n < 56" for n
    using aligned_bits [OF assms(1), of n] bits_below [OF assms(2), of n] by simp
  have perm: "bit perm n \<Longrightarrow> n < 10" for n
    using bits_below [OF assms(3), of n] by simp
  show "PTE2PA (PA2PTE pa OR perm OR PTE_V) = pa"
    unfolding PTE2PA_def PA2PTE_def PTE_V_def
    by (rule bit_word_eqI) (use pa perm in \<open>fastforce simp: bit_simps\<close>)
  have m: "(0x3FF :: uint64) = mask 10" by (simp add: mask_eq_exp_minus_1)
  show "PTE_FLAGS (PA2PTE pa OR perm OR PTE_V) = perm OR PTE_V"
    unfolding PTE_FLAGS_def PA2PTE_def PTE_V_def m
    by (intro bit_word_eqI) (use pa perm in \<open>fastforce simp: bit_simps\<close>)
qed

text \<open>
  C24: a page-table entry built from a page-aligned physical address below \<open>2 ^ 56\<close> and
  permission bits gives back that address and exactly those bits (the valid bit set): the
  address and flag fields of an entry never overlap.
\<close>

theorem pte_roundtrip:
  assumes "pg_aligned pa" and "pa < 2 ^ 56" and "perm < 2 ^ 10"
  shows "PTE2PA (PA2PTE pa OR perm OR PTE_V) = pa \<and>
    PTE_FLAGS (PA2PTE pa OR perm OR PTE_V) = perm OR PTE_V"
  using assms by (rule pte_fields)

theorem pte_roundtrip_witness:
  "PTE2PA (PA2PTE 0x80001000 OR (PTE_R OR PTE_U) OR PTE_V) = 0x80001000"
  using pte_roundtrip [of "0x80001000" "PTE_R OR PTE_U"]
  by (simp add: pg_aligned_def PGSIZE_def PTE_R_def PTE_U_def)

end
