(* ===== verification/KString.thy ===== *)
theory KString
  imports Riscv
begin

text \<open>
  Byte-addressed memory and the routines of \<^verbatim>\<open>kernel/string.c\<close> on it. Pointers are 64-bit
  addresses and pointer arithmetic wraps; a C buffer is the range of addresses from its
  first byte. 64-bit loads and stores are little-endian.
\<close>

type_synonym memory = "uint64 \<Rightarrow> uchar"

section \<open>The routines\<close>

text \<open>\<open>for(i = 0; i < n; i++) cdst[i] = c\<close>\<close>

definition memset :: "uint64 \<Rightarrow> int \<Rightarrow> uint32 \<Rightarrow> memory \<Rightarrow> memory" where
  "memset dst c n m = fold (\<lambda>i m. m(dst + of_nat i := word_of_int c)) [0..<unat n] m"

primrec memcmp_loop :: "nat \<Rightarrow> uint64 \<Rightarrow> uint64 \<Rightarrow> memory \<Rightarrow> int" where
  "memcmp_loop 0 s1 s2 m = 0"
| "memcmp_loop (Suc n) s1 s2 m =
     (if m s1 \<noteq> m s2 then uint (m s1) - uint (m s2) else memcmp_loop n (s1 + 1) (s2 + 1) m)"

definition memcmp :: "uint64 \<Rightarrow> uint64 \<Rightarrow> uint32 \<Rightarrow> memory \<Rightarrow> int" where
  "memcmp v1 v2 n m = memcmp_loop (unat n) v1 v2 m"

text \<open>The two copy loops of \<open>memmove\<close>: from the last byte down, and from the first byte up.\<close>

primrec copy_down :: "nat \<Rightarrow> uint64 \<Rightarrow> uint64 \<Rightarrow> memory \<Rightarrow> memory" where
  "copy_down 0 d s m = m"
| "copy_down (Suc n) d s m = (let d' = d - 1; s' = s - 1 in copy_down n d' s' (m(d' := m s')))"

primrec copy_up :: "nat \<Rightarrow> uint64 \<Rightarrow> uint64 \<Rightarrow> memory \<Rightarrow> memory" where
  "copy_up 0 d s m = m"
| "copy_up (Suc n) d s m = copy_up n (d + 1) (s + 1) (m(d := m s))"

definition memmove :: "uint64 \<Rightarrow> uint64 \<Rightarrow> uint32 \<Rightarrow> memory \<Rightarrow> memory" where
  "memmove dst src n m =
     (if n = 0 then m
      else if src < dst \<and> src + ucast n > dst
      then copy_down (unat n) (dst + ucast n) (src + ucast n) m
      else copy_up (unat n) dst src m)"

definition memcpy :: "uint64 \<Rightarrow> uint64 \<Rightarrow> uint32 \<Rightarrow> memory \<Rightarrow> memory" where
  "memcpy dst src n m = memmove dst src n m"

primrec strncmp_loop :: "nat \<Rightarrow> uint64 \<Rightarrow> uint64 \<Rightarrow> memory \<Rightarrow> int" where
  "strncmp_loop 0 p q m = 0"
| "strncmp_loop (Suc n) p q m =
     (if m p \<noteq> 0 \<and> m p = m q then strncmp_loop n (p + 1) (q + 1) m
      else uint (m p) - uint (m q))"

definition strncmp :: "uint64 \<Rightarrow> uint64 \<Rightarrow> uint32 \<Rightarrow> memory \<Rightarrow> int" where
  "strncmp p q n m = strncmp_loop (unat n) p q m"

text \<open>
  \<open>strncpy\<close> copies until it has stored a zero byte, then pads with zeroes; the argument
  counts the iterations left.
\<close>

primrec zero_fill :: "nat \<Rightarrow> uint64 \<Rightarrow> memory \<Rightarrow> memory" where
  "zero_fill 0 s m = m"
| "zero_fill (Suc n) s m = zero_fill n (s + 1) (m(s := 0))"

primrec strncpy_loop :: "nat \<Rightarrow> uint64 \<Rightarrow> uint64 \<Rightarrow> memory \<Rightarrow> memory" where
  "strncpy_loop 0 s t m = m"
| "strncpy_loop (Suc n) s t m =
     (if m t \<noteq> 0 then strncpy_loop n (s + 1) (t + 1) (m(s := m t))
      else zero_fill n (s + 1) (m(s := m t)))"

definition strncpy :: "uint64 \<Rightarrow> uint64 \<Rightarrow> int \<Rightarrow> memory \<Rightarrow> memory" where
  "strncpy s t n m = strncpy_loop (nat n) s t m"

text \<open>\<open>while(--n > 0 && (*s++ = *t++) != 0); *s = 0\<close>, with the iterations left after the decrement.\<close>

primrec safestrcpy_loop :: "nat \<Rightarrow> uint64 \<Rightarrow> uint64 \<Rightarrow> memory \<Rightarrow> memory" where
  "safestrcpy_loop 0 s t m = m(s := 0)"
| "safestrcpy_loop (Suc n) s t m =
     (if m t \<noteq> 0 then safestrcpy_loop n (s + 1) (t + 1) (m(s := m t))
      else (m(s := m t))(s + 1 := 0))"

definition safestrcpy :: "uint64 \<Rightarrow> uint64 \<Rightarrow> int \<Rightarrow> memory \<Rightarrow> memory" where
  "safestrcpy s t n m = (if n \<le> 0 then m else safestrcpy_loop (nat n - 1) s t m)"

text \<open>\<open>strlen\<close> returns only if it meets a zero byte.\<close>

partial_function (option) strlen_from :: "nat \<Rightarrow> uint64 \<Rightarrow> memory \<Rightarrow> nat option" where
  "strlen_from n s m = (if m (s + of_nat n) \<noteq> 0 then strlen_from (Suc n) s m else Some n)"

definition strlen :: "uint64 \<Rightarrow> memory \<Rightarrow> nat option" where
  "strlen s m = strlen_from 0 s m"

lemma unat_ucast_32_64 [simp]: "unat (ucast (n :: uint32) :: uint64) = unat n"
  using unsigned_less [of n, where ?'a = nat]
  by (simp add: unsigned_ucast_eq take_bit_nat_eq_self)

section \<open>What they compute\<close>

text \<open>The \<open>n\<close> bytes from address \<open>p\<close>, and the string they start with.\<close>

definition bytes :: "memory \<Rightarrow> uint64 \<Rightarrow> nat \<Rightarrow> uchar list" where
  "bytes m p n = map (\<lambda>i. m (p + of_nat i)) [0..<n]"

definition cstr :: "memory \<Rightarrow> uint64 \<Rightarrow> nat \<Rightarrow> uchar list" where
  "cstr m p n = takeWhile (\<lambda>c. c \<noteq> 0) (bytes m p n)"

lemma bytes_0 [simp]: "bytes m p 0 = []"
  by (simp add: bytes_def)

lemma bytes_Suc: "bytes m p (Suc n) = m p # bytes m (p + 1) n"
  by (simp add: bytes_def upt_conv_Cons map_Suc_upt [symmetric] add.assoc del: upt_Suc)

lemma cstr_0 [simp]: "cstr m p 0 = []"
  by (simp add: cstr_def)

lemma cstr_Suc: "cstr m p (Suc n) = (if m p = 0 then [] else m p # cstr m (p + 1) n)"
  by (simp add: cstr_def bytes_Suc)

lemma length_bytes [simp]: "length (bytes m p n) = n"
  by (simp add: bytes_def)

lemma nth_bytes [simp]: "i < n \<Longrightarrow> bytes m p n ! i = m (p + of_nat i)"
  by (simp add: bytes_def)

text \<open>\<open>a\<close> lies in the range of \<open>n\<close> bytes from \<open>p\<close> exactly when \<open>unat (a - p) < n\<close>.\<close>

lemma unat_diff_Suc: "(a :: uint64) \<noteq> p \<Longrightarrow> unat (a - p) = Suc (unat (a - (p + 1)))"
proof -
  assume "a \<noteq> p"
  then have "a - p \<noteq> 0" by simp
  then have "1 + (a - (p + 1)) \<noteq> 0" by simp
  then have "unat (1 + (a - (p + 1))) = Suc (unat (a - (p + 1)))" by (rule unatSuc)
  then show ?thesis by simp
qed

lemma unat_diff_less_Suc: "unat ((a :: uint64) - p) < Suc n \<longleftrightarrow> a = p \<or> a \<noteq> p \<and> unat (a - (p + 1)) < n"
  by (cases "a = p") (auto simp: unat_diff_Suc)

lemma memset_apply: "memset dst c n m a = (if unat (a - dst) < unat n then word_of_int c else m a)"
proof -
  have "k \<le> 2 ^ 64 \<Longrightarrow> fold (\<lambda>i m. m(dst + of_nat i := v)) [0..<k] m a =
      (if unat (a - dst) < k then v else m a)" for k and v :: uchar
  proof (induction k)
    case 0
    then show ?case by simp
  next
    case (Suc k)
    have "unat (of_nat k :: uint64) = k" using Suc.prems by (simp add: unat_of_nat)
    moreover have "a = dst + of_nat k \<longleftrightarrow> a - dst = of_nat k" by (auto simp: algebra_simps)
    ultimately have "a = dst + of_nat k \<longleftrightarrow> unat (a - dst) = k"
      by (simp add: word_unat_eq_iff [of "a - dst"])
    then show ?case using Suc by (auto simp: less_Suc_eq)
  qed
  moreover have "unat n \<le> 2 ^ 64"
    using unsigned_less [of n, where ?'a = nat] by simp
  ultimately show ?thesis unfolding memset_def by blast
qed

lemma copy_up_apply:
  "d = s \<or> n \<le> unat (d - s) \<Longrightarrow>
     copy_up n d s m a = (if unat (a - d) < n then m (a + (s - d)) else m a)"
proof (induction n arbitrary: d s m)
  case 0
  then show ?case by simp
next
  case (Suc n)
  have "copy_up n (d + 1) (s + 1) (m(d := m s)) a =
      (if unat (a - (d + 1)) < n then (m(d := m s)) (a + (s + 1 - (d + 1))) else (m(d := m s)) a)"
    by (rule Suc.IH) (use Suc.prems in auto)
  moreover have "a + (s - d) \<noteq> d" if "a \<noteq> d" "unat (a - (d + 1)) < n" "d \<noteq> s"
  proof
    assume "a + (s - d) = d"
    then have "a - d = d - s" by (simp add: algebra_simps)
    with that Suc.prems unat_diff_Suc [of a d] show False by simp
  qed
  ultimately show ?case
    using unat_diff_Suc [of a d] by (auto simp: fun_upd_apply)
qed

lemma copy_down_apply:
  "s = d \<or> n \<le> unat (s - d) \<Longrightarrow>
     copy_down n d s m a = (if unat (d - 1 - a) < n then m (a + (s - d)) else m a)"
proof (induction n arbitrary: d s m)
  case 0
  then show ?case by simp
next
  case (Suc n)
  have "copy_down n (d - 1) (s - 1) (m(d - 1 := m (s - 1))) a =
      (if unat (d - 1 - 1 - a) < n then (m(d - 1 := m (s - 1))) (a + (s - 1 - (d - 1)))
       else (m(d - 1 := m (s - 1))) a)"
    by (rule Suc.IH) (use Suc.prems in auto)
  moreover have st: "unat (d - 1 - a) = Suc (unat (d - 1 - 1 - a))" if "a \<noteq> d - 1"
    using that unat_diff_Suc [of "d - 1" a] by (simp add: algebra_simps)
  moreover have "a + (s - d) \<noteq> d - 1" if "a \<noteq> d - 1" "unat (d - 1 - 1 - a) < n" "s \<noteq> d"
  proof
    assume "a + (s - d) = d - 1"
    then have "s - d = d - 1 - a" by (simp add: algebra_simps)
    with that Suc.prems st show False by simp
  qed
  ultimately show ?case
    by (auto simp: fun_upd_apply Let_def)
qed

lemma unat_reverse: "0 < k \<Longrightarrow> unat (k - 1 - (x :: uint64)) < unat k \<longleftrightarrow> unat x < unat k"
  using unsigned_less [of x, where ?'a = nat]
  by (auto simp: unat_sub_if' unat_minus_one word_less_nat_alt unat_gt_0)

text \<open>
  C25: \<open>memmove\<close> copies the old contents of the source range to the destination range and
  changes nothing else, also when the ranges overlap in either direction, for ranges that
  do not run past the end of the address space.
\<close>

theorem memmove_correct:
  assumes "unat src + unat n < 2 ^ 64" and "unat dst + unat n < 2 ^ 64"
  shows "memmove dst src n m a = (if unat (a - dst) < unat n then m (src + (a - dst)) else m a)"
proof -
  let ?k = "ucast n :: uint64"
  have k: "unat ?k = unat n" by (rule unat_ucast_32_64)
  show ?thesis
  proof (cases "src < dst \<and> src + ?k > dst")
    case True
    have "unat n \<le> unat (src + ?k - (dst + ?k))"
      using True assms by (simp add: unat_sub_if' word_less_nat_alt)
    then have "copy_down (unat n) (dst + ?k) (src + ?k) m a =
        (if unat (dst + ?k - 1 - a) < unat n then m (a + (src - dst)) else m a)"
      by (subst copy_down_apply) auto
    moreover have e: "dst + ?k - 1 - a = ?k - 1 - (a - dst)" and "0 < ?k"
      using True by (auto simp: algebra_simps word_gt_0)
    have "unat (dst + ?k - 1 - a) < unat n \<longleftrightarrow> unat (a - dst) < unat n"
      unfolding e using unat_reverse [OF \<open>0 < ?k\<close>, of "a - dst"] k by simp
    ultimately show ?thesis
      using True by (auto simp: memmove_def algebra_simps)
  next
    case False
    have "dst = src \<or> unat n \<le> unat (dst - src)"
      using False assms k
      by (auto simp: unat_sub_if' word_less_nat_alt unat_plus_if' word_unat_eq_iff [of dst]
          split: if_splits)
    then show ?thesis 
      using False by (auto simp: memmove_def copy_up_apply algebra_simps)
  qed
qed

theorem memmove_correct_witness:
  "memmove 101 100 3 (\<lambda>a. ucast a) 103 = 102 \<and> memmove 100 101 3 (\<lambda>a. ucast a) 100 = 101"
  using memmove_correct [of 100 3 101 "\<lambda>a. ucast a" 103]
    memmove_correct [of 101 3 100 "\<lambda>a. ucast a" 100] by simp

lemma uint_uchar_eq: "uint x = uint y \<longleftrightarrow> x = (y :: uchar)"
  by (simp add: word_uint_eq_iff)

text \<open>
  C26: \<open>strncmp\<close> returns 0 exactly when the two buffers hold the same string, or agree on
  their first \<open>n\<close> bytes when neither ends before that.
\<close>

theorem strncmp_eq_0: "strncmp p q n m = 0 \<longleftrightarrow> cstr m p (unat n) = cstr m q (unat n)"
proof -
  have "strncmp_loop k p q m = 0 \<longleftrightarrow> cstr m p k = cstr m q k" for k
  proof (induction k arbitrary: p q)
    case 0
    then show ?case by (simp add: cstr_def)
  next
    case (Suc k)
    then show ?case by (auto simp: cstr_def bytes_Suc uint_uchar_eq uint_0_iff)
  qed
  then show ?thesis by (simp add: strncmp_def)
qed

text \<open>Writes outside a range leave its bytes alone.\<close>

lemma zero_fill_apply: "k \<le> 2 ^ 64 \<Longrightarrow> zero_fill k s m a = (if unat (a - s) < k then 0 else m a)"
proof (induction k arbitrary: s m)
  case 0
  then show ?case by simp
next
  case (Suc k)
  then show ?case by (auto simp: unat_diff_less_Suc)
qed

text \<open>Two ranges of \<open>n\<close> bytes that do not meet, each inside the address space.\<close>

definition apart :: "uint64 \<Rightarrow> uint64 \<Rightarrow> nat \<Rightarrow> bool" where
  "apart s t n \<longleftrightarrow> n \<le> unat (s - t) \<and> n \<le> unat (t - s)"

lemma apart_step: "apart s t (Suc n) \<Longrightarrow> apart (s + 1) (t + 1) n"
  by (simp add: apart_def)

lemma apart_bytes_upd:
  assumes "apart s t (Suc n)"
  shows "bytes (m(s := v)) (t + 1) n = bytes m (t + 1) n"
proof (rule nth_equalityI)
  fix i assume "i < length (bytes (m(s := v)) (t + 1) n)"
  then have i: "i < n" by simp
  have "t + 1 + of_nat i \<noteq> s"
  proof
    assume "t + 1 + of_nat i = s"
    then have "s - t = of_nat (Suc i)" by (auto simp: algebra_simps)
    then have "unat (s - t) \<le> Suc i"
      by (simp add: unat_of_nat del: of_nat_Suc)
    with assms i show False by (simp add: apart_def)
  qed
  with i show "bytes (m(s := v)) (t + 1) n ! i = bytes m (t + 1) n ! i" by simp
qed simp

lemma strncpy_loop_frame: "n \<le> unat (a - s) \<Longrightarrow> strncpy_loop n s t m a = m a"
proof (induction n arbitrary: s t m)
  case 0
  then show ?case by simp
next
  case (Suc n)
  then have ne: "a \<noteq> s" by auto
  with Suc.prems have "n \<le> unat (a - (s + 1))" by (simp add: unat_diff_Suc)
  moreover have "n \<le> 2 ^ 64"
    using Suc.prems unsigned_less [of "a - s", where ?'a = nat] by simp
  ultimately show ?case using Suc.IH ne by (simp add: zero_fill_apply)
qed

lemma strncpy_loop_bytes:
  "apart s t n \<Longrightarrow> bytes (strncpy_loop n s t m) s n =
     cstr m t n @ replicate (n - length (cstr m t n)) 0"
proof (induction n arbitrary: s t m)
  case 0
  then show ?case by (simp add: cstr_def)
next
  case (Suc n)
  let ?m = "m(s := m t)"
  have n: "n < 2 ^ 64"
    using Suc.prems unsigned_less [of "s - t", where ?'a = nat] by (simp add: apart_def)
  have far: "n \<le> unat (s - (s + 1))" using n by (simp add: unsigned_minus_1_eq_mask mask_eq_exp_minus_1)
  show ?case
  proof (cases "m t = 0")
    case True
    have "bytes (zero_fill n (s + 1) ?m) (s + 1) n = replicate n 0"
      using n by (intro nth_equalityI) (auto simp: zero_fill_apply unat_of_nat)
    moreover have "zero_fill n (s + 1) ?m s = 0"
      using True n far by (simp add: zero_fill_apply)
    ultimately show ?thesis using True by (simp add: bytes_Suc cstr_Suc)
  next
    case False
    have "cstr ?m (t + 1) n = cstr m (t + 1) n"
      using apart_bytes_upd [OF Suc.prems] by (simp add: cstr_def)
    moreover have "bytes (strncpy_loop n (s + 1) (t + 1) ?m) (s + 1) n =
        cstr ?m (t + 1) n @ replicate (n - length (cstr ?m (t + 1) n)) 0"
      by (rule Suc.IH [OF apart_step [OF Suc.prems]])
    moreover have "strncpy_loop n (s + 1) (t + 1) ?m s = m t"
      using strncpy_loop_frame [OF far, of "t + 1" ?m] by simp
    ultimately show ?thesis using False by (simp add: bytes_Suc cstr_Suc)
  qed
qed

lemma safestrcpy_loop_frame: "n < unat (a - s) \<Longrightarrow> safestrcpy_loop n s t m a = m a"
proof (induction n arbitrary: s t m)
  case 0
  then show ?case by auto
next
  case (Suc n)
  then have ne: "a \<noteq> s" by auto
  with Suc.prems have "n < unat (a - (s + 1))" by (simp add: unat_diff_Suc)
  moreover from this have "a \<noteq> s + 1" by auto
  ultimately show ?case using Suc.IH ne by simp
qed

lemma safestrcpy_loop_cstr:
  "apart s t (Suc n) \<Longrightarrow> cstr (safestrcpy_loop n s t m) s (Suc n) = cstr m t n"
proof (induction n arbitrary: s t m)
  case 0
  then show ?case by (simp add: cstr_def bytes_Suc)
next
  case (Suc n)
  let ?m = "m(s := m t)"
  have n: "Suc n < 2 ^ 64"
    using Suc.prems unsigned_less [of "s - t", where ?'a = nat] by (simp add: apart_def)
  have far: "n < unat (s - (s + 1))" using n by (simp add: unsigned_minus_1_eq_mask mask_eq_exp_minus_1)
  show ?case
  proof (cases "m t = 0")
    case True
    then show ?thesis by (simp add: cstr_Suc)
  next
    case False
    have "cstr ?m (t + 1) n = cstr m (t + 1) n"
      using apart_bytes_upd [of s t n m "m t"] Suc.prems by (simp add: apart_def cstr_def)
    moreover have "cstr (safestrcpy_loop n (s + 1) (t + 1) ?m) (s + 1) (Suc n) = cstr ?m (t + 1) n"
      by (rule Suc.IH [OF apart_step [OF Suc.prems]])
    moreover have "safestrcpy_loop n (s + 1) (t + 1) ?m s = m t"
      using safestrcpy_loop_frame [OF far, of "t + 1" ?m] by simp
    ultimately show ?thesis using False by (simp add: cstr_Suc [of _ s "Suc n"] cstr_Suc [of m t n])
  qed
qed

text \<open>
  C27: \<open>strncpy\<close> into a separate buffer stores the source string, cut to \<open>n\<close> bytes, padded
  with zero bytes to \<open>n\<close>, and writes no other byte.
\<close>

theorem strncpy_correct:
  assumes "apart s t (nat n)"
  shows "bytes (strncpy s t n m) s (nat n) =
      cstr m t (nat n) @ replicate (nat n - length (cstr m t (nat n))) 0 \<and>
    (\<forall>a. nat n \<le> unat (a - s) \<longrightarrow> strncpy s t n m a = m a)"
  using strncpy_loop_bytes [OF assms, of m] strncpy_loop_frame
  by (auto simp: strncpy_def)

theorem strncpy_correct_witness:
  "bytes (strncpy 100 200 4 ((\<lambda>_. 7)(200 := 97, 201 := 0))) 100 4 = [97, 0, 0, 0]"
  using strncpy_correct [of 100 200 4 "(\<lambda>_. 7)(200 := 97, 201 := 0)"]
  by (simp add: apart_def cstr_def bytes_def upt_rec numeral_3_eq_3)

text \<open>
  C28: \<open>safestrcpy\<close> with a positive size leaves a zero-terminated string in the \<open>n\<close>-byte
  buffer: the source string cut to \<open>n - 1\<close> bytes; no byte beyond the buffer changes.
\<close>

theorem safestrcpy_correct:
  assumes "0 < n" and "apart s t (nat n)"
  shows "cstr (safestrcpy s t n m) s (nat n) = cstr m t (nat n - 1) \<and>
    0 \<in> set (bytes (safestrcpy s t n m) s (nat n)) \<and>
    (\<forall>a. nat n \<le> unat (a - s) \<longrightarrow> safestrcpy s t n m a = m a)"
proof -
  obtain k where k: "nat n = Suc k" using assms(1) by (metis gr0_implies_Suc zero_less_nat_eq)
  have eq: "safestrcpy s t n m = safestrcpy_loop k s t m"
    using assms(1) k by (simp add: safestrcpy_def)
  have c: "cstr (safestrcpy s t n m) s (nat n) = cstr m t (nat n - 1)"
    using safestrcpy_loop_cstr [of s t k m] assms(2) k eq by simp
  have "length (cstr m t k) \<le> k"
    using length_takeWhile_le [of "\<lambda>c. c \<noteq> 0" "bytes m t k"] by (simp add: cstr_def)
  then have "length (cstr (safestrcpy s t n m) s (nat n)) \<noteq> nat n"
    unfolding c by (simp add: k)
  then have "takeWhile (\<lambda>c. c \<noteq> 0) (bytes (safestrcpy s t n m) s (nat n)) \<noteq>
      bytes (safestrcpy s t n m) s (nat n)"
    unfolding cstr_def by (metis length_bytes)
  then have "0 \<in> set (bytes (safestrcpy s t n m) s (nat n))"
    by (auto simp: takeWhile_eq_all_conv)
  with c show ?thesis
    using safestrcpy_loop_frame [of k] k eq by auto
qed

theorem safestrcpy_correct_witness:
  "cstr (safestrcpy 100 200 3 (\<lambda>_. 7)) 100 3 = [7, 7]"
  using safestrcpy_correct [of 3 100 200 "\<lambda>_. 7"]
  by (simp add: apart_def cstr_def bytes_def upt_rec)

lemma strlen_from_found:
  "m (s + of_nat (n + k)) = 0 \<Longrightarrow> (\<And>i. i < k \<Longrightarrow> m (s + of_nat (n + i)) \<noteq> 0) \<Longrightarrow>
     strlen_from n s m = Some (n + k)"
proof (induction k arbitrary: n)
  case 0
  then show ?case by (subst strlen_from.simps) simp
next
  case (Suc k)
  have "m (s + of_nat n) \<noteq> 0" using Suc.prems(2) [of 0] by simp
  moreover have "strlen_from (Suc n) s m = Some (Suc n + k)"
    by (rule Suc.IH) (use Suc.prems(1) Suc.prems(2) [of "Suc _"] in auto)
  ultimately show ?case by (subst strlen_from.simps) simp
qed



section \<open>64-bit loads and stores\<close>

text \<open>\<open>*(uint64*)a\<close> as a value and as the target of an assignment.\<close>

primrec rd_le :: "nat \<Rightarrow> uint64 \<Rightarrow> memory \<Rightarrow> uint64" where
  "rd_le 0 a m = 0"
| "rd_le (Suc n) a m = ucast (m a) OR push_bit 8 (rd_le n (a + 1) m)"

primrec wr_le :: "nat \<Rightarrow> uint64 \<Rightarrow> uint64 \<Rightarrow> memory \<Rightarrow> memory" where
  "wr_le 0 a v m = m"
| "wr_le (Suc n) a v m = wr_le n (a + 1) (drop_bit 8 v) (m(a := ucast v))"

definition rd64 :: "memory \<Rightarrow> uint64 \<Rightarrow> uint64" where
  "rd64 m a = rd_le 8 a m"

definition wr64 :: "memory \<Rightarrow> uint64 \<Rightarrow> uint64 \<Rightarrow> memory" where
  "wr64 m a v = wr_le 8 a v m"

lemma wr_le_frame: "n \<le> unat (b - a) \<Longrightarrow> wr_le n a v m b = m b"
proof (induction n arbitrary: a v m)
  case 0
  then show ?case by simp
next
  case (Suc n)
  then have ne: "b \<noteq> a" by auto
  with Suc.prems have "n \<le> unat (b - (a + 1))" by (simp add: unat_diff_Suc)
  with ne show ?case using Suc.IH by simp
qed

lemma rd_le_cong: "(\<And>i. i < n \<Longrightarrow> m (a + of_nat i) = m' (a + of_nat i)) \<Longrightarrow> rd_le n a m = rd_le n a m'"
proof (induction n arbitrary: a)
  case 0
  then show ?case by simp
next
  case (Suc n)
  have "rd_le n (a + 1) m = rd_le n (a + 1) m'"
    by (rule Suc.IH) (use Suc.prems [of "Suc _"] in \<open>simp add: algebra_simps\<close>)
  then show ?case using Suc.prems [of 0] by simp
qed

lemma rd_wr_le_same: "n \<le> 8 \<Longrightarrow> rd_le n a (wr_le n a v m) = take_bit (8 * n) v"
proof (induction n arbitrary: a v m)
  case 0
  then show ?case by simp
next
  case (Suc n)
  have "n \<le> unat (a - (a + 1))"
    using Suc.prems by (simp add: unsigned_minus_1_eq_mask mask_eq_exp_minus_1)
  then have "wr_le n (a + 1) (drop_bit 8 v) (m(a := ucast v)) a = ucast v"
    by (simp add: wr_le_frame)
  moreover have "rd_le n (a + 1) (wr_le n (a + 1) (drop_bit 8 v) (m(a := ucast v))) =
      take_bit (8 * n) (drop_bit 8 v)"
    using Suc by simp
  moreover have "ucast (ucast v :: uchar) OR push_bit 8 (take_bit (8 * n) (drop_bit 8 v)) =
      take_bit (8 * Suc n) v"
    by (rule bit_word_eqI) (auto simp: bit_simps)
  ultimately show ?case by simp
qed

lemma rd64_wr64_same [simp]: "rd64 (wr64 m a v) a = v"
proof -
  have "rd_le 8 a (wr_le 8 a v m) = take_bit (8 * 8) v" by (rule rd_wr_le_same) simp
  then show ?thesis unfolding rd64_def wr64_def by (simp add: take_bit_word_eq_self)
qed

lemma rd64_wr64_other:
  assumes "8 \<le> unat (a - b)" and "8 \<le> unat (b - a)"
  shows "rd64 (wr64 m a v) b = rd64 m b"
proof -
  have "wr_le 8 a v m (b + of_nat i) = m (b + of_nat i)" if "i < 8" for i
  proof (rule wr_le_frame)
    have i: "unat (of_nat i :: uint64) = i" using that by (simp add: unat_of_nat)
    have "b - a \<noteq> 0" using assms by auto
    then have "unat (a - b) = 2 ^ 64 - unat (b - a)"
      using unat_sub_if' [of 0 "b - a"] by (simp add: word_gt_0 unat_gt_0)
    then have "unat (b - a) + i < 2 ^ 64" using assms that by simp
    then have "unat ((b - a) + of_nat i) = unat (b - a) + i"
      using i by (simp add: unat_plus_if')
    then show "8 \<le> unat (b + of_nat i - a)"
      using assms by (simp add: algebra_simps)
  qed
  then show ?thesis unfolding rd64_def wr64_def by (rule rd_le_cong)
qed

end
