(* ===== verification/Kalloc.thy ===== *)
theory Kalloc
  imports KString
begin

text \<open>
  The physical page allocator of \<^verbatim>\<open>kernel/kalloc.c\<close>: a list of free pages linked through
  the first eight bytes of each page. The linker symbol \<^verbatim>\<open>end\<close> is the read-only field
  \<open>kend\<close>. Each operation holds \<^verbatim>\<open>kmem.lock\<close> around its accesses to the list.
\<close>

section \<open>The allocator\<close>

record kmem =
  mem :: memory
  freelist :: uint64
  kend :: uint64

definition kfree :: "uint64 \<Rightarrow> ('a kmem_scheme, unit) kop" where
  "kfree pa =
     kbind (kget kend) (\<lambda>e.
     kthen (kwhen (pa mod PGSIZE \<noteq> 0 \<or> pa < e \<or> pa \<ge> PHYSTOP) (kpanic ''kfree''))
     (kthen (kmod (\<lambda>s. s\<lparr>mem := memset pa 1 4096 (mem s)\<rparr>))
     (kthen (kmod (\<lambda>s. s\<lparr>mem := wr64 (mem s) pa (freelist s)\<rparr>))
            (kmod (\<lambda>s. s\<lparr>freelist := pa\<rparr>)))))"

definition kalloc :: "('a kmem_scheme, uint64) kop" where
  "kalloc =
     kbind (kget freelist) (\<lambda>r.
     kthen (kwhen (r \<noteq> 0) (kmod (\<lambda>s. s\<lparr>freelist := rd64 (mem s) r\<rparr>)))
     (kthen (kwhen (r \<noteq> 0) (kmod (\<lambda>s. s\<lparr>mem := memset r 5 4096 (mem s)\<rparr>)))
            (kret r)))"

text \<open>
  The values of the loop variable of \<open>freerange\<close>. The second guard only excludes a range
  that wraps around the end of the address space.
\<close>

function pages_between :: "uint64 \<Rightarrow> uint64 \<Rightarrow> uint64 list" where
  "pages_between p pa_end =
     (if p + PGSIZE \<le> pa_end \<and> p < p + PGSIZE then p # pages_between (p + PGSIZE) pa_end else [])"
  by pat_completeness auto
termination
proof (relation "measure (\<lambda>(p, e). unat e - unat p)", goal_cases)
  case (2 p e)
  then show ?case by (auto simp: word_le_nat_alt word_less_nat_alt)
qed simp

declare pages_between.simps [simp del]

definition freerange :: "uint64 \<Rightarrow> uint64 \<Rightarrow> ('a kmem_scheme, unit) kop" where
  "freerange pa_start pa_end = kfor (pages_between (PGROUNDUP pa_start) pa_end) kfree"

definition kinit :: "('a kmem_scheme, unit) kop" where
  "kinit = kbind (kget kend) (\<lambda>e. freerange e PHYSTOP)"

section \<open>The free list\<close>

text \<open>The chain of \<open>next\<close> pointers from \<open>p\<close> visits exactly the pages \<open>ps\<close> and ends in 0.\<close>

primrec chain :: "memory \<Rightarrow> uint64 \<Rightarrow> uint64 list \<Rightarrow> bool" where
  "chain m p [] \<longleftrightarrow> p = 0"
| "chain m p (q # qs) \<longleftrightarrow> p = q \<and> chain m (rd64 m q) qs"

definition vpage :: "uint64 \<Rightarrow> uint64 \<Rightarrow> bool" where
  "vpage e q \<longleftrightarrow> pg_aligned q \<and> e \<le> q \<and> q < PHYSTOP"

definition free_pages :: "'a kmem_scheme \<Rightarrow> uint64 list \<Rightarrow> bool" where
  "free_pages s ps \<longleftrightarrow> 0 < kend s \<and> chain (mem s) (freelist s) ps \<and> distinct ps \<and>
     list_all (vpage (kend s)) ps"

text \<open>An address of the page at \<open>p\<close>.\<close>

definition in_page :: "uint64 \<Rightarrow> uint64 \<Rightarrow> bool" where
  "in_page p a \<longleftrightarrow> unat (a - p) < 4096"

lemma vpage_nonzero: "0 < e \<Longrightarrow> vpage e q \<Longrightarrow> q \<noteq> 0"
  by (auto simp: vpage_def)

lemma free_pages_empty: "free_pages s ps \<Longrightarrow> freelist s = 0 \<longleftrightarrow> ps = []"
  by (cases ps) (auto simp: free_pages_def dest: vpage_nonzero)

text \<open>Distinct pages do not overlap.\<close>

lemma pages_apart:
  assumes "pg_aligned p" and "pg_aligned q" and "p \<noteq> q"
  shows "4096 \<le> unat (p - q)"
proof -
  obtain i j where ij: "unat p = 4096 * i" "unat q = 4096 * j"
    using assms by (auto simp: pg_aligned_iff elim!: dvdE)
  with assms(3) have "i \<noteq> j" by (auto simp: word_unat_eq_iff)
  moreover have "4096 * i < 2 ^ 64" "4096 * j < 2 ^ 64"
    using unsigned_less [of p, where ?'a = nat] unsigned_less [of q, where ?'a = nat] ij by auto
  ultimately show ?thesis
    unfolding unat_sub_if' ij by (cases "j \<le> i") auto
qed

lemma rd64_other_page:
  assumes "pg_aligned p" and "pg_aligned q" and "p \<noteq> q" and "\<And>a. \<not> in_page p a \<Longrightarrow> m' a = m a"
  shows "rd64 m' q = rd64 m q"
  unfolding rd64_def
proof (rule rd_le_cong)
  fix i :: nat assume i: "i < 8"
  have "4096 \<le> unat (q - p)" "4096 \<le> unat (p - q)"
    using pages_apart assms(1-3) by auto
  moreover have "unat (p - q) = 2 ^ 64 - unat (q - p)"
    using assms(3) unat_sub_if' [of 0 "q - p"] by (auto simp: word_gt_0 unat_gt_0)
  ultimately have "unat (q - p) + i < 2 ^ 64" using i by simp
  then have "unat (q - p + of_nat i) = unat (q - p) + i"
    using i by (simp add: unat_plus_if' unat_of_nat)
  then have "\<not> in_page p (q + of_nat i)"
    using \<open>4096 \<le> unat (q - p)\<close> by (simp add: in_page_def algebra_simps)
  then show "m' (q + of_nat i) = m (q + of_nat i)" by (rule assms(4))
qed

lemma chain_other_page:
  assumes "\<And>a. \<not> in_page p a \<Longrightarrow> m' a = m a" and "pg_aligned p"
  shows "p \<notin> set qs \<Longrightarrow> list_all pg_aligned qs \<Longrightarrow> chain m' x qs = chain m x qs"
proof (induction qs arbitrary: x)
  case Nil
  then show ?case by simp
next
  case (Cons q qs)
  then have "rd64 m' q = rd64 m q"
    using rd64_other_page [OF assms(2) _ _ assms(1)] by auto
  with Cons show ?case by simp
qed

lemma memset_page: "\<not> in_page p a \<Longrightarrow> memset p c 4096 m a = m a"
  by (simp add: memset_apply in_page_def)

lemma memset_page_in: "in_page p a \<Longrightarrow> memset p c 4096 m a = word_of_int c"
  by (simp add: memset_apply in_page_def)

lemma wr64_page: "\<not> in_page p a \<Longrightarrow> wr64 m p v a = m a"
  by (simp add: wr64_def wr_le_frame in_page_def)

lemma rd_le_zero [simp]: "rd_le n a (\<lambda>_. 0) = 0"
  by (induction n arbitrary: a) simp_all

lemma vpage_all_aligned: "list_all (vpage e) ps \<Longrightarrow> list_all pg_aligned ps"
  by (auto simp: list_all_iff vpage_def)

section \<open>What the operations do to it\<close>

lemma kalloc_none: "free_pages s [] \<Longrightarrow> kalloc s = Ok (0, s)"
  by (simp add: kalloc_def kop_defs free_pages_def)

lemma kalloc_some:
  assumes "free_pages s (p # ps)"
  obtains t where "kalloc s = Ok (p, t)" and "free_pages t ps"
    and "\<And>a. mem t a = (if in_page p a then 5 else mem s a)"
    and "kend t = kend s" and "kmem.more t = kmem.more s"
proof
  let ?t = "s\<lparr>freelist := rd64 (mem s) p, mem := memset p 5 4096 (mem s)\<rparr>"
  have p: "p \<noteq> 0" "freelist s = p" "pg_aligned p" "list_all pg_aligned ps" "p \<notin> set ps"
    using assms vpage_nonzero [of "kend s" p] vpage_all_aligned [of "kend s" ps]
    by (auto simp: free_pages_def vpage_def)
  show "kalloc s = Ok (p, ?t)" using p by (simp add: kalloc_def kop_defs)
  have "chain (memset p 5 4096 (mem s)) x ps = chain (mem s) x ps" for x
    by (rule chain_other_page [OF memset_page p(3,5,4)])
  then show "free_pages ?t ps" using assms by (auto simp: free_pages_def)
  show "mem ?t a = (if in_page p a then 5 else mem s a)" for a
    by (simp add: memset_apply in_page_def)
  show "kend ?t = kend s" "kmem.more ?t = kmem.more s" by simp_all
qed

lemma kfree_ok:
  assumes "free_pages s ps" and "vpage (kend s) p" and "p \<notin> set ps"
  obtains t where "kfree p s = Ok ((), t)" and "free_pages t (p # ps)"
    and "\<And>a. \<not> in_page p a \<Longrightarrow> mem t a = mem s a" and "kend t = kend s"
    and "kmem.more t = kmem.more s"
proof
  let ?m = "wr64 (memset p 1 4096 (mem s)) p (freelist s)"
  let ?t = "s\<lparr>mem := ?m, freelist := p\<rparr>"
  have p: "pg_aligned p" "list_all pg_aligned ps"
    using assms vpage_all_aligned [of "kend s" ps] by (auto simp: free_pages_def vpage_def)
  have "p mod PGSIZE = 0 \<and> \<not> p < kend s \<and> \<not> p \<ge> PHYSTOP"
    using assms(2) by (auto simp: vpage_def pg_aligned_def)
  then show "kfree p s = Ok ((), ?t)" by (simp add: kfree_def kop_defs)
  have frame: "?m a = mem s a" if "\<not> in_page p a" for a
    using that by (simp add: wr64_page memset_page)
  have "chain ?m (freelist s) ps = chain (mem s) (freelist s) ps"
    by (rule chain_other_page [OF frame p(1) assms(3) p(2)])
  then show "free_pages ?t (p # ps)"
    using assms by (simp add: free_pages_def)
  show "mem ?t a = mem s a" if "\<not> in_page p a" for a
    using that frame by simp
  show "kend ?t = kend s" "kmem.more ?t = kmem.more s" by simp_all
qed

section \<open>The contract of a page allocator\<close>

text \<open>
  What the callers of \<open>kalloc\<close> and \<open>kfree\<close> rely on: the allocator owns a set of distinct
  pages, hands one out exactly when it has one, takes back any valid page it does not own,
  and touches the bytes of no other page.
\<close>

locale page_allocator =
  fixes alloc :: "('s, uint64) kop"
    and free :: "uint64 \<Rightarrow> ('s, unit) kop"
    and owned :: "'s \<Rightarrow> uint64 list \<Rightarrow> bool"
    and valid :: "'s \<Rightarrow> uint64 \<Rightarrow> bool"
    and ram :: "'s \<Rightarrow> memory"
  assumes owned_distinct: "owned s ps \<Longrightarrow> distinct ps \<and> 0 \<notin> set ps"
    and owned_valid: "owned s ps \<Longrightarrow> p \<in> set ps \<Longrightarrow> valid s p"
    and alloc_none: "owned s [] \<Longrightarrow> alloc s = Ok (0, s)"
    and alloc_some: "owned s (p # ps) \<Longrightarrow>
      wp alloc (\<lambda>r t. r = p \<and> owned t ps \<and> valid t = valid s \<and>
        (\<forall>a. \<not> in_page p a \<longrightarrow> ram t a = ram s a)) s"
    and free_page: "owned s ps \<Longrightarrow> valid s p \<Longrightarrow> p \<notin> set ps \<Longrightarrow>
      wp (free p) (\<lambda>_ t. owned t (p # ps) \<and> valid t = valid s \<and>
        (\<forall>a. \<not> in_page p a \<longrightarrow> ram t a = ram s a)) s"
begin

lemma free_all:
  "owned s ps \<Longrightarrow> \<forall>q \<in> set qs. valid s q \<Longrightarrow> distinct qs \<Longrightarrow> set qs \<inter> set ps = {} \<Longrightarrow>
     wp (kfor qs free) (\<lambda>_ t. owned t (rev qs @ ps) \<and> valid t = valid s) s"
proof (induction qs arbitrary: s ps)
  case Nil
  then show ?case by (simp add: wp_ret)
next
  case (Cons q qs)
  have "wp (free q) (\<lambda>_ t. owned t (q # ps) \<and> valid t = valid s \<and>
        (\<forall>a. \<not> in_page q a \<longrightarrow> ram t a = ram s a)) s"
    using Cons.prems by (intro free_page) auto
  then have "wp (free q) (\<lambda>_. wp (kfor qs free)
      (\<lambda>_ t. owned t (rev (q # qs) @ ps) \<and> valid t = valid s)) s"
  proof (rule wp_mono)
    fix x t assume "owned t (q # ps) \<and> valid t = valid s \<and> (\<forall>a. \<not> in_page q a \<longrightarrow> ram t a = ram s a)"
    then show "wp (kfor qs free) (\<lambda>_ t. owned t (rev (q # qs) @ ps) \<and> valid t = valid s) t"
      using Cons.IH [of t "q # ps"] Cons.prems by auto
  qed
  then show ?case by (simp add: wp_then)
qed

lemma free_then_alloc:
  assumes "owned s ps" and "valid s p" and "p \<notin> set ps"
  shows "wp (kthen (free p) alloc) (\<lambda>r t. r = p \<and> owned t ps) s"
  using free_page [OF assms] unfolding wp_then
  by (rule wp_mono) (auto dest!: alloc_some elim!: wp_mono)

end

interpretation ka: page_allocator kalloc kfree free_pages "\<lambda>s. vpage (kend s)" mem
proof
  fix s :: "'a kmem_scheme" and p ps
  show "distinct ps \<and> 0 \<notin> set ps" if "free_pages s ps"
    using that vpage_nonzero [of "kend s" 0] by (auto simp: free_pages_def list_all_iff)
  show "vpage (kend s) p" if "free_pages s ps" and "p \<in> set ps"
    using that by (auto simp: free_pages_def list_all_iff)
  show "kalloc s = Ok (0, s)" if "free_pages s []"
    using that by (rule kalloc_none)
  show "wp kalloc (\<lambda>r t. r = p \<and> free_pages t ps \<and> vpage (kend t) = vpage (kend s) \<and>
        (\<forall>a. \<not> in_page p a \<longrightarrow> mem t a = mem s a)) s" if "free_pages s (p # ps)"
    using that by (rule kalloc_some) (auto intro: wpI)
  show "wp (kfree p) (\<lambda>_ t. free_pages t (p # ps) \<and> vpage (kend t) = vpage (kend s) \<and>
        (\<forall>a. \<not> in_page p a \<longrightarrow> mem t a = mem s a)) s"
    if "free_pages s ps" and "vpage (kend s) p" and "p \<notin> set ps"
    using that by (rule kfree_ok) (auto intro: wpI)
qed

section \<open>Initialisation\<close>

lemma pages_between_nth:
  "i < length (pages_between p e) \<Longrightarrow> pages_between p e ! i = p + of_nat i * PGSIZE"
proof (induction p e arbitrary: i rule: pages_between.induct)
  case (1 p e)
  then show ?case
    by (cases i) (auto simp: pages_between.simps [of p e] algebra_simps split: if_splits)
qed

lemma unat_plus_PGSIZE: "p < p + PGSIZE \<Longrightarrow> unat (p + PGSIZE) = unat p + 4096"
  by (auto simp: word_less_nat_alt PGSIZE_def unat_plus_if' split: if_splits)

lemma no_wrap_PGSIZE: "unat p + 4096 < 2 ^ 64 \<Longrightarrow> p < p + PGSIZE"
  by (simp add: word_less_nat_alt PGSIZE_def unat_plus_if')

lemma pg_aligned_plus: "pg_aligned p \<Longrightarrow> p < p + PGSIZE \<Longrightarrow> pg_aligned (p + PGSIZE)"
  by (simp add: pg_aligned_iff unat_plus_PGSIZE)

lemma aligned_next:
  "pg_aligned p \<Longrightarrow> pg_aligned q \<Longrightarrow> p \<le> q \<Longrightarrow> p \<noteq> q \<Longrightarrow> unat p + 4096 \<le> unat q"
  using pages_apart [of q p] by (simp add: unat_sub word_le_nat_alt)

lemma pages_between_iff:
  "pg_aligned p \<Longrightarrow> q \<in> set (pages_between p e) \<longleftrightarrow>
     pg_aligned q \<and> p \<le> q \<and> unat q + 4096 \<le> unat e"
proof (induction p e rule: pages_between.induct)
  case (1 p e)
  show ?case
  proof (cases "p + PGSIZE \<le> e \<and> p < p + PGSIZE")
    case True
    then have u: "unat (p + PGSIZE) = unat p + 4096" by (simp add: unat_plus_PGSIZE)
    have "q \<in> set (pages_between p e) \<longleftrightarrow>
        q = p \<or> pg_aligned q \<and> p + PGSIZE \<le> q \<and> unat q + 4096 \<le> unat e"
      using 1 True pg_aligned_plus [of p] by (simp add: pages_between.simps [of p e])
    then show ?thesis
      using True u 1(2) aligned_next [of p q] by (auto simp: word_le_nat_alt)
  next
    case False
    have "\<not> (p \<le> q \<and> unat q + 4096 \<le> unat e)"
    proof
      assume q: "p \<le> q \<and> unat q + 4096 \<le> unat e"
      then have le: "unat p + 4096 \<le> unat e" by (simp add: word_le_nat_alt)
      then have "unat p + 4096 < 2 ^ 64" using unsigned_less [of e, where ?'a = nat] by simp
      then show False
        using False le no_wrap_PGSIZE [of p] by (simp add: word_le_nat_alt unat_plus_PGSIZE)
    qed
    with False show ?thesis by (auto simp: pages_between.simps [of p e])
  qed
qed

lemma pages_between_distinct: "pg_aligned p \<Longrightarrow> distinct (pages_between p e)"
proof (induction p e rule: pages_between.induct)
  case (1 p e)
  then show ?case
    by (auto simp: pages_between.simps [of p e] pages_between_iff pg_aligned_plus)
qed

lemma pages_between_vpage:
  assumes "e \<le> PHYSTOP" and "q \<in> set (pages_between (PGROUNDUP e) PHYSTOP)"
  shows "vpage e q"
proof -
  have q: "pg_aligned q" "PGROUNDUP e \<le> q" "unat q + 4096 \<le> unat PHYSTOP"
    using assms(2) by (simp_all add: pages_between_iff)
  have "unat e \<le> unat PHYSTOP" using assms(1) by (simp add: word_le_nat_alt)
  then have "unat e + 4095 < 2 ^ 64" by (simp add: PHYSTOP_def KERNBASE_def)
  then have "unat e \<le> unat (PGROUNDUP e)" by (simp add: unat_PGROUNDUP)
  with q show ?thesis by (auto simp: vpage_def word_le_nat_alt word_less_nat_alt)
qed

text \<open>
  C18: \<open>kinit\<close> puts every whole page between the end of the kernel and \<open>PHYSTOP\<close> on the
  free list, each exactly once, and nothing else.
\<close>

theorem kinit_frees_all:
  assumes "freelist s = 0" and "0 < kend s" and "kend s \<le> PHYSTOP"
  shows "\<exists>t ps. kinit s = Ok ((), t) \<and> free_pages t ps \<and>
    (\<forall>q. q \<in> set ps \<longleftrightarrow> pg_aligned q \<and> PGROUNDUP (kend s) \<le> q \<and> unat q + 4096 \<le> unat PHYSTOP)"
proof -
  let ?qs = "pages_between (PGROUNDUP (kend s)) PHYSTOP"
  have "free_pages s []" using assms by (simp add: free_pages_def)
  then have "wp (kfor ?qs kfree) (\<lambda>_ t. free_pages t (rev ?qs @ []) \<and>
      vpage (kend t) = vpage (kend s)) s"
    using assms(3) by (intro ka.free_all) (auto simp: pages_between_vpage pages_between_distinct)
  then obtain t where t: "kfor ?qs kfree s = Ok ((), t)" "free_pages t (rev ?qs)"
    by (auto dest: wpD)
  then have "kinit s = Ok ((), t)" by (simp add: kinit_def freerange_def kop_defs)
  with t(2) show ?thesis by (intro exI [of _ t] exI [of _ "rev ?qs"]) (simp add: pages_between_iff)
qed

theorem kinit_frees_all_witness:
  "\<exists>t ps. kinit \<lparr>mem = (\<lambda>_. 0), freelist = 0, kend = 0x80021E40\<rparr> = Ok ((), t) \<and>
     free_pages t ps \<and> 0x80022000 \<in> set ps \<and> 0x87FFF000 \<in> set ps \<and> 0x80021000 \<notin> set ps"
  using kinit_frees_all [of "\<lparr>mem = (\<lambda>_. 0), freelist = 0, kend = 0x80021E40\<rparr>"]
  by (fastforce simp: PHYSTOP_def KERNBASE_def pg_aligned_def PGSIZE_def PGROUNDUP_def)

text \<open>
  C19: with the free list \<open>ps\<close>, \<open>kalloc\<close> fails (returning 0 and changing nothing) only when
  no page is free; otherwise it returns a page of the free list, filled with junk, which is
  no longer on the list, and every byte outside that page is unchanged.
\<close>

theorem kalloc_correct:
  assumes "free_pages s ps"
  shows "\<exists>p t. kalloc s = Ok (p, t) \<and>
    (if ps = [] then p = 0 \<and> t = s
     else p \<in> set ps \<and> p \<noteq> 0 \<and> pg_aligned p \<and> free_pages t (remove1 p ps) \<and>
       (\<forall>a. mem t a = (if in_page p a then 5 else mem s a)))"
proof (cases ps)
  case Nil
  then show ?thesis using kalloc_none [of s] assms by simp
next
  case (Cons p qs)
  obtain t where "kalloc s = Ok (p, t)" and "free_pages t qs"
    and "\<And>a. mem t a = (if in_page p a then 5 else mem s a)"
    using kalloc_some [of s p qs] assms Cons by auto
  moreover have "p \<noteq> 0" "pg_aligned p"
    using ka.owned_valid [OF assms] ka.owned_distinct [OF assms] Cons by (auto simp: vpage_def)
  ultimately show ?thesis using Cons by (intro exI [of _ p] exI [of _ t]) simp
qed

theorem kalloc_correct_witness:
  "let s = \<lparr>mem = (\<lambda>_. 0), freelist = 0x80022000, kend = 0x80021E40\<rparr> in
   free_pages s [0x80022000] \<and> (\<exists>t. kalloc s = Ok (0x80022000, t) \<and> free_pages t [])"
proof -
  let ?s = "\<lparr>mem = (\<lambda>_. 0), freelist = 0x80022000, kend = 0x80021E40\<rparr>"
  have "free_pages ?s [0x80022000]"
    by (simp add: free_pages_def rd64_def rd_le_zero vpage_def pg_aligned_def PGSIZE_def
        PHYSTOP_def KERNBASE_def)
  with kalloc_correct [OF this] show ?thesis by (auto simp: Let_def)
qed

text \<open>
  C20: freeing a valid page that is not already free succeeds, puts it on the free list in
  front of the others and changes no byte outside it; a misaligned page, or one outside the
  range the allocator manages, is refused with a panic; and the next \<open>kalloc\<close> returns the
  page freed last.
\<close>

theorem kfree_correct:
  assumes "free_pages s ps" and "p \<notin> set ps"
  shows "if vpage (kend s) p
    then (\<exists>t. kfree p s = Ok ((), t) \<and> free_pages t (p # ps) \<and>
           (\<forall>a. \<not> in_page p a \<longrightarrow> mem t a = mem s a)) \<and>
         (\<exists>u. kthen (kfree p) kalloc s = Ok (p, u) \<and> free_pages u ps)
    else kfree p s = Panic ''kfree''"
proof (cases "vpage (kend s) p")
  case True
  have "\<exists>t. kfree p s = Ok ((), t) \<and> free_pages t (p # ps) \<and>
      (\<forall>a. \<not> in_page p a \<longrightarrow> mem t a = mem s a)"
    by (rule kfree_ok [OF assms(1) True assms(2)]) blast
  with True show ?thesis
    using wpD [OF ka.free_then_alloc [OF assms(1) True assms(2)]] by auto
next
  case False
  then show ?thesis
    by (auto simp: vpage_def pg_aligned_def kfree_def kop_defs not_le not_less)
qed

theorem kfree_correct_witness:
  "let s = \<lparr>mem = (\<lambda>_. 0), freelist = 0, kend = 0x80021E40\<rparr> in
   (\<exists>t. kfree 0x80022000 s = Ok ((), t) \<and> free_pages t [0x80022000]) \<and>
   kfree 0x80022008 s = Panic ''kfree'' \<and> kfree 0x80021000 s = Panic ''kfree''"
proof -
  let ?s = "\<lparr>mem = (\<lambda>_. 0), freelist = 0, kend = 0x80021E40\<rparr>"
  have "free_pages ?s []" by (simp add: free_pages_def)
  then show ?thesis
    using kfree_correct [of ?s "[]" "0x80022000"] kfree_correct [of ?s "[]" "0x80022008"]
      kfree_correct [of ?s "[]" "0x80021000"]
    by (simp add: Let_def vpage_def pg_aligned_def PGSIZE_def PHYSTOP_def KERNBASE_def) blast
qed

end
