(* ===== verification/Vm.thy ===== *)
theory Vm
  imports Kalloc
begin

text \<open>
  The virtual memory code of \<^verbatim>\<open>kernel/vm.c\<close>, on page tables that live in the physical memory
  \<open>mem\<close>; the kernel's own accesses are direct-mapped. Buffers of the kernel that are not
  pages (the \<^verbatim>\<open>dst\<close> of \<open>copyin\<close>, the \<^verbatim>\<open>src\<close> of \<open>copyout\<close>) are byte lists: \<open>copyin\<close> returns
  with its status the bytes it has stored, also when it fails half way. The linker symbols
  \<^verbatim>\<open>etext\<close> and \<^verbatim>\<open>trampoline\<close> are arguments of \<open>kvmmake\<close>.
\<close>

record vmst = kmem +
  kernel_pagetable :: uint64
  satp :: uint64

section \<open>Memory accesses\<close>

definition ld64 :: "uint64 \<Rightarrow> ('a kmem_scheme, uint64) kop" where
  "ld64 a = kget (\<lambda>s. rd64 (mem s) a)"

definition st64 :: "uint64 \<Rightarrow> uint64 \<Rightarrow> ('a kmem_scheme, unit) kop" where
  "st64 a v = kmod (\<lambda>s. s\<lparr>mem := wr64 (mem s) a v\<rparr>)"

definition mset :: "uint64 \<Rightarrow> int \<Rightarrow> uint32 \<Rightarrow> ('a kmem_scheme, unit) kop" where
  "mset dst c n = kmod (\<lambda>s. s\<lparr>mem := memset dst c n (mem s)\<rparr>)"

definition mmove :: "uint64 \<Rightarrow> uint64 \<Rightarrow> uint32 \<Rightarrow> ('a kmem_scheme, unit) kop" where
  "mmove dst src n = kmod (\<lambda>s. s\<lparr>mem := memmove dst src n (mem s)\<rparr>)"

text \<open>Copying a kernel buffer into physical memory.\<close>

primrec wr_bytes :: "uint64 \<Rightarrow> uchar list \<Rightarrow> memory \<Rightarrow> memory" where
  "wr_bytes a [] m = m"
| "wr_bytes a (b # bs) m = wr_bytes (a + 1) bs (m(a := b))"

definition mstore :: "uint64 \<Rightarrow> uchar list \<Rightarrow> ('a kmem_scheme, unit) kop" where
  "mstore a bs = kmod (\<lambda>s. s\<lparr>mem := wr_bytes a bs (mem s)\<rparr>)"

section \<open>Walking a page table\<close>

text \<open>
  \<open>walk\<close> returns the address of the entry, or 0. The loop over the levels 2 and 1 is the
  recursion of \<open>walk_from\<close>; \<open>&pagetable[i]\<close> is \<open>pagetable + 8 * i\<close>.
\<close>

primrec walk_from :: "nat \<Rightarrow> uint64 \<Rightarrow> uint64 \<Rightarrow> bool \<Rightarrow> ('a kmem_scheme, uint64) kop" where
  "walk_from 0 pagetable va alloc = kret (pagetable + 8 * PX 0 va)"
| "walk_from (Suc level) pagetable va alloc =
     (let pte = pagetable + 8 * PX (Suc level) va in
      kbind (ld64 pte) (\<lambda>e.
      if e AND PTE_V \<noteq> 0 then walk_from level (PTE2PA e) va alloc
      else if \<not> alloc then kret 0
      else kbind kalloc (\<lambda>pg.
        if pg = 0 then kret 0
        else kthen (mset pg 0 4096)
            (kthen (st64 pte (PA2PTE pg OR PTE_V))
                   (walk_from level pg va alloc)))))"

definition walk :: "uint64 \<Rightarrow> uint64 \<Rightarrow> bool \<Rightarrow> ('a kmem_scheme, uint64) kop" where
  "walk pagetable va alloc =
     kthen (kwhen (va \<ge> MAXVA) (kpanic ''walk'')) (walk_from 2 pagetable va alloc)"

definition walkaddr :: "uint64 \<Rightarrow> uint64 \<Rightarrow> ('a kmem_scheme, uint64) kop" where
  "walkaddr pagetable va =
     (if va \<ge> MAXVA then kret 0
      else kbind (walk pagetable va False) (\<lambda>pte.
        if pte = 0 then kret 0
        else kbind (ld64 pte) (\<lambda>e.
          if e AND PTE_V = 0 then kret 0
          else if e AND PTE_U = 0 then kret 0
          else kret (PTE2PA e))))"

section \<open>Mapping and unmapping\<close>

text \<open>
  The loop of \<open>mappages\<close> ends because \<open>walk\<close> panics at \<open>MAXVA\<close>; the first test is the one
  \<open>walk\<close> makes.
\<close>

function mappages_loop :: "uint64 \<Rightarrow> uint64 \<Rightarrow> uint64 \<Rightarrow> uint64 \<Rightarrow> uint64 \<Rightarrow> ('a kmem_scheme, int) kop" where
  "mappages_loop pagetable a last_a pa perm =
     (if a \<ge> MAXVA then kpanic ''walk''
      else kbind (walk pagetable a True) (\<lambda>pte.
        if pte = 0 then kret (-1)
        else kbind (ld64 pte) (\<lambda>e.
          kthen (kwhen (e AND PTE_V \<noteq> 0) (kpanic ''mappages: remap''))
          (kthen (st64 pte (PA2PTE pa OR perm OR PTE_V))
          (if a = last_a then kret 0
           else mappages_loop pagetable (a + PGSIZE) last_a (pa + PGSIZE) perm)))))"
  by pat_completeness auto
termination
proof (relation "measure (\<lambda>(pt, a, e, pa, perm). unat MAXVA - unat a)", goal_cases)
  case (2 pt a e pa perm)
  then have "unat a < unat MAXVA" by (simp add: word_less_nat_alt not_le)
  moreover have "unat MAXVA = 2 ^ 38" by (simp add: MAXVA_def)
  ultimately show ?case by (simp add: PGSIZE_def unat_plus_if')
qed simp

declare mappages_loop.simps [simp del]

definition mappages :: "uint64 \<Rightarrow> uint64 \<Rightarrow> uint64 \<Rightarrow> uint64 \<Rightarrow> uint64 \<Rightarrow> ('a kmem_scheme, int) kop" where
  "mappages pagetable va sz pa perm =
     kthen (kwhen (sz = 0) (kpanic ''mappages: size''))
     (mappages_loop pagetable (PGROUNDDOWN va) (PGROUNDDOWN (va + sz - 1)) pa perm)"

definition kvmmap :: "uint64 \<Rightarrow> uint64 \<Rightarrow> uint64 \<Rightarrow> uint64 \<Rightarrow> uint64 \<Rightarrow> ('a kmem_scheme, unit) kop" where
  "kvmmap kpgtbl va pa sz perm =
     kbind (mappages kpgtbl va sz pa perm) (\<lambda>r. kwhen (r \<noteq> 0) (kpanic ''kvmmap''))"

text \<open>
  The values of a loop variable that goes from \<open>a\<close> up to \<open>e\<close> by pages. The loops that use it
  panic in \<open>walk\<close> at \<open>MAXVA\<close>, long before the addition could wrap around.
\<close>

function page_range :: "uint64 \<Rightarrow> uint64 \<Rightarrow> uint64 list" where
  "page_range a e = (if a < e \<and> a < a + PGSIZE then a # page_range (a + PGSIZE) e else if a < e then [a] else [])"
  by pat_completeness auto
termination
proof (relation "measure (\<lambda>(a, e). unat e - unat a)", goal_cases)
  case (2 a e)
  then show ?case by (auto simp: word_less_nat_alt)
qed simp

declare page_range.simps [simp del]

definition uvmunmap :: "uint64 \<Rightarrow> uint64 \<Rightarrow> uint64 \<Rightarrow> bool \<Rightarrow> ('a kmem_scheme, unit) kop" where
  "uvmunmap pagetable va npages do_free =
     kthen (kwhen (va mod PGSIZE \<noteq> 0) (kpanic ''uvmunmap: not aligned''))
     (kfor (page_range va (va + npages * PGSIZE)) (\<lambda>a.
        kbind (walk pagetable a False) (\<lambda>pte.
        kthen (kwhen (pte = 0) (kpanic ''uvmunmap: walk''))
        (kbind (ld64 pte) (\<lambda>e.
        kthen (kwhen (e AND PTE_V = 0) (kpanic ''uvmunmap: not mapped''))
        (kthen (kwhen (PTE_FLAGS e = PTE_V) (kpanic ''uvmunmap: not a leaf''))
        (kthen (kwhen do_free (kfree (PTE2PA e)))
               (st64 pte 0))))))))"

definition uvmcreate :: "('a kmem_scheme, uint64) kop" where
  "uvmcreate =
     kbind kalloc (\<lambda>pagetable.
     if pagetable = 0 then kret 0
     else kthen (mset pagetable 0 4096) (kret pagetable))"

definition uvminit :: "uint64 \<Rightarrow> uchar list \<Rightarrow> ('a kmem_scheme, unit) kop" where
  "uvminit pagetable src =
     kthen (kwhen (length src \<ge> 4096) (kpanic ''inituvm: more than a page''))
     (kbind kalloc (\<lambda>pg.
     kthen (mset pg 0 4096)
     (kthen (mappages pagetable 0 PGSIZE pg (PTE_W OR PTE_R OR PTE_X OR PTE_U))
            (mstore pg src))))"

text \<open>The number of pages is an \<^verbatim>\<open>int\<close>, converted back to 64 bits for \<open>uvmunmap\<close>.\<close>

definition uvmdealloc :: "uint64 \<Rightarrow> uint64 \<Rightarrow> uint64 \<Rightarrow> ('a kmem_scheme, uint64) kop" where
  "uvmdealloc pagetable oldsz newsz =
     (if newsz \<ge> oldsz then kret oldsz
      else kthen (kwhen (PGROUNDUP newsz < PGROUNDUP oldsz)
             (let npages = scast (ucast ((PGROUNDUP oldsz - PGROUNDUP newsz) div PGSIZE) :: uint32) in
              uvmunmap pagetable (PGROUNDUP newsz) npages True))
           (kret newsz))"

definition uvmalloc :: "uint64 \<Rightarrow> uint64 \<Rightarrow> uint64 \<Rightarrow> ('a kmem_scheme, uint64) kop" where
  "uvmalloc pagetable oldsz newsz =
     (if newsz < oldsz then kret oldsz
      else kbind (kfind (page_range (PGROUNDUP oldsz) newsz) (\<lambda>a.
             kbind kalloc (\<lambda>pg.
             if pg = 0 then kthen (uvmdealloc pagetable a (PGROUNDUP oldsz)) (kret (Some ()))
             else kthen (mset pg 0 4096)
                 (kbind (mappages pagetable a PGSIZE pg (PTE_W OR PTE_X OR PTE_R OR PTE_U)) (\<lambda>r.
                  if r \<noteq> 0 then kthen (kfree pg)
                    (kthen (uvmdealloc pagetable a (PGROUNDUP oldsz)) (kret (Some ())))
                  else kret None)))))
           (\<lambda>err. kret (case err of Some _ \<Rightarrow> 0 | None \<Rightarrow> newsz)))"

text \<open>
  \<open>freewalk\<close> recurses along the entries that are no leaves. The first argument bounds the
  depth: Sv39 has three levels, and a table with a longer chain is malformed.
\<close>

primrec freewalk_level :: "nat \<Rightarrow> uint64 \<Rightarrow> ('a kmem_scheme, unit) kop" where
  "freewalk_level 0 pagetable = kfault"
| "freewalk_level (Suc level) pagetable =
     kthen (kfor [0..<512] (\<lambda>i.
       kbind (ld64 (pagetable + 8 * of_nat i)) (\<lambda>pte.
       if pte AND PTE_V \<noteq> 0 \<and> pte AND (PTE_R OR PTE_W OR PTE_X) = 0
       then kthen (freewalk_level level (PTE2PA pte)) (st64 (pagetable + 8 * of_nat i) 0)
       else if pte AND PTE_V \<noteq> 0 then kpanic ''freewalk: leaf''
       else kret ())))
     (kfree pagetable)"

definition freewalk :: "uint64 \<Rightarrow> ('a kmem_scheme, unit) kop" where
  "freewalk pagetable = freewalk_level 3 pagetable"

definition uvmfree :: "uint64 \<Rightarrow> uint64 \<Rightarrow> ('a kmem_scheme, unit) kop" where
  "uvmfree pagetable sz =
     kthen (kwhen (sz > 0) (uvmunmap pagetable 0 (PGROUNDUP sz div PGSIZE) True))
     (freewalk pagetable)"

definition uvmcopy :: "uint64 \<Rightarrow> uint64 \<Rightarrow> uint64 \<Rightarrow> ('a kmem_scheme, int) kop" where
  "uvmcopy old new sz =
     kbind (kfind (page_range 0 sz) (\<lambda>i.
       kbind (walk old i False) (\<lambda>pte.
       kthen (kwhen (pte = 0) (kpanic ''uvmcopy: pte should exist''))
       (kbind (ld64 pte) (\<lambda>e.
       kthen (kwhen (e AND PTE_V = 0) (kpanic ''uvmcopy: page not present''))
       (let pa = PTE2PA e; flags = PTE_FLAGS e in
        kbind kalloc (\<lambda>pg.
        if pg = 0 then kret (Some i)
        else kthen (mmove pg pa 4096)
            (kbind (mappages new i PGSIZE pg flags) (\<lambda>r.
             if r \<noteq> 0 then kthen (kfree pg) (kret (Some i)) else kret None)))))))))
     (\<lambda>err. case err of
        None \<Rightarrow> kret 0
      | Some i \<Rightarrow> kthen (uvmunmap new 0 (i div PGSIZE) True) (kret (-1)))"

definition uvmclear :: "uint64 \<Rightarrow> uint64 \<Rightarrow> ('a kmem_scheme, unit) kop" where
  "uvmclear pagetable va =
     kbind (walk pagetable va False) (\<lambda>pte.
     kthen (kwhen (pte = 0) (kpanic ''uvmclear''))
     (kbind (ld64 pte) (\<lambda>e. st64 pte (e AND NOT PTE_U))))"

section \<open>Copying between kernel and user memory\<close>

lemma page_offset: "unat (a - PGROUNDDOWN a) = unat a mod 4096"
proof -
  have "unat (PGROUNDDOWN a) \<le> unat a" by (simp add: unat_PGROUNDDOWN)
  then have "unat (a - PGROUNDDOWN a) = unat a - unat a div 4096 * 4096"
    by (simp add: unat_sub word_le_nat_alt unat_PGROUNDDOWN)
  then show ?thesis by (simp add: modulo_nat_def)
qed

text \<open>The bytes up to the end of the page of \<open>a\<close>: \<open>PGSIZE - (a - va0)\<close>.\<close>

lemma page_rest: "unat (PGSIZE - (a - PGROUNDDOWN a)) = 4096 - unat a mod 4096"
proof -
  have "a - PGROUNDDOWN a \<le> PGSIZE"
    by (simp add: word_le_nat_alt page_offset PGSIZE_def less_imp_le)
  then show ?thesis by (simp add: unat_sub page_offset) (simp add: PGSIZE_def)
qed

lemma page_rest_pos: "0 < unat (PGSIZE - (a - PGROUNDDOWN a))"
  by (simp add: page_rest)

function copyout :: "uint64 \<Rightarrow> uint64 \<Rightarrow> uchar list \<Rightarrow> ('a kmem_scheme, int) kop" where
  "copyout pagetable dstva src =
     (if src = [] then kret 0
      else let va0 = PGROUNDDOWN dstva in
        kbind (walkaddr pagetable va0) (\<lambda>pa0.
        if pa0 = 0 then kret (-1)
        else let n = unat (PGSIZE - (dstva - va0)) in
          kthen (mstore (pa0 + (dstva - va0)) (take n src))
                (copyout pagetable (va0 + PGSIZE) (drop n src))))"
  by pat_completeness auto
termination
proof (relation "measure (\<lambda>(pt, va, src). length src)", goal_cases)
  case (2 pt dstva src)
  then show ?case using page_rest_pos [of dstva] by (cases src) auto
qed simp

declare copyout.simps [simp del]

function copyin :: "uint64 \<Rightarrow> uint64 \<Rightarrow> nat \<Rightarrow> ('a kmem_scheme, int \<times> uchar list) kop" where
  "copyin pagetable srcva len =
     (if len = 0 then kret (0, [])
      else let va0 = PGROUNDDOWN srcva in
        kbind (walkaddr pagetable va0) (\<lambda>pa0.
        if pa0 = 0 then kret (-1, [])
        else let n = min (unat (PGSIZE - (srcva - va0))) len in
          kbind (kget (\<lambda>s. bytes (mem s) (pa0 + (srcva - va0)) n)) (\<lambda>bs.
          kbind (copyin pagetable (va0 + PGSIZE) (len - n)) (\<lambda>(r, cs). kret (r, bs @ cs)))))"
  by pat_completeness auto
termination
proof (relation "measure (\<lambda>(pt, va, len). len)", goal_cases)
  case (2 pt srcva len)
  then show ?case using page_rest_pos [of srcva] by auto
qed simp

declare copyin.simps [simp del]

text \<open>The inner loop of \<open>copyinstr\<close>: the bytes stored, and whether the last is the zero byte.\<close>

primrec scan_nul :: "uchar list \<Rightarrow> uchar list \<times> bool" where
  "scan_nul [] = ([], False)"
| "scan_nul (p # ps) = (if p = 0 then ([0], True) else (let (bs, got_null) = scan_nul ps in (p # bs, got_null)))"

function copyinstr :: "uint64 \<Rightarrow> uint64 \<Rightarrow> nat \<Rightarrow> ('a kmem_scheme, int \<times> uchar list) kop" where
  "copyinstr pagetable srcva mx =
     (if mx = 0 then kret (-1, [])
      else let va0 = PGROUNDDOWN srcva in
        kbind (walkaddr pagetable va0) (\<lambda>pa0.
        if pa0 = 0 then kret (-1, [])
        else let n = min (unat (PGSIZE - (srcva - va0))) mx in
          kbind (kget (\<lambda>s. scan_nul (bytes (mem s) (pa0 + (srcva - va0)) n))) (\<lambda>(bs, got_null).
          if got_null then kret (0, bs)
          else kbind (copyinstr pagetable (va0 + PGSIZE) (mx - n)) (\<lambda>(r, cs). kret (r, bs @ cs)))))"
  by pat_completeness auto
termination
proof (relation "measure (\<lambda>(pt, va, mx). mx)", goal_cases)
  case (2 pt srcva mx)
  then show ?case using page_rest_pos [of srcva] by auto
qed simp

declare copyinstr.simps [simp del]

section \<open>The kernel's page table\<close>

definition UART0 :: uint64 where "UART0 = 0x10000000"
definition VIRTIO0 :: uint64 where "VIRTIO0 = 0x10001000"
definition PLIC :: uint64 where "PLIC = 0x0c000000"
definition VGA0 :: uint64 where "VGA0 = 0x3000000"
definition FRAMEBUFFER :: uint64 where "FRAMEBUFFER = 0x40000000"

definition proc_mapstacks :: "uint64 \<Rightarrow> ('a kmem_scheme, unit) kop" where
  "proc_mapstacks kpgtbl = kfor [0..<NPROC] (\<lambda>p.
     kbind kalloc (\<lambda>pa.
     kthen (kwhen (pa = 0) (kpanic ''kalloc''))
     (kvmmap kpgtbl (KSTACK (of_nat p)) pa PGSIZE (PTE_R OR PTE_W))))"

definition kvmmake :: "uint64 \<Rightarrow> uint64 \<Rightarrow> ('a kmem_scheme, uint64) kop" where
  "kvmmake etext trampoline =
     kbind kalloc (\<lambda>kpgtbl.
     kthen (mset kpgtbl 0 4096)
     (kthen (kvmmap kpgtbl UART0 UART0 PGSIZE (PTE_R OR PTE_W))
     (kthen (kvmmap kpgtbl VIRTIO0 VIRTIO0 PGSIZE (PTE_R OR PTE_W))
     (kthen (kvmmap kpgtbl 0x30000000 0x30000000 0x10000000 (PTE_R OR PTE_W))
     (kthen (kvmmap kpgtbl FRAMEBUFFER FRAMEBUFFER 0x1000000 (PTE_R OR PTE_W))
     (kthen (kvmmap kpgtbl VGA0 VGA0 0x10000 (PTE_R OR PTE_W))
     (kthen (kvmmap kpgtbl PLIC PLIC 0x400000 (PTE_R OR PTE_W))
     (kthen (kvmmap kpgtbl KERNBASE KERNBASE (etext - KERNBASE) (PTE_R OR PTE_X))
     (kthen (kvmmap kpgtbl etext etext (PHYSTOP - etext) (PTE_R OR PTE_W))
     (kthen (kvmmap kpgtbl TRAMPOLINE trampoline PGSIZE (PTE_R OR PTE_X))
     (kthen (proc_mapstacks kpgtbl)
            (kret kpgtbl))))))))))))"

definition kvminit :: "uint64 \<Rightarrow> uint64 \<Rightarrow> ('a vmst_scheme, unit) kop" where
  "kvminit etext trampoline =
     kbind (kvmmake etext trampoline) (\<lambda>pt. kmod (\<lambda>s. s\<lparr>kernel_pagetable := pt\<rparr>))"

definition kvminithart :: "('a vmst_scheme, unit) kop" where
  "kvminithart = kmod (\<lambda>s. s\<lparr>satp := MAKE_SATP (kernel_pagetable s)\<rparr>)"

end
