(* ===== verification/Proc_Table.thy ===== *)
theory Proc_Table
  imports Vm
begin

text \<open>
  The process table of \<^verbatim>\<open>kernel/proc.c\<close> (\<^verbatim>\<open>struct proc\<close> of \<^verbatim>\<open>kernel/proc.h\<close>) and the
  operations on process states that need neither memory nor files: pid allocation,
  \<open>wakeup\<close>, \<open>kill\<close>, \<open>yield\<close>, the scheduler's choice and the two halves of \<open>sleep\<close> around
  the context switch. Each runs with the lock of the process it changes, so it is one
  step of the machine; the step relation interleaves the steps of all CPUs.
\<close>

section \<open>Processes\<close>

datatype procstate = UNUSED | USED | SLEEPING | RUNNABLE | RUNNING | ZOMBIE

record kcontext =
  ctx_ra :: uint64
  ctx_sp :: uint64
  ctx_s :: "uint64 list"

text \<open>
  \<open>p_trapframe\<close> and \<open>p_pagetable\<close> are physical addresses, \<open>p_ofile\<close> holds indices of the
  file table, \<open>p_cwd\<close> an index of the inode table, \<open>p_parent\<close> an index of the process table.
\<close>

record proc =
  p_state :: procstate
  p_chan :: "chan option"
  p_killed :: int
  p_xstate :: int
  p_pid :: int
  p_parent :: "nat option"
  p_kstack :: uint64
  p_sz :: uint64
  p_pagetable :: uint64
  p_trapframe :: uint64
  p_context :: kcontext
  p_ofile :: "nat option list"
  p_cwd :: "nat option"
  p_name :: "uchar list"

text \<open>\<open>cpu_proc c\<close> is \<^verbatim>\<open>cpus[c].proc\<close>; \<open>hart\<close> is the CPU that executes (register \<^verbatim>\<open>tp\<close>).\<close>

record ptab = vmst +
  ptable :: "nat \<Rightarrow> proc"
  initproc :: "nat option"
  nextpid :: int
  cpu_proc :: "nat \<Rightarrow> nat option"
  hart :: nat

definition NOFILE :: nat where
  "NOFILE = 16"

definition upd_proc :: "nat \<Rightarrow> (proc \<Rightarrow> proc) \<Rightarrow> 'a ptab_scheme \<Rightarrow> 'a ptab_scheme" where
  "upd_proc p f s = s\<lparr>ptable := (ptable s)(p := f (ptable s p))\<rparr>"

abbreviation pmod :: "nat \<Rightarrow> (proc \<Rightarrow> proc) \<Rightarrow> ('a ptab_scheme, unit) kop" where
  "pmod p f \<equiv> kmod (upd_proc p f)"

abbreviation pget :: "nat \<Rightarrow> (proc \<Rightarrow> 'b) \<Rightarrow> ('a ptab_scheme, 'b) kop" where
  "pget p f \<equiv> kget (\<lambda>s. f (ptable s p))"

definition procinit :: "('a ptab_scheme, unit) kop" where
  "procinit = kfor [0..<NPROC] (\<lambda>p. pmod p (\<lambda>q. q\<lparr>p_kstack := KSTACK (of_nat p)\<rparr>))"

definition cpuid :: "('a ptab_scheme, nat) kop" where
  "cpuid = kget hart"

text \<open>Callers use the result of \<open>myproc\<close> as a pointer; without a process that is a null one.\<close>

definition myproc :: "('a ptab_scheme, nat) kop" where
  "myproc = kbind cpuid (\<lambda>c. kbind (kget (\<lambda>s. cpu_proc s c)) (\<lambda>p.
     case p of None \<Rightarrow> kfault | Some i \<Rightarrow> kret i))"

definition allocpid :: "('a ptab_scheme, int) kop" where
  "allocpid = kbind (kget nextpid) (\<lambda>pid.
     kthen (kmod (\<lambda>s. s\<lparr>nextpid := nextpid s + 1\<rparr>)) (kret pid))"

text \<open>\<open>wakeup\<close> compares \<^verbatim>\<open>p != myproc()\<close>, which is true of every entry when no process runs.\<close>

definition wakeup :: "chan \<Rightarrow> ('a ptab_scheme, unit) kop" where
  "wakeup ch = kbind cpuid (\<lambda>c. kfor [0..<NPROC] (\<lambda>p.
     kbind (kget (\<lambda>s. cpu_proc s c)) (\<lambda>me.
       kwhen (me \<noteq> Some p)
         (kbind (pget p (\<lambda>q. p_state q = SLEEPING \<and> p_chan q = Some ch)) (\<lambda>hit.
            kwhen hit (pmod p (\<lambda>q. q\<lparr>p_state := RUNNABLE\<rparr>)))))))"

definition kill :: "int \<Rightarrow> ('a ptab_scheme, int) kop" where
  "kill pid =
     kbind (kfind [0..<NPROC] (\<lambda>p.
       kbind (pget p p_pid) (\<lambda>i.
         if i = pid
         then kthen (pmod p (\<lambda>q. q\<lparr>p_killed := 1\<rparr>))
              (kthen (kbind (pget p p_state) (\<lambda>st.
                        kwhen (st = SLEEPING) (pmod p (\<lambda>q. q\<lparr>p_state := RUNNABLE\<rparr>))))
                     (kret (Some 0)))
         else kret None)))
     (\<lambda>r. kret (case r of Some v \<Rightarrow> v | None \<Rightarrow> -1))"

definition reparent :: "nat \<Rightarrow> ('a ptab_scheme, unit) kop" where
  "reparent p = kfor [0..<NPROC] (\<lambda>pp.
     kbind (pget pp p_parent) (\<lambda>par.
       kwhen (par = Some p)
         (kbind (kget initproc) (\<lambda>ip.
            kthen (pmod pp (\<lambda>q. q\<lparr>p_parent := ip\<rparr>))
                  (case ip of Some i \<Rightarrow> wakeup (ChProc i) | None \<Rightarrow> kret ())))))"

section \<open>Giving up and getting the CPU\<close>

text \<open>
  \<open>sched\<close> returns to the scheduler loop of this CPU, which clears \<^verbatim>\<open>c->proc\<close> and releases the
  lock of the process. Its checks of the lock and of the interrupt state are those that
  the lock model covers; the one on the process state is kept.
\<close>

definition sched :: "('a ptab_scheme, unit) kop" where
  "sched = kbind myproc (\<lambda>p. kbind (pget p p_state) (\<lambda>st.
     kthen (kwhen (st = RUNNING) (kpanic ''sched running''))
     (kbind cpuid (\<lambda>c. kmod (\<lambda>s. s\<lparr>cpu_proc := (cpu_proc s)(c := None)\<rparr>)))))"

definition yield :: "('a ptab_scheme, unit) kop" where
  "yield = kbind myproc (\<lambda>p. kthen (pmod p (\<lambda>q. q\<lparr>p_state := RUNNABLE\<rparr>)) sched)"

text \<open>\<open>sleep\<close> up to the switch, and after the process has been scheduled again.\<close>

definition sleep_enter :: "chan \<Rightarrow> ('a ptab_scheme, unit) kop" where
  "sleep_enter ch = kbind myproc (\<lambda>p.
     kthen (pmod p (\<lambda>q. q\<lparr>p_chan := Some ch\<rparr>))
     (kthen (pmod p (\<lambda>q. q\<lparr>p_state := SLEEPING\<rparr>)) sched))"

definition sleep_return :: "('a ptab_scheme, unit) kop" where
  "sleep_return = kbind myproc (\<lambda>p. pmod p (\<lambda>q. q\<lparr>p_chan := None\<rparr>))"

text \<open>The body of the scheduler's loop for one process, up to the switch to it.\<close>

definition scheduler_try :: "nat \<Rightarrow> ('a ptab_scheme, bool) kop" where
  "scheduler_try p = kbind (pget p p_state) (\<lambda>st.
     if st = RUNNABLE
     then kthen (pmod p (\<lambda>q. q\<lparr>p_state := RUNNING\<rparr>))
          (kbind cpuid (\<lambda>c.
           kthen (kmod (\<lambda>s. s\<lparr>cpu_proc := (cpu_proc s)(c := Some p)\<rparr>)) (kret True)))
     else kret False)"

section \<open>What they do\<close>

lemma upd_proc_simps [simp]:
  "ptable (upd_proc p f s) = (ptable s)(p := f (ptable s p))"
  "cpu_proc (upd_proc p f s) = cpu_proc s" "hart (upd_proc p f s) = hart s"
  "initproc (upd_proc p f s) = initproc s" "nextpid (upd_proc p f s) = nextpid s"
  "mem (upd_proc p f s) = mem s" "freelist (upd_proc p f s) = freelist s"
  "kend (upd_proc p f s) = kend s" "ptab.more (upd_proc p f s) = ptab.more s"
  by (simp_all add: upd_proc_def)

definition wakeup_proc :: "chan \<Rightarrow> proc \<Rightarrow> proc" where
  "wakeup_proc ch q =
     (if p_state q = SLEEPING \<and> p_chan q = Some ch then q\<lparr>p_state := RUNNABLE\<rparr> else q)"

text \<open>A counting loop whose body updates the entry of its index.\<close>

lemma kfor_upd_proc:
  assumes "\<And>p t. p \<in> set ps \<Longrightarrow> cpu_proc t = cpu_proc s \<Longrightarrow> hart t = hart s \<Longrightarrow>
             body p t = Ok ((), upd_proc p (g p) t)" and "distinct ps"
  shows "kfor ps body s = Ok ((), s\<lparr>ptable := (\<lambda>p. if p \<in> set ps then g p (ptable s p) else ptable s p)\<rparr>)"
  using assms
proof (induction ps arbitrary: s)
  case Nil
  then show ?case by (simp add: kop_defs)
next
  case (Cons p ps)
  let ?t = "upd_proc p (g p) s"
  have "kfor ps body ?t = Ok ((), ?t\<lparr>ptable := (\<lambda>q. if q \<in> set ps then g q (ptable ?t q) else ptable ?t q)\<rparr>)"
    using Cons.prems by (intro Cons.IH) auto
  moreover have "?t\<lparr>ptable := (\<lambda>q. if q \<in> set ps then g q (ptable ?t q) else ptable ?t q)\<rparr> =
      s\<lparr>ptable := (\<lambda>q. if q \<in> set (p # ps) then g q (ptable s q) else ptable s q)\<rparr>"
    using Cons.prems(2) by (simp add: upd_proc_def fun_eq_iff)
  ultimately show ?case using Cons.prems(1) [of p s] by (simp add: kop_defs)
qed

lemma wakeup_eq:
  "wakeup ch s = Ok ((), s\<lparr>ptable := (\<lambda>p. if p < NPROC \<and> cpu_proc s (hart s) \<noteq> Some p
     then wakeup_proc ch (ptable s p) else ptable s p)\<rparr>)"
proof -
  let ?g = "\<lambda>p q. if cpu_proc s (hart s) \<noteq> Some p then wakeup_proc ch q else q"
  have "wakeup ch s = Ok ((), s\<lparr>ptable := (\<lambda>p. if p \<in> set [0..<NPROC] then ?g p (ptable s p) else ptable s p)\<rparr>)"
    by (simp only: wakeup_def cpuid_def krun, rule kfor_upd_proc)
      (auto simp: krun wakeup_proc_def upd_proc_def)
  then show ?thesis by (simp add: fun_eq_iff cong: if_cong)
qed

definition kill_proc :: "proc \<Rightarrow> proc" where
  "kill_proc q = q\<lparr>p_killed := 1, p_state := (if p_state q = SLEEPING then RUNNABLE else p_state q)\<rparr>"

lemma upd_proc_twice: "upd_proc p f (upd_proc p g s) = upd_proc p (\<lambda>q. f (g q)) s"
  by (simp add: upd_proc_def)

lemma kill_eq:
  "kill pid s = (case find (\<lambda>p. p_pid (ptable s p) = pid) [0..<NPROC] of
     None \<Rightarrow> Ok (-1, s) | Some p \<Rightarrow> Ok (0, upd_proc p kill_proc s))"
proof -
  let ?found = "\<lambda>p. kthen (pmod p (\<lambda>q. q\<lparr>p_killed := 1\<rparr>))
      (kthen (kbind (pget p p_state) (\<lambda>st.
         kwhen (st = SLEEPING) (pmod p (\<lambda>q. q\<lparr>p_state := RUNNABLE\<rparr>)))) (kret 0))"
  have first: "kfind [0..<NPROC] (\<lambda>p. kbind (pget p p_pid) (\<lambda>i.
         if i = pid
         then kthen (pmod p (\<lambda>q. q\<lparr>p_killed := 1\<rparr>))
              (kthen (kbind (pget p p_state) (\<lambda>st.
                        kwhen (st = SLEEPING) (pmod p (\<lambda>q. q\<lparr>p_state := RUNNABLE\<rparr>))))
                     (kret (Some (0::int))))
         else kret None)) s =
      (case find (\<lambda>p. p_pid (ptable s p) = pid) [0..<NPROC] of None \<Rightarrow> Ok (None, s)
       | Some p \<Rightarrow> kbind (?found p) (\<lambda>v. kret (Some v)) s)"
    by (rule kfind_first) (simp_all add: krun)
  have found: "?found p s = Ok (0, upd_proc p kill_proc s)" for p
    by (simp add: krun upd_proc_twice) (simp add: upd_proc_def kill_proc_def)
  show ?thesis
  proof (cases "find (\<lambda>p. p_pid (ptable s p) = pid) [0..<NPROC]")
    case None
    then show ?thesis unfolding kill_def by (subst kbind_Ok, simp add: first, simp add: krun)
  next
    case (Some p)
    moreover have "kbind (?found p) (\<lambda>v. kret (Some v)) s = Ok (Some 0, upd_proc p kill_proc s)"
      by (subst kbind_Ok, rule found) (simp add: krun)
    ultimately show ?thesis unfolding kill_def by (subst kbind_Ok, simp add: first, simp add: krun)
  qed
qed

section \<open>All CPUs together\<close>

text \<open>
  One step of CPU \<open>c\<close>: the scheduler of an idle CPU looks at one process; the process on a
  busy CPU yields, goes to sleep, finishes a sleep, wakes others, or kills one.
\<close>

inductive pstep :: "ptab \<Rightarrow> ptab \<Rightarrow> bool" where
  Sched: "cpu_proc s c = None \<Longrightarrow> p < NPROC \<Longrightarrow>
    scheduler_try p (s\<lparr>hart := c\<rparr>) = Ok (b, t) \<Longrightarrow> pstep s t"
| Yield: "cpu_proc s c \<noteq> None \<Longrightarrow> yield (s\<lparr>hart := c\<rparr>) = Ok ((), t) \<Longrightarrow> pstep s t"
| Sleep: "cpu_proc s c \<noteq> None \<Longrightarrow> sleep_enter ch (s\<lparr>hart := c\<rparr>) = Ok ((), t) \<Longrightarrow> pstep s t"
| Resume: "cpu_proc s c \<noteq> None \<Longrightarrow> sleep_return (s\<lparr>hart := c\<rparr>) = Ok ((), t) \<Longrightarrow> pstep s t"
| Wakeup: "wakeup ch (s\<lparr>hart := c\<rparr>) = Ok ((), t) \<Longrightarrow> pstep s t"
| Kill: "kill pid (s\<lparr>hart := c\<rparr>) = Ok (r, t) \<Longrightarrow> pstep s t"

definition sched_inv :: "ptab \<Rightarrow> bool" where
  "sched_inv s \<longleftrightarrow>
     (\<forall>c p. cpu_proc s c = Some p \<longrightarrow> p < NPROC \<and> p_state (ptable s p) = RUNNING) \<and>
     (\<forall>c d p. cpu_proc s c = Some p \<longrightarrow> cpu_proc s d = Some p \<longrightarrow> c = d) \<and>
     (\<forall>p. p_state (ptable s p) = RUNNING \<longrightarrow> (\<exists>c. cpu_proc s c = Some p))"

lemma myproc_eq:
  "kbind myproc f s = (case cpu_proc s (hart s) of None \<Rightarrow> Fault | Some p \<Rightarrow> f p s)"
  by (simp add: myproc_def cpuid_def krun kop_defs split: option.splits)

lemma sched_eq:
  "sched s = (case cpu_proc s (hart s) of None \<Rightarrow> Fault | Some p \<Rightarrow>
     if p_state (ptable s p) = RUNNING then Panic ''sched running''
     else Ok ((), s\<lparr>cpu_proc := (cpu_proc s)(hart s := None)\<rparr>))"
  by (simp add: sched_def myproc_eq cpuid_def krun split: option.splits)

lemma sched_invD:
  assumes "sched_inv s"
  shows "cpu_proc s c = Some p \<Longrightarrow> p < NPROC" "cpu_proc s c = Some p \<Longrightarrow> p_state (ptable s p) = RUNNING"
    "cpu_proc s c = Some p \<Longrightarrow> cpu_proc s d = Some p \<Longrightarrow> c = d"
    "p_state (ptable s p) = RUNNING \<Longrightarrow> \<exists>c. cpu_proc s c = Some p"
  using assms unfolding sched_inv_def by blast+

lemma sched_invI:
  assumes "\<And>c p. cpu_proc s c = Some p \<Longrightarrow> p < NPROC \<and> p_state (ptable s p) = RUNNING"
    and "\<And>c d p. cpu_proc s c = Some p \<Longrightarrow> cpu_proc s d = Some p \<Longrightarrow> c = d"
    and "\<And>p. p_state (ptable s p) = RUNNING \<Longrightarrow> \<exists>c. cpu_proc s c = Some p"
  shows "sched_inv s"
  using assms unfolding sched_inv_def by blast

lemma sched_inv_leave:
  assumes inv: "sched_inv s" and c: "cpu_proc s c = Some p" and "st \<noteq> RUNNING"
  shows "sched_inv (s\<lparr>hart := h, ptable := (ptable s)(p := q\<lparr>p_state := st\<rparr>),
    cpu_proc := (cpu_proc s)(c := None)\<rparr>)" (is "sched_inv ?t")
proof (rule sched_invI)
  have other: "d \<noteq> c \<Longrightarrow> cpu_proc s d \<noteq> Some p" for d using sched_invD(3) [OF inv] c by blast
  then show "p' < NPROC \<and> p_state (ptable ?t p') = RUNNING" if "cpu_proc ?t d = Some p'" for d p'
    using that sched_invD(1,2) [OF inv] by (auto split: if_splits)
  show "d = e" if "cpu_proc ?t d = Some p'" and "cpu_proc ?t e = Some p'" for d e p'
    using that sched_invD(3) [OF inv] by (auto split: if_splits)
  show "\<exists>d. cpu_proc ?t d = Some p'" if r: "p_state (ptable ?t p') = RUNNING" for p'
  proof -
    have "p' \<noteq> p" "p_state (ptable s p') = RUNNING" using r assms(3) by (auto split: if_splits)
    then obtain d where "cpu_proc s d = Some p'" using sched_invD(4) [OF inv] by blast
    then show ?thesis using c \<open>p' \<noteq> p\<close> by (intro exI [of _ d]) auto
  qed
qed

lemma sched_inv_enter:
  assumes inv: "sched_inv s" and c: "cpu_proc s c = None" and p: "p < NPROC"
    and "p_state (ptable s p) \<noteq> RUNNING"
  shows "sched_inv (s\<lparr>hart := h, ptable := (ptable s)(p := q\<lparr>p_state := RUNNING\<rparr>),
    cpu_proc := (cpu_proc s)(c := Some p)\<rparr>)" (is "sched_inv ?t")
proof (rule sched_invI)
  have none: "cpu_proc s d \<noteq> Some p" for d using sched_invD(2) [OF inv] assms(4) by blast
  show "p' < NPROC \<and> p_state (ptable ?t p') = RUNNING" if "cpu_proc ?t d = Some p'" for d p'
    using that sched_invD(1,2) [OF inv] p by (auto split: if_splits)
  show "d = e" if "cpu_proc ?t d = Some p'" and "cpu_proc ?t e = Some p'" for d e p'
    using that sched_invD(3) [OF inv] none by (auto split: if_splits)
  show "\<exists>d. cpu_proc ?t d = Some p'" if r: "p_state (ptable ?t p') = RUNNING" for p'
  proof (cases "p' = p")
    case True
    then show ?thesis by (intro exI [of _ c]) simp
  next
    case False
    then obtain d where "cpu_proc s d = Some p'" using sched_invD(4) [OF inv] r by auto
    then show ?thesis using c by (intro exI [of _ d]) auto
  qed
qed

lemma sched_inv_states:
  assumes "sched_inv s" and "\<And>p. (p_state (f p) = RUNNING) = (p_state (ptable s p) = RUNNING)"
  shows "sched_inv (s\<lparr>hart := h, ptable := f\<rparr>)"
  using assms unfolding sched_inv_def by simp

lemma sched_inv_hart [simp]: "sched_inv (s\<lparr>hart := h\<rparr>) = sched_inv s"
  by (simp add: sched_inv_def)

lemma sched_inv_step:
  assumes "pstep s t" and "sched_inv s"
  shows "sched_inv t"
  using assms
proof (induction rule: pstep.induct)
  case (Sched s c p b t)
  show ?case
  proof (cases "p_state (ptable s p) = RUNNABLE")
    case True
    then have "t = s\<lparr>hart := c, ptable := (ptable s)(p := (ptable s p)\<lparr>p_state := RUNNING\<rparr>),
        cpu_proc := (cpu_proc s)(c := Some p)\<rparr>"
      using Sched by (simp add: scheduler_try_def krun cpuid_def upd_proc_def)
    with Sched True show ?thesis by (simp add: sched_inv_enter)
  next
    case False
    then have "t = s\<lparr>hart := c\<rparr>" using Sched by (simp add: scheduler_try_def krun)
    with Sched show ?thesis by (simp add: sched_inv_def)
  qed
next
  case (Yield s c t)
  then obtain p where p: "cpu_proc s c = Some p" by blast
  then have "t = s\<lparr>hart := c, ptable := (ptable s)(p := (ptable s p)\<lparr>p_state := RUNNABLE\<rparr>),
        cpu_proc := (cpu_proc s)(c := None)\<rparr>"
    using Yield by (simp add: yield_def myproc_eq krun sched_eq upd_proc_def)
  with Yield p show ?case by (simp add: sched_inv_leave)
next
  case (Sleep s c ch t)
  then obtain p where p: "cpu_proc s c = Some p" by blast
  then have "t = s\<lparr>hart := c, ptable := (ptable s)(p := ((ptable s p)\<lparr>p_chan := Some ch\<rparr>)\<lparr>p_state := SLEEPING\<rparr>),
        cpu_proc := (cpu_proc s)(c := None)\<rparr>"
    using Sleep by (simp add: sleep_enter_def myproc_eq krun sched_eq upd_proc_def)
  with sched_inv_leave [OF Sleep.prems p, where st = SLEEPING and h = c and
      q = "(ptable s p)\<lparr>p_chan := Some ch\<rparr>"]
  show ?case by simp
next
  case (Resume s c t)
  then obtain p where p: "cpu_proc s c = Some p" by blast
  then have "t = s\<lparr>hart := c, ptable := (ptable s)(p := (ptable s p)\<lparr>p_chan := None\<rparr>)\<rparr>"
    using Resume by (simp add: sleep_return_def myproc_eq krun upd_proc_def)
  with Resume.prems show ?case using sched_inv_states [of s "(ptable s)(p := (ptable s p)\<lparr>p_chan := None\<rparr>)"]
    by simp
next
  case (Wakeup ch c s t)
  then have "t = s\<lparr>hart := c, ptable := (\<lambda>p. if p < NPROC \<and> cpu_proc s c \<noteq> Some p
       then wakeup_proc ch (ptable s p) else ptable s p)\<rparr>"
    by (simp add: wakeup_eq cong: if_cong)
  with Wakeup.prems show ?case
    using sched_inv_states [of s "\<lambda>p. if p < NPROC \<and> cpu_proc s c \<noteq> Some p
       then wakeup_proc ch (ptable s p) else ptable s p" c] by (simp add: wakeup_proc_def)
next
  case (Kill pid c s r t)
  then consider "t = s\<lparr>hart := c, ptable := ptable s\<rparr>"
    | p where "t = s\<lparr>hart := c, ptable := (ptable s)(p := kill_proc (ptable s p))\<rparr>"
    by (auto simp: kill_eq upd_proc_def split: option.splits)
  then show ?case
    using Kill.prems by cases (auto simp: kill_proc_def intro!: sched_inv_states split: if_splits)
qed


lemma sched_inv_reachable: "pstep\<^sup>*\<^sup>* s t \<Longrightarrow> sched_inv s \<Longrightarrow> sched_inv t"
  by (induction rule: rtranclp_induct) (auto intro: sched_inv_step)


text \<open>An idle machine with one runnable process.\<close>

definition proc0 :: proc where
  "proc0 = \<lparr>p_state = UNUSED, p_chan = None, p_killed = 0, p_xstate = 0, p_pid = 0,
     p_parent = None, p_kstack = 0, p_sz = 0, p_pagetable = 0, p_trapframe = 0,
     p_context = \<lparr>ctx_ra = 0, ctx_sp = 0, ctx_s = replicate 12 0\<rparr>,
     p_ofile = replicate NOFILE None, p_cwd = None, p_name = replicate 16 0\<rparr>"

definition ptab0 :: ptab where
  "ptab0 = \<lparr>mem = (\<lambda>_. 0), freelist = 0, kend = 0x80021E40, kernel_pagetable = 0, satp = 0,
     ptable = (\<lambda>p. if p = 0 then proc0\<lparr>p_state := RUNNABLE, p_pid := 1\<rparr> else proc0),
     initproc = Some 0, nextpid = 2, cpu_proc = (\<lambda>_. None), hart = 0\<rparr>"


text \<open>
  C15: \<open>kill\<close> marks the first process with the given pid as killed, makes it runnable if it
  was asleep, and returns 0; no other process changes. If no process has the pid it
  returns -1 and changes nothing.
\<close>

theorem kill_correct:
  "kill pid s = (if \<exists>p < NPROC. p_pid (ptable s p) = pid
     then let p = (LEAST p. p_pid (ptable s p) = pid) in Ok (0, upd_proc p kill_proc s)
     else Ok (-1, s))"
proof (cases "find (\<lambda>p. p_pid (ptable s p) = pid) [0..<NPROC]")
  case None
  then have "\<not> (\<exists>p < NPROC. p_pid (ptable s p) = pid)" by (auto simp: find_None_iff)
  with None show ?thesis by (simp add: kill_eq)
next
  case (Some p)
  then have p: "p < NPROC" "p_pid (ptable s p) = pid" "\<And>j. j < p \<Longrightarrow> p_pid (ptable s j) \<noteq> pid"
    by (auto simp: find_Some_iff)
  then have "(LEAST p. p_pid (ptable s p) = pid) = p"
    by (intro Least_equality) (auto simp: not_less [symmetric])
  with p Some show ?thesis by (auto simp: kill_eq Let_def)
qed

section \<open>No wakeup is lost\<close>

text \<open>
  A thread that waits for a condition under a lock, \<^verbatim>\<open>while(!cond) sleep(chan, lk)\<close>, against
  one that sets it, \<^verbatim>\<open>cond = 1; wakeup(chan)\<close>, cut into the lock operations and accesses of
  \<open>sleep\<close> and \<open>wakeup\<close>. \<open>lk_held\<close> and \<open>p_held\<close> say which thread has the condition lock and the
  process lock; the scheduler releases the process lock of a thread that has switched out
  and takes it before it switches it in.
\<close>

datatype spc = SAcquire | STest | SSleep | SReleaseLk | SMark | SSched | SAsleep | STidy | SDone
datatype wpc = WAcquire | WSet | WLockP | WCheck | WRelease | WDone
datatype who = Sleeper | Waker

record sw =
  spc :: spc
  wpc :: wpc
  lk_held :: "who option"
  p_held :: "who option"
  cond :: bool
  s_state :: procstate
  s_chan :: bool

inductive sw_step :: "sw \<Rightarrow> sw \<Rightarrow> bool" where
  s_acquire: "spc x = SAcquire \<Longrightarrow> lk_held x = None \<Longrightarrow>
    sw_step x (x\<lparr>spc := STest, lk_held := Some Sleeper\<rparr>)"
| s_true: "spc x = STest \<Longrightarrow> cond x \<Longrightarrow> sw_step x (x\<lparr>spc := SDone, lk_held := None\<rparr>)"
| s_false: "spc x = STest \<Longrightarrow> \<not> cond x \<Longrightarrow> sw_step x (x\<lparr>spc := SSleep\<rparr>)"
| s_lockp: "spc x = SSleep \<Longrightarrow> p_held x = None \<Longrightarrow>
    sw_step x (x\<lparr>spc := SReleaseLk, p_held := Some Sleeper\<rparr>)"
| s_release: "spc x = SReleaseLk \<Longrightarrow> sw_step x (x\<lparr>spc := SMark, lk_held := None\<rparr>)"
| s_mark: "spc x = SMark \<Longrightarrow>
    sw_step x (x\<lparr>spc := SSched, s_chan := True, s_state := SLEEPING\<rparr>)"
| s_sched: "spc x = SSched \<Longrightarrow> sw_step x (x\<lparr>spc := SAsleep, p_held := None\<rparr>)"
| s_pick: "spc x = SAsleep \<Longrightarrow> s_state x = RUNNABLE \<Longrightarrow> p_held x = None \<Longrightarrow>
    sw_step x (x\<lparr>spc := STidy, p_held := Some Sleeper, s_state := RUNNING\<rparr>)"
| s_tidy: "spc x = STidy \<Longrightarrow> sw_step x (x\<lparr>spc := SAcquire, s_chan := False, p_held := None\<rparr>)"
| w_acquire: "wpc x = WAcquire \<Longrightarrow> lk_held x = None \<Longrightarrow>
    sw_step x (x\<lparr>wpc := WSet, lk_held := Some Waker\<rparr>)"
| w_set: "wpc x = WSet \<Longrightarrow> sw_step x (x\<lparr>wpc := WLockP, cond := True\<rparr>)"
| w_lockp: "wpc x = WLockP \<Longrightarrow> p_held x = None \<Longrightarrow>
    sw_step x (x\<lparr>wpc := WCheck, p_held := Some Waker\<rparr>)"
| w_check: "wpc x = WCheck \<Longrightarrow> sw_step x (x\<lparr>wpc := WRelease, p_held := None,
    s_state := (if s_state x = SLEEPING \<and> s_chan x then RUNNABLE else s_state x)\<rparr>)"
| w_release: "wpc x = WRelease \<Longrightarrow> sw_step x (x\<lparr>wpc := WDone, lk_held := None\<rparr>)"

definition sw0 :: sw where
  "sw0 = \<lparr>spc = SAcquire, wpc = WAcquire, lk_held = None, p_held = None, cond = False,
     s_state = RUNNING, s_chan = False\<rparr>"

definition sw_inv :: "sw \<Rightarrow> bool" where
  "sw_inv x \<longleftrightarrow>
     (lk_held x = Some Sleeper \<longleftrightarrow> spc x \<in> {STest, SSleep, SReleaseLk}) \<and>
     (lk_held x = Some Waker \<longleftrightarrow> wpc x \<in> {WSet, WLockP, WCheck, WRelease}) \<and>
     (p_held x = Some Sleeper \<longleftrightarrow> spc x \<in> {SReleaseLk, SMark, SSched, STidy}) \<and>
     (p_held x = Some Waker \<longleftrightarrow> wpc x = WCheck) \<and>
     (cond x \<longleftrightarrow> wpc x \<in> {WLockP, WCheck, WRelease, WDone}) \<and>
     (spc x \<in> {SSleep, SReleaseLk} \<longrightarrow> \<not> cond x) \<and>
     (spc x = SMark \<longrightarrow> wpc x \<notin> {WRelease, WDone}) \<and>
     (spc x \<in> {SSched, SAsleep} \<longrightarrow> s_chan x \<and>
        (s_state x = RUNNABLE \<or> s_state x = SLEEPING \<and> wpc x \<notin> {WRelease, WDone}))"

lemma sw_inv_step: "sw_step x y \<Longrightarrow> sw_inv x \<Longrightarrow> sw_inv y"
  by (induction rule: sw_step.induct; case_tac "wpc x"; simp add: sw_inv_def; case_tac "spc x"; auto)

lemma sw_inv_reachable: "sw_step\<^sup>*\<^sup>* sw0 x \<Longrightarrow> sw_inv x"
proof (induction rule: rtranclp_induct)
  case base
  show ?case by (simp add: sw0_def sw_inv_def)
qed (rule sw_inv_step)


text \<open>A run in which the waiting thread is asleep before the waker starts.\<close>

lemma sw_run:
  "sw_step\<^sup>*\<^sup>* sw0 \<lparr>spc = SAsleep, wpc = WDone, lk_held = None, p_held = None, cond = True,
     s_state = RUNNABLE, s_chan = True\<rparr>"
  unfolding sw0_def
  apply (rule converse_rtranclp_into_rtranclp, rule s_acquire; simp)
  apply (rule converse_rtranclp_into_rtranclp, rule s_false; simp)
  apply (rule converse_rtranclp_into_rtranclp, rule s_lockp; simp)
  apply (rule converse_rtranclp_into_rtranclp, rule s_release; simp)
  apply (rule converse_rtranclp_into_rtranclp, rule s_mark; simp)
  apply (rule converse_rtranclp_into_rtranclp, rule s_sched; simp)
  apply (rule converse_rtranclp_into_rtranclp, rule w_acquire; simp)
  apply (rule converse_rtranclp_into_rtranclp, rule w_set; simp)
  apply (rule converse_rtranclp_into_rtranclp, rule w_lockp; simp)
  apply (rule converse_rtranclp_into_rtranclp, rule w_check; simp)
  apply (rule converse_rtranclp_into_rtranclp, rule w_release; simp)
  done


end
