(* ===== verification/Sleeplock.thy ===== *)
theory Sleeplock
  imports Proc_Table
begin

text \<open>
  Sleep locks (\<^verbatim>\<open>kernel/sleeplock.c\<close>). A pointer to a lock is given by how the state is read
  and updated there, and by the channel its waiters sleep on. Taking a lock that is held
  puts the caller to sleep, which is the outcome \<open>Block\<close>.
\<close>

record sleeplock =
  sl_locked :: uint32
  sl_pid :: int

record 's slptr =
  sl_get :: "'s \<Rightarrow> sleeplock"
  sl_upd :: "(sleeplock \<Rightarrow> sleeplock) \<Rightarrow> 's \<Rightarrow> 's"
  sl_chan :: chan

definition initsleeplock :: "'a ptab_scheme slptr \<Rightarrow> ('a ptab_scheme, unit) kop" where
  "initsleeplock lk = kmod (sl_upd lk (\<lambda>k. k\<lparr>sl_locked := 0, sl_pid := 0\<rparr>))"

definition acquiresleep :: "'a ptab_scheme slptr \<Rightarrow> ('a ptab_scheme, unit) kop" where
  "acquiresleep lk =
     kbind (kget (\<lambda>s. sl_locked (sl_get lk s))) (\<lambda>l.
     kthen (kwhen (l \<noteq> 0) (kblock (sl_chan lk)))
     (kthen (kmod (sl_upd lk (\<lambda>k. k\<lparr>sl_locked := 1\<rparr>)))
     (kbind myproc (\<lambda>p.
      kbind (pget p p_pid) (\<lambda>pid. kmod (sl_upd lk (\<lambda>k. k\<lparr>sl_pid := pid\<rparr>)))))))"

definition releasesleep :: "'a ptab_scheme slptr \<Rightarrow> ('a ptab_scheme, unit) kop" where
  "releasesleep lk =
     kthen (kmod (sl_upd lk (\<lambda>k. k\<lparr>sl_locked := 0\<rparr>)))
     (kthen (kmod (sl_upd lk (\<lambda>k. k\<lparr>sl_pid := 0\<rparr>)))
            (wakeup (sl_chan lk)))"

definition holdingsleep :: "'a ptab_scheme slptr \<Rightarrow> ('a ptab_scheme, bool) kop" where
  "holdingsleep lk =
     kbind (kget (\<lambda>s. sl_get lk s)) (\<lambda>k.
     kbind myproc (\<lambda>p.
     kbind (pget p p_pid) (\<lambda>pid. kret (sl_locked k \<noteq> 0 \<and> sl_pid k = pid))))"

section \<open>The running process\<close>

text \<open>A process is running on this CPU; its pid.\<close>

definition running :: "'a ptab_scheme \<Rightarrow> bool" where
  "running s \<longleftrightarrow> cpu_proc s (hart s) \<noteq> None"

definition me :: "'a ptab_scheme \<Rightarrow> nat" where
  "me s = the (cpu_proc s (hart s))"

definition mypid :: "'a ptab_scheme \<Rightarrow> int" where
  "mypid s = p_pid (ptable s (me s))"

text \<open>The processes that \<open>wakeup ch\<close> leaves in the table.\<close>

definition woken :: "chan \<Rightarrow> 'a ptab_scheme \<Rightarrow> nat \<Rightarrow> proc" where
  "woken ch s p = (if p < NPROC \<and> cpu_proc s (hart s) \<noteq> Some p
     then wakeup_proc ch (ptable s p) else ptable s p)"

lemma wakeup_run [krun]:
  "wakeup ch s = Ok ((), s\<lparr>ptable := woken ch s\<rparr>)"
  "kthen (wakeup ch) m s = m (s\<lparr>ptable := woken ch s\<rparr>)"
proof -
  have "woken ch s = (\<lambda>p. if p < NPROC \<and> cpu_proc s (hart s) \<noteq> Some p
      then wakeup_proc ch (ptable s p) else ptable s p)"
    by (simp add: fun_eq_iff woken_def)
  then show "wakeup ch s = Ok ((), s\<lparr>ptable := woken ch s\<rparr>)"
    "kthen (wakeup ch) m s = m (s\<lparr>ptable := woken ch s\<rparr>)"
    by (simp_all add: wakeup_eq kthen_Ok [OF wakeup_eq])
qed

lemma myproc_run [krun]: "running s \<Longrightarrow> kbind myproc f s = f (me s) s"
  by (auto simp: myproc_eq running_def me_def)

lemma woken_pid [simp]: "p_pid (woken ch s p) = p_pid (ptable s p)"
  by (simp add: woken_def wakeup_proc_def)

text \<open>
  What a call changes of the processes when all it does there is wake sleepers: at most the
  state field of the others.
\<close>

definition same_procs :: "'a ptab_scheme \<Rightarrow> 'a ptab_scheme \<Rightarrow> bool" where
  "same_procs s t \<longleftrightarrow> cpu_proc t = cpu_proc s \<and> hart t = hart s \<and> initproc t = initproc s \<and>
     nextpid t = nextpid s \<and> mem t = mem s \<and> freelist t = freelist s \<and> kend t = kend s \<and>
     (\<forall>p. (ptable t p)\<lparr>p_state := UNUSED\<rparr> = (ptable s p)\<lparr>p_state := UNUSED\<rparr>) \<and>
     (running s \<longrightarrow> ptable t (me s) = ptable s (me s))"

lemma same_procs_refl [simp]: "same_procs s s"
  by (simp add: same_procs_def)

lemma same_procs_trans: "same_procs s t \<Longrightarrow> same_procs t u \<Longrightarrow> same_procs s u"
  by (auto simp: same_procs_def running_def me_def)

lemma same_procs_running: "same_procs s t \<Longrightarrow> running t = running s"
  by (simp add: same_procs_def running_def)

lemma same_procs_me: "same_procs s t \<Longrightarrow> me t = me s"
  by (simp add: same_procs_def me_def)

lemma same_procs_mypid: "same_procs s t \<Longrightarrow> mypid t = mypid s"
proof -
  assume st: "same_procs s t"
  then have "p_pid ((ptable t (me s))\<lparr>p_state := UNUSED\<rparr>) = p_pid ((ptable s (me s))\<lparr>p_state := UNUSED\<rparr>)"
    by (simp add: same_procs_def)
  then show ?thesis using st by (simp add: mypid_def same_procs_me)
qed

lemma same_procs_woken: "same_procs s (s\<lparr>ptable := woken ch s\<rparr>)"
  by (auto simp: same_procs_def woken_def wakeup_proc_def running_def me_def)

end
