(* ===== verification/Bio.thy ===== *)
theory Bio
  imports Sleeplock
begin

text \<open>
  The buffer cache (\<^verbatim>\<open>kernel/bio.c\<close>): thirty buffers on a doubly linked list in order of
  use. A pointer to a buffer is its index; index \<open>HEAD\<close> is \<^verbatim>\<open>bcache.head\<close>. The disk is a map
  from block numbers to contents, which \<open>virtio_disk_rw\<close> reads and writes one block at a
  time; \<open>dwrites\<close> records the sequence of writes, newest last, for the statements about
  crashes. The cache refines an abstract one: for every block its current contents, its
  reference count and whether it is locked.
\<close>

section \<open>The cache\<close>

type_synonym block = "uchar list"

definition BSIZE :: nat where "BSIZE = 1024"
definition NBUF :: nat where "NBUF = 30"
definition ROOTDEV :: uint32 where "ROOTDEV = 1"

abbreviation HEAD :: nat where "HEAD \<equiv> NBUF"

record buf =
  b_valid :: int
  b_disk :: int
  b_dev :: uint32
  b_blockno :: uint32
  b_lock :: sleeplock
  b_refcnt :: uint32
  b_prev :: nat
  b_next :: nat
  b_data :: block

record bio = ptab +
  bufs :: "nat \<Rightarrow> buf"
  dsk :: "uint32 \<Rightarrow> block"
  dwrites :: "(uint32 \<times> block) list"

definition upd_buf :: "nat \<Rightarrow> (buf \<Rightarrow> buf) \<Rightarrow> 'a bio_scheme \<Rightarrow> 'a bio_scheme" where
  "upd_buf b f s = s\<lparr>bufs := (bufs s)(b := f (bufs s b))\<rparr>"

abbreviation bmod :: "nat \<Rightarrow> (buf \<Rightarrow> buf) \<Rightarrow> ('a bio_scheme, unit) kop" where
  "bmod b f \<equiv> kmod (upd_buf b f)"

abbreviation bufget :: "nat \<Rightarrow> (buf \<Rightarrow> 'b) \<Rightarrow> ('a bio_scheme, 'b) kop" where
  "bufget b f \<equiv> kget (\<lambda>s. f (bufs s b))"

definition block_lock :: "nat \<Rightarrow> 'a bio_scheme slptr" where
  "block_lock b = \<lparr>sl_get = (\<lambda>s. b_lock (bufs s b)),
     sl_upd = (\<lambda>f. upd_buf b (\<lambda>x. x\<lparr>b_lock := f (b_lock x)\<rparr>)), sl_chan = ChBufLock b\<rparr>"

text \<open>
  A read or write of one block, as the callers of \<^verbatim>\<open>virtio_disk_rw\<close> see it: the request has
  completed when it returns.
\<close>

definition virtio_disk_rw :: "nat \<Rightarrow> bool \<Rightarrow> ('a bio_scheme, unit) kop" where
  "virtio_disk_rw b write =
     kbind (kget (\<lambda>s. bufs s b)) (\<lambda>x.
     if write
     then kmod (\<lambda>s. s\<lparr>dsk := (dsk s)(b_blockno x := b_data x),
                     dwrites := dwrites s @ [(b_blockno x, b_data x)]\<rparr>)
     else kbind (kget (\<lambda>s. dsk s (b_blockno x))) (\<lambda>d. bmod b (\<lambda>x. x\<lparr>b_data := d\<rparr>)))"

text \<open>
  Insertion at the front, as \<open>binit\<close> and \<open>brelse\<close> do it: the links of the buffer, then
  those of its new neighbours.
\<close>

definition link_self :: "nat \<Rightarrow> ('a bio_scheme, unit) kop" where
  "link_self b =
     kthen (kbind (bufget HEAD b_next) (\<lambda>n. bmod b (\<lambda>x. x\<lparr>b_next := n\<rparr>)))
           (bmod b (\<lambda>x. x\<lparr>b_prev := HEAD\<rparr>))"

definition link_head :: "nat \<Rightarrow> ('a bio_scheme, unit) kop" where
  "link_head b =
     kthen (kbind (bufget HEAD b_next) (\<lambda>n. bmod n (\<lambda>x. x\<lparr>b_prev := b\<rparr>)))
           (bmod HEAD (\<lambda>x. x\<lparr>b_next := b\<rparr>))"

definition binit :: "('a bio_scheme, unit) kop" where
  "binit =
     kthen (bmod HEAD (\<lambda>x. x\<lparr>b_prev := HEAD\<rparr>))
     (kthen (bmod HEAD (\<lambda>x. x\<lparr>b_next := HEAD\<rparr>))
            (kfor [0..<NBUF] (\<lambda>b.
               kthen (link_self b) (kthen (initsleeplock (block_lock b)) (link_head b)))))"

text \<open>
  The two scans of \<open>bget\<close> from \<open>b\<close> along \<open>go\<close> to the first buffer that passes the test. The
  fuel bounds the length of the list; a scan that exhausts it would not end.
\<close>

primrec bscan :: "nat \<Rightarrow> (buf \<Rightarrow> nat) \<Rightarrow> (buf \<Rightarrow> bool) \<Rightarrow> nat \<Rightarrow> ('a bio_scheme, nat option) kop" where
  "bscan 0 go test b = kfault"
| "bscan (Suc k) go test b =
     (if b = HEAD then kret None
      else kbind (kget (\<lambda>s. bufs s b)) (\<lambda>x.
           if test x then kret (Some b) else bscan k go test (go x)))"

definition bget :: "uint32 \<Rightarrow> uint32 \<Rightarrow> ('a bio_scheme, nat) kop" where
  "bget dev blockno =
     kbind (kbind (bufget HEAD b_next)
             (bscan (Suc NBUF) b_next (\<lambda>x. b_dev x = dev \<and> b_blockno x = blockno))) (\<lambda>r.
     case r of
       Some b \<Rightarrow>
         kthen (bmod b (\<lambda>x. x\<lparr>b_refcnt := b_refcnt x + 1\<rparr>))
         (kthen (acquiresleep (block_lock b)) (kret b))
     | None \<Rightarrow>
         kbind (kbind (bufget HEAD b_prev) (bscan (Suc NBUF) b_prev (\<lambda>x. b_refcnt x = 0))) (\<lambda>r.
         case r of
           Some b \<Rightarrow>
             kthen (bmod b (\<lambda>x. x\<lparr>b_dev := dev\<rparr>))
             (kthen (bmod b (\<lambda>x. x\<lparr>b_blockno := blockno\<rparr>))
             (kthen (bmod b (\<lambda>x. x\<lparr>b_valid := 0\<rparr>))
             (kthen (bmod b (\<lambda>x. x\<lparr>b_refcnt := 1\<rparr>))
             (kthen (acquiresleep (block_lock b)) (kret b)))))
         | None \<Rightarrow> kpanic ''bget: no buffers''))"

definition bread :: "uint32 \<Rightarrow> uint32 \<Rightarrow> ('a bio_scheme, nat) kop" where
  "bread dev blockno =
     kbind (bget dev blockno) (\<lambda>b.
     kbind (bufget b b_valid) (\<lambda>v.
     kthen (kwhen (v = 0)
       (kthen (virtio_disk_rw b False) (bmod b (\<lambda>x. x\<lparr>b_valid := 1\<rparr>))))
     (kret b)))"

definition bwrite :: "nat \<Rightarrow> ('a bio_scheme, unit) kop" where
  "bwrite b =
     kbind (holdingsleep (block_lock b)) (\<lambda>h.
     kthen (kwhen (\<not> h) (kpanic ''bwrite'')) (virtio_disk_rw b True))"

definition unlink_buf :: "nat \<Rightarrow> ('a bio_scheme, unit) kop" where
  "unlink_buf b =
     kthen (kbind (kget (\<lambda>s. bufs s b)) (\<lambda>x. bmod (b_next x) (\<lambda>y. y\<lparr>b_prev := b_prev x\<rparr>)))
           (kbind (kget (\<lambda>s. bufs s b)) (\<lambda>x. bmod (b_prev x) (\<lambda>y. y\<lparr>b_next := b_next x\<rparr>)))"

definition brelse :: "nat \<Rightarrow> ('a bio_scheme, unit) kop" where
  "brelse b =
     kbind (holdingsleep (block_lock b)) (\<lambda>h.
     kthen (kwhen (\<not> h) (kpanic ''brelse''))
     (kthen (releasesleep (block_lock b))
     (kthen (bmod b (\<lambda>x. x\<lparr>b_refcnt := b_refcnt x - 1\<rparr>))
     (kbind (bufget b b_refcnt) (\<lambda>r.
      kwhen (r = 0) (kthen (unlink_buf b) (kthen (link_self b) (link_head b))))))))"

definition bpin :: "nat \<Rightarrow> ('a bio_scheme, unit) kop" where
  "bpin b = bmod b (\<lambda>x. x\<lparr>b_refcnt := b_refcnt x + 1\<rparr>)"

definition bunpin :: "nat \<Rightarrow> ('a bio_scheme, unit) kop" where
  "bunpin b = bmod b (\<lambda>x. x\<lparr>b_refcnt := b_refcnt x - 1\<rparr>)"

text \<open>A caller's store into the data of a buffer.\<close>

definition bset :: "nat \<Rightarrow> block \<Rightarrow> ('a bio_scheme, unit) kop" where
  "bset b d = bmod b (\<lambda>x. x\<lparr>b_data := d\<rparr>)"

section \<open>Doubly linked lists\<close>

fun links :: "(nat \<Rightarrow> nat) \<Rightarrow> (nat \<Rightarrow> nat) \<Rightarrow> nat list \<Rightarrow> bool" where
  "links nx pv (x # y # r) \<longleftrightarrow> nx x = y \<and> pv y = x \<and> links nx pv (y # r)"
| "links nx pv _ \<longleftrightarrow> True"

lemma links_append: "links nx pv (xs @ y # ys) \<longleftrightarrow> links nx pv (xs @ [y]) \<and> links nx pv (y # ys)"
  by (induction nx pv xs rule: links.induct) (auto split: list.splits)

lemma links_cong:
  "(\<And>x. x \<in> set (butlast l) \<Longrightarrow> nx' x = nx x) \<Longrightarrow> (\<And>x. x \<in> set (tl l) \<Longrightarrow> pv' x = pv x) \<Longrightarrow>
     links nx' pv' l = links nx pv l"
  by (induction nx pv l rule: links.induct) auto

text \<open>Removal of a node from a circular list, and insertion after the head.\<close>

lemma links_unlink:
  assumes l: "links nx pv (h # xs @ b # ys @ [h])" and d: "distinct (h # xs @ b # ys)"
  shows "links (nx(pv b := nx b)) (pv(nx b := pv b)) (h # xs @ ys @ [h])"
proof -
  obtain us p where u: "h # xs = us @ [p]" by (metis append_butlast_last_id list.discI)
  obtain n vs where v: "ys @ [h] = n # vs" by (cases "ys @ [h]") auto
  have "links nx pv (us @ p # b # n # vs)" using l u v by (metis append.assoc append_Cons append_Nil)
  then have *: "links nx pv (us @ [p])" "nx b = n" "pv b = p" "links nx pv (n # vs)"
    using links_append [of nx pv us p "b # n # vs"] by auto
  have p: "p \<in> set (h # xs)" and sub: "set us \<subseteq> set (h # xs)" using u by (metis in_set_conv_decomp, auto simp: u)
  have n: "n \<in> set (ys @ [h])" using v by simp
  have "distinct (us @ [p])" using d u by (metis append.assoc append_Cons distinct_append)
  then have "links (nx(p := n)) (pv(n := p)) (us @ [p]) = links nx pv (us @ [p])"
  proof (intro links_cong)
    fix x assume "x \<in> set (tl (us @ [p]))"
    then have "x \<in> set xs" using u by (metis list.sel(3))
    then show "(pv(n := p)) x = pv x" using n d by auto
  qed (auto simp: butlast_append)
  moreover have "links (nx(p := n)) (pv(n := p)) (n # vs) = links nx pv (n # vs)"
  proof (intro links_cong)
    fix x assume "x \<in> set (butlast (n # vs))"
    then have "x \<in> set ys" using v by (metis butlast_snoc)
    then show "(nx(p := n)) x = nx x" using p d by auto
  next
    fix x assume "x \<in> set (tl (n # vs))"
    then have "x \<noteq> n" using v d by (cases ys) auto
    then show "(pv(n := p)) x = pv x" by simp
  qed
  ultimately have "links (nx(p := n)) (pv(n := p)) (us @ p # n # vs)"
    using * by (subst links_append) simp
  then show ?thesis using * u v by (metis append.assoc append_Cons append_Nil)
qed

lemma links_front:
  assumes l: "links nx pv (h # zs @ [h])" and d: "distinct (h # b # zs)"
  shows "links (nx(b := nx h, h := b)) (pv(b := h, nx h := b)) (h # b # zs @ [h])"
proof -
  obtain n vs where v: "zs @ [h] = n # vs" by (cases "zs @ [h]") auto
  have *: "nx h = n" "pv n = h" "links nx pv (n # vs)" using l v by auto
  have "n \<noteq> b" using v d by (cases zs) auto
  have "links (nx(b := n, h := b)) (pv(b := h, n := b)) (n # vs) = links nx pv (n # vs)"
  proof (intro links_cong)
    fix x assume "x \<in> set (butlast (n # vs))"
    then have "x \<in> set zs" using v by (metis butlast_snoc)
    then show "(nx(b := n, h := b)) x = nx x" using d by auto
  next
    fix x assume x: "x \<in> set (tl (n # vs))"
    then have "x \<in> set (zs @ [h])" "x \<noteq> n" using v d by (cases zs; auto)+
    then show "(pv(b := h, n := b)) x = pv x" using d by auto
  qed
  then show ?thesis using * v d \<open>n \<noteq> b\<close> by auto
qed

lemma links_rev: "links pv nx (rev l) = links nx pv l"
proof (induction nx pv l rule: links.induct)
  case (1 nx pv x y r)
  have "links pv nx (rev (x # y # r)) \<longleftrightarrow> links pv nx (rev r @ [y]) \<and> links pv nx [y, x]"
    using links_append [of pv nx "rev r" y "[x]"] by simp
  with 1 show ?case by auto
qed auto

section \<open>Invariant and abstract view\<close>

definition nexts :: "'a bio_scheme \<Rightarrow> nat \<Rightarrow> nat" where
  "nexts s i = b_next (bufs s i)"

definition prevs :: "'a bio_scheme \<Rightarrow> nat \<Rightarrow> nat" where
  "prevs s i = b_prev (bufs s i)"

definition lru :: "'a bio_scheme \<Rightarrow> nat list \<Rightarrow> bool" where
  "lru s bs \<longleftrightarrow> links (nexts s) (prevs s) (HEAD # bs @ [HEAD]) \<and> distinct bs \<and> set bs = {0..<NBUF}"

text \<open>Buffer \<open>b\<close> is assigned to block \<open>n\<close>; the buffer of a block.\<close>

definition bhas :: "'a bio_scheme \<Rightarrow> uint32 \<Rightarrow> nat \<Rightarrow> bool" where
  "bhas s n b \<longleftrightarrow> b < NBUF \<and> b_dev (bufs s b) = ROOTDEV \<and> b_blockno (bufs s b) = n"

definition bfind :: "'a bio_scheme \<Rightarrow> uint32 \<Rightarrow> nat option" where
  "bfind s n = find (bhas s n) [0..<NBUF]"

text \<open>
  Every buffer is on the list once; a block has at most one buffer; buffers in use hold
  valid data of the root device; buffers not in use are unlocked and agree with the disk.
\<close>

definition buf_ok :: "(uint32 \<Rightarrow> block) \<Rightarrow> buf \<Rightarrow> bool" where
  "buf_ok d x \<longleftrightarrow>
     (b_valid x \<noteq> 0 \<or> b_refcnt x \<noteq> 0 \<longrightarrow> b_dev x = ROOTDEV) \<and>
     (b_refcnt x \<noteq> 0 \<longrightarrow> b_valid x \<noteq> 0) \<and>
     (b_refcnt x = 0 \<longrightarrow> sl_locked (b_lock x) = 0 \<and> (b_valid x \<noteq> 0 \<longrightarrow> b_data x = d (b_blockno x)))"

definition buniq :: "'a bio_scheme \<Rightarrow> bool" where
  "buniq s \<longleftrightarrow> (\<forall>n b c. bhas s n b \<longrightarrow> bhas s n c \<longrightarrow> b = c)"

definition binv :: "'a bio_scheme \<Rightarrow> bool" where
  "binv s \<longleftrightarrow> (\<exists>bs. lru s bs) \<and> buniq s \<and> (\<forall>b < NBUF. buf_ok (dsk s) (bufs s b))"

text \<open>What the cache shows of a block: its contents, its references and its lock.\<close>

definition bview :: "'a bio_scheme \<Rightarrow> uint32 \<Rightarrow> block" where
  "bview s n = (case bfind s n of
     Some b \<Rightarrow> if b_valid (bufs s b) \<noteq> 0 then b_data (bufs s b) else dsk s n
   | None \<Rightarrow> dsk s n)"

definition brefs :: "'a bio_scheme \<Rightarrow> uint32 \<Rightarrow> nat" where
  "brefs s n = (case bfind s n of Some b \<Rightarrow> unat (b_refcnt (bufs s b)) | None \<Rightarrow> 0)"

definition blocked :: "'a bio_scheme \<Rightarrow> uint32 \<Rightarrow> bool" where
  "blocked s n = (case bfind s n of Some b \<Rightarrow> sl_locked (b_lock (bufs s b)) \<noteq> 0 | None \<Rightarrow> False)"

text \<open>Some buffer is not in use; the running process holds buffer \<open>b\<close>, for block \<open>n\<close>.\<close>

definition bunused :: "'a bio_scheme \<Rightarrow> bool" where
  "bunused s \<longleftrightarrow> list_ex (\<lambda>b. b_refcnt (bufs s b) = 0) [0..<NBUF]"

definition bheld :: "'a bio_scheme \<Rightarrow> nat \<Rightarrow> uint32 \<Rightarrow> bool" where
  "bheld s b n \<longleftrightarrow> bhas s n b \<and> b_valid (bufs s b) \<noteq> 0 \<and> b_refcnt (bufs s b) \<noteq> 0 \<and>
     sl_locked (b_lock (bufs s b)) \<noteq> 0 \<and> sl_pid (b_lock (bufs s b)) = mypid s"

definition bio_rest :: "'a bio_scheme \<Rightarrow> 'a bio_scheme \<Rightarrow> bool" where
  "bio_rest s t \<longleftrightarrow> same_procs s t \<and> bio.more t = bio.more s"

lemma bio_rest_refl [simp]: "bio_rest s s"
  by (simp add: bio_rest_def)

lemma bio_rest_trans: "bio_rest s t \<Longrightarrow> bio_rest t u \<Longrightarrow> bio_rest s u"
  by (auto simp: bio_rest_def intro: same_procs_trans)

lemma bfind_Some: "bfind s n = Some b \<Longrightarrow> bhas s n b"
  by (auto simp: bfind_def find_Some_iff)

lemma bfind_eq: "buniq s \<Longrightarrow> bhas s n b \<Longrightarrow> bfind s n = Some b"
proof (cases "bfind s n")
  case None
  moreover assume "bhas s n b"
  ultimately show ?thesis by (auto simp: bfind_def find_None_iff bhas_def)
next
  case (Some c)
  moreover assume "buniq s" and "bhas s n b"
  ultimately show ?thesis using bfind_Some [of s n c] by (auto simp: buniq_def)
qed

lemma bfind_None: "bfind s n = None \<longleftrightarrow> (\<forall>b. \<not> bhas s n b)"
  by (auto simp: bfind_def find_None_iff bhas_def)

lemma upd_buf_simps [simp]:
  "bufs (upd_buf b f s) = (bufs s)(b := f (bufs s b))" "dsk (upd_buf b f s) = dsk s"
  "dwrites (upd_buf b f s) = dwrites s" "bio.more (upd_buf b f s) = bio.more s"
  "ptable (upd_buf b f s) = ptable s" "cpu_proc (upd_buf b f s) = cpu_proc s"
  "hart (upd_buf b f s) = hart s" "initproc (upd_buf b f s) = initproc s"
  "nextpid (upd_buf b f s) = nextpid s" "mem (upd_buf b f s) = mem s"
  "freelist (upd_buf b f s) = freelist s" "kend (upd_buf b f s) = kend s"
  by (simp_all add: upd_buf_def)

lemma running_upd_buf [simp]:
  "running (upd_buf b f s) = running s" "me (upd_buf b f s) = me s"
  "mypid (upd_buf b f s) = mypid s"
  by (simp_all add: running_def me_def mypid_def)

lemma bio_rest_upd_buf [simp]: "bio_rest s (upd_buf b f s)"
  by (simp add: bio_rest_def same_procs_def)

lemma upd_buf_twice: "upd_buf b f (upd_buf b g s) = upd_buf b (\<lambda>x. f (g x)) s"
  by (simp add: upd_buf_def)

lemma block_lock_simps [simp]:
  "sl_get (block_lock b) s = b_lock (bufs s b)"
  "sl_upd (block_lock b) f = upd_buf b (\<lambda>x. x\<lparr>b_lock := f (b_lock x)\<rparr>)"
  "sl_chan (block_lock b) = ChBufLock b"
  by (simp_all add: block_lock_def)

section \<open>The scans\<close>

lemma bscan_links:
  assumes "links (\<lambda>i. go (bufs s i)) pv (x # bs @ [HEAD])" and "HEAD \<notin> set bs" and "length bs < k"
  shows "bscan k go test (go (bufs s x)) s = Ok (find (\<lambda>b. test (bufs s b)) bs, s)"
  using assms
proof (induction bs arbitrary: x k)
  case Nil
  then show ?case by (cases k) (simp_all add: krun)
next
  case (Cons b bs)
  then obtain j where k: "k = Suc j" by (cases k) auto
  have "bscan j go test (go (bufs s b)) s = Ok (find (\<lambda>b. test (bufs s b)) bs, s)"
    using Cons.prems k by (intro Cons.IH) auto
  with Cons.prems k show ?case by (auto simp: krun)
qed

declare bscan.simps [simp del]

lemma lru_length: "lru s bs \<Longrightarrow> length bs = NBUF"
  by (metis lru_def card_atLeastLessThan diff_zero distinct_card)

lemma lru_HEAD: "lru s bs \<Longrightarrow> HEAD \<notin> set bs"
  by (simp add: lru_def)

lemma scan_next:
  assumes "lru s bs"
  shows "bscan (Suc NBUF) b_next test (b_next (bufs s HEAD)) s = Ok (find (\<lambda>b. test (bufs s b)) bs, s)"
  using assms lru_length [OF assms] lru_HEAD [OF assms]
  by (intro bscan_links [where pv = "prevs s"]) (simp_all add: lru_def nexts_def [abs_def])

lemma scan_prev:
  assumes "lru s bs"
  shows "bscan (Suc NBUF) b_prev test (b_prev (bufs s HEAD)) s = Ok (find (\<lambda>b. test (bufs s b)) (rev bs), s)"
proof (rule bscan_links [where pv = "nexts s"])
  have "links (nexts s) (prevs s) (HEAD # bs @ [HEAD])" using assms by (simp add: lru_def)
  then show "links (\<lambda>i. b_prev (bufs s i)) (nexts s) (HEAD # rev bs @ [HEAD])"
    using links_rev [of "prevs s" "nexts s" "HEAD # bs @ [HEAD]"] by (simp add: prevs_def [abs_def])
qed (use lru_length [OF assms] lru_HEAD [OF assms] in simp_all)

lemma find_cached:
  assumes "lru s bs" and "buniq s"
  shows "find (\<lambda>b. b_dev (bufs s b) = ROOTDEV \<and> b_blockno (bufs s b) = n) bs = bfind s n"
proof (cases "bfind s n")
  case None
  then have "\<not> (\<exists>b. b \<in> set bs \<and> b_dev (bufs s b) = ROOTDEV \<and> b_blockno (bufs s b) = n)"
    using assms(1) by (auto simp: bfind_None bhas_def lru_def)
  then show ?thesis using None by (simp add: find_None_iff)
next
  case (Some b)
  then have b: "bhas s n b" by (rule bfind_Some)
  then have "find (\<lambda>b. b_dev (bufs s b) = ROOTDEV \<and> b_blockno (bufs s b) = n) bs \<noteq> None"
    using assms(1) by (auto simp: bhas_def find_None_iff lru_def)
  then obtain c where c: "find (\<lambda>b. b_dev (bufs s b) = ROOTDEV \<and> b_blockno (bufs s b) = n) bs = Some c"
    by blast
  then have "bhas s n c" using assms(1) by (auto dest!: find_SomeD simp: bhas_def lru_def)
  with b c Some assms(2) show ?thesis by (auto simp: buniq_def)
qed

lemma find_unused:
  assumes "lru s bs" and "bunused s"
  obtains b where "find (\<lambda>b. b_refcnt (bufs s b) = 0) (rev bs) = Some b" "b < NBUF" "b_refcnt (bufs s b) = 0"
proof (cases "find (\<lambda>b. b_refcnt (bufs s b) = 0) (rev bs)")
  case None
  then show ?thesis using assms by (auto simp: find_None_iff lru_def bunused_def list_ex_iff)
next
  case (Some b)
  then have "b \<in> set (rev bs) \<and> b_refcnt (bufs s b) = 0" by (rule find_SomeD)
  then show ?thesis using that Some assms(1) by (auto simp: lru_def)
qed

section \<open>The operations on the abstract view\<close>

lemma sleeplock_eq [simp]: "k\<lparr>sl_locked := a, sl_pid := c\<rparr> = \<lparr>sl_locked = a, sl_pid = c\<rparr>"
  by (cases k) simp

lemma acquiresleep_run:
  assumes "running s" and "sl_locked (b_lock (bufs s b)) = 0"
  shows "acquiresleep (block_lock b) s =
    Ok ((), upd_buf b (\<lambda>x. x\<lparr>b_lock := \<lparr>sl_locked = 1, sl_pid = mypid s\<rparr>\<rparr>) s)"
  using assms
  by (simp add: acquiresleep_def krun upd_buf_twice mypid_def [symmetric])

lemma holdingsleep_run [krun]:
  "running s \<Longrightarrow> kbind (holdingsleep (block_lock b)) g s =
    g (sl_locked (b_lock (bufs s b)) \<noteq> 0 \<and> sl_pid (b_lock (bufs s b)) = mypid s) s"
  by (simp add: holdingsleep_def krun mypid_def)

lemma bget_run:
  assumes "lru s bs" and "buniq s"
  shows "bget ROOTDEV n s = (case bfind s n of
      Some b \<Rightarrow> kthen (acquiresleep (block_lock b)) (kret b) (upd_buf b (\<lambda>x. x\<lparr>b_refcnt := b_refcnt x + 1\<rparr>) s)
    | None \<Rightarrow> (case find (\<lambda>b. b_refcnt (bufs s b) = 0) (rev bs) of
        Some b \<Rightarrow> kthen (acquiresleep (block_lock b)) (kret b)
          (upd_buf b (\<lambda>x. x\<lparr>b_dev := ROOTDEV, b_blockno := n, b_valid := 0, b_refcnt := 1\<rparr>) s)
      | None \<Rightarrow> Panic ''bget: no buffers''))"
proof -
  have 1: "kbind (bscan (Suc NBUF) b_next (\<lambda>x. b_dev x = ROOTDEV \<and> b_blockno x = n)
      (b_next (bufs s HEAD))) f s = f (bfind s n) s" for f :: "nat option \<Rightarrow> ('a bio_scheme, nat) kop"
    using scan_next [OF assms(1)] by (simp only: kbind_Ok find_cached [OF assms])
  have 2: "kbind (bscan (Suc NBUF) b_prev (\<lambda>x. b_refcnt x = 0) (b_prev (bufs s HEAD))) f s =
      f (find (\<lambda>b. b_refcnt (bufs s b) = 0) (rev bs)) s" for f :: "nat option \<Rightarrow> ('a bio_scheme, nat) kop"
    using scan_prev [OF assms(1)] by (simp only: kbind_Ok)
  show ?thesis
    by (cases "bfind s n"; cases "find (\<lambda>b. b_refcnt (bufs s b) = 0) (rev bs)")
      (simp_all add: bget_def 1 2 krun upd_buf_twice)
qed

lemma buf_okD:
  assumes "binv s" and "b < NBUF"
  shows "b_refcnt (bufs s b) = 0 \<Longrightarrow> sl_locked (b_lock (bufs s b)) = 0"
    and "b_refcnt (bufs s b) = 0 \<Longrightarrow> b_valid (bufs s b) \<noteq> 0 \<Longrightarrow>
      b_data (bufs s b) = dsk s (b_blockno (bufs s b))"
    and "b_refcnt (bufs s b) \<noteq> 0 \<Longrightarrow> b_valid (bufs s b) \<noteq> 0 \<and> b_dev (bufs s b) = ROOTDEV"
    and "b_valid (bufs s b) \<noteq> 0 \<Longrightarrow> b_dev (bufs s b) = ROOTDEV"
  using assms by (auto simp: binv_def buf_ok_def)

text \<open>
  A successful \<open>bread\<close> replaces one buffer: the block's own, or an unused one when the block
  is not cached.
\<close>

definition reads_as :: "'a bio_scheme \<Rightarrow> uint32 \<Rightarrow> nat \<Rightarrow> buf \<Rightarrow> bool" where
  "reads_as s n b x \<longleftrightarrow> b < NBUF \<and>
     (bfind s n = Some b \<or> bfind s n = None \<and> b_refcnt (bufs s b) = 0) \<and>
     b_dev x = ROOTDEV \<and> b_blockno x = n \<and> b_valid x \<noteq> 0 \<and> b_data x = bview s n \<and>
     b_refcnt x = of_nat (Suc (brefs s n)) \<and> b_lock x = \<lparr>sl_locked = 1, sl_pid = mypid s\<rparr> \<and>
     b_next x = b_next (bufs s b) \<and> b_prev x = b_prev (bufs s b)"

lemma bread_state:
  assumes inv: "binv s" and "running s" and "\<not> blocked s n"
    and "0 < brefs s n \<or> bunused s"
  obtains b x where "bread ROOTDEV n s = Ok (b, upd_buf b (\<lambda>_. x) s)" and "reads_as s n b x"
proof -
  obtain bs where bs: "lru s bs" and u: "buniq s" using inv by (auto simp: binv_def)
  show ?thesis
  proof (cases "bfind s n")
    case (Some b)
    let ?y = "(bufs s b)\<lparr>b_refcnt := b_refcnt (bufs s b) + 1, b_lock := \<lparr>sl_locked = 1, sl_pid = mypid s\<rparr>\<rparr>"
    let ?x = "if b_valid (bufs s b) = 0 then ?y\<lparr>b_data := dsk s n, b_valid := 1\<rparr> else ?y"
    have h: "bhas s n b" using Some by (rule bfind_Some)
    have "sl_locked (b_lock (bufs s b)) = 0" using assms(3) Some by (simp add: blocked_def)
    then have "bget ROOTDEV n s = Ok (b, upd_buf b (\<lambda>_. ?y) s)"
      using assms(2) Some
      by (simp add: bget_run [OF bs u] kthen_Ok [OF acquiresleep_run] krun upd_buf_twice) (simp add: upd_buf_def)
    then have "bread ROOTDEV n s = Ok (b, upd_buf b (\<lambda>_. ?x) s)"
      using h by (simp add: bread_def kbind_Ok krun virtio_disk_rw_def upd_buf_twice bhas_def)
    moreover have "reads_as s n b ?x"
      using Some h by (simp add: reads_as_def bhas_def bview_def brefs_def)
    ultimately show ?thesis by (rule that)
  next
    case None
    then have "bunused s" using assms(4) by (simp add: brefs_def)
    then obtain b where b: "find (\<lambda>b. b_refcnt (bufs s b) = 0) (rev bs) = Some b" "b < NBUF"
      "b_refcnt (bufs s b) = 0" using find_unused [OF bs] by blast
    let ?x = "(bufs s b)\<lparr>b_dev := ROOTDEV, b_blockno := n, b_refcnt := 1,
      b_lock := \<lparr>sl_locked = 1, sl_pid = mypid s\<rparr>, b_data := dsk s n, b_valid := 1\<rparr>"
    have "sl_locked (b_lock (bufs s b)) = 0" using buf_okD(1) [OF inv b(2,3)] .
    then have "bread ROOTDEV n s = Ok (b, upd_buf b (\<lambda>_. ?x) s)"
      using assms(2) None b
      by (simp add: bread_def kbind_def [of "bget ROOTDEV n"] bget_run [OF bs u]
          kthen_Ok [OF acquiresleep_run] krun virtio_disk_rw_def upd_buf_twice) (simp add: upd_buf_def)
    moreover have "reads_as s n b ?x"
      using None b by (simp add: reads_as_def bview_def brefs_def)
    ultimately show ?thesis by (rule that)
  qed
qed

lemma lru_keep:
  "b_next x = b_next (bufs s b) \<Longrightarrow> b_prev x = b_prev (bufs s b) \<Longrightarrow> lru (upd_buf b (\<lambda>_. x) s) bs = lru s bs"
proof -
  assume "b_next x = b_next (bufs s b)" and "b_prev x = b_prev (bufs s b)"
  then have "nexts (upd_buf b (\<lambda>_. x) s) = nexts s" and "prevs (upd_buf b (\<lambda>_. x) s) = prevs s"
    by (simp_all add: fun_eq_iff nexts_def prevs_def)
  then show ?thesis by (simp add: lru_def)
qed

lemma reads_bhas:
  "reads_as s n b x \<Longrightarrow> bhas (upd_buf b (\<lambda>_. x) s) m c \<longleftrightarrow> (if c = b then m = n else bhas s m c)"
  by (auto simp: bhas_def reads_as_def)

lemma reads_buniq:
  assumes "buniq s" and r: "reads_as s n b x"
  shows "buniq (upd_buf b (\<lambda>_. x) s)"
proof -
  have "c = b" if "bhas s n c" for c
    using that r bfind_eq [OF assms(1) that] by (auto simp: reads_as_def)
  then show ?thesis using assms(1) by (auto simp: buniq_def reads_bhas [OF r] split: if_splits)
qed

lemma reads_bfind:
  assumes u: "buniq s" and r: "reads_as s n b x"
  shows "bfind (upd_buf b (\<lambda>_. x) s) m = (if m = n then Some b else if bfind s m = Some b then None else bfind s m)"
    (is "bfind ?t m = _")
proof -
  have u': "buniq ?t" using assms by (rule reads_buniq)
  show ?thesis
  proof (cases "m = n")
    case True
    then show ?thesis using bfind_eq [OF u', of n b] by (simp add: reads_bhas [OF r])
  next
    case False
    show ?thesis
    proof (cases "bfind s m")
      case None
      then have "\<not> bhas ?t m e" for e using False by (auto simp: bfind_None reads_bhas [OF r])
      then show ?thesis using False None bfind_None [of ?t m] by simp
    next
      case (Some c)
      then have c: "bhas s m c" by (rule bfind_Some)
      show ?thesis
      proof (cases "c = b")
        case True
        have "\<not> bhas ?t m e" for e
          using False True c u by (auto simp: reads_bhas [OF r] buniq_def)
        then show ?thesis using False Some True bfind_None [of ?t m] by simp
      next
        case c': False
        then show ?thesis
          using False Some c bfind_eq [OF u', of m c] by (simp add: reads_bhas [OF r])
      qed
    qed
  qed
qed

lemma bfind_refcnt0:
  assumes "binv s" and "bfind s m = Some b" and "b_refcnt (bufs s b) = 0"
  shows "bview s m = dsk s m" and "brefs s m = 0" and "\<not> blocked s m"
proof -
  have h: "bhas s m b" using assms(2) by (rule bfind_Some)
  then show "bview s m = dsk s m" "brefs s m = 0" "\<not> blocked s m"
    using assms(2,3) buf_okD(1,2) [OF assms(1), of b] by (auto simp: bhas_def bview_def brefs_def blocked_def)
qed

lemma brefs_0_clean:
  assumes "binv s" and "brefs s m = 0"
  shows "bview s m = dsk s m" and "\<not> blocked s m"
proof -
  consider "bfind s m = None" | b where "bfind s m = Some b" "b_refcnt (bufs s b) = 0"
    using assms(2) by (cases "bfind s m") (auto simp: brefs_def unat_eq_0)
  then show "bview s m = dsk s m" and "\<not> blocked s m"
    using bfind_refcnt0 [OF assms(1)] by (cases; simp add: bview_def blocked_def)+
qed

lemma bheld_blocked: "binv s \<Longrightarrow> bheld s r m \<Longrightarrow> blocked s m \<and> 0 < brefs s m \<and> bfind s m = Some r"
  using bfind_eq [of s m r] by (auto simp: bheld_def binv_def blocked_def brefs_def unat_gt_0)

lemma bheld_view: "binv s \<Longrightarrow> bheld s r m \<Longrightarrow> b_data (bufs s r) = bview s m \<and> b_blockno (bufs s r) = m"
  using bfind_eq [of s m r] by (auto simp: bheld_def binv_def bview_def bhas_def)

lemma reads_refcnt:
  "reads_as s n b x \<Longrightarrow> Suc (brefs s n) < 2 ^ 32 \<Longrightarrow> unat (b_refcnt x) = Suc (brefs s n)"
  by (simp add: reads_as_def unat_of_nat del: of_nat_Suc)

lemma reads_binv:
  assumes inv: "binv s" and r: "reads_as s n b x" and bound: "Suc (brefs s n) < 2 ^ 32"
  shows "binv (upd_buf b (\<lambda>_. x) s)"
proof -
  obtain bs where "lru s bs" using inv by (auto simp: binv_def)
  then have "lru (upd_buf b (\<lambda>_. x) s) bs" using r by (simp add: lru_keep reads_as_def)
  moreover have "unat (b_refcnt x) = Suc (brefs s n)"
    using r bound by (rule reads_refcnt)
  then have "buf_ok (dsk s) x" using r by (auto simp: reads_as_def buf_ok_def)
  ultimately show ?thesis
    using inv reads_buniq [OF _ r] by (auto simp: binv_def)
qed

lemma reads_abs:
  assumes inv: "binv s" and r: "reads_as s n b x" and bound: "Suc (brefs s n) < 2 ^ 32"
  shows "bview (upd_buf b (\<lambda>_. x) s) m = bview s m"
    and "brefs (upd_buf b (\<lambda>_. x) s) m = (if m = n then Suc (brefs s n) else brefs s m)"
    and "blocked (upd_buf b (\<lambda>_. x) s) m \<longleftrightarrow> m = n \<or> blocked s m"
proof -
  have u: "buniq s" using inv by (simp add: binv_def)
  have un: "unat (b_refcnt x) = Suc (brefs s n)"
    using r bound by (rule reads_refcnt)
  show "bview (upd_buf b (\<lambda>_. x) s) m = bview s m"
    and "brefs (upd_buf b (\<lambda>_. x) s) m = (if m = n then Suc (brefs s n) else brefs s m)"
    and "blocked (upd_buf b (\<lambda>_. x) s) m \<longleftrightarrow> m = n \<or> blocked s m"
  proof (atomize (full), cases "m = n")
    case True
    then show "bview (upd_buf b (\<lambda>_. x) s) m = bview s m \<and>
      brefs (upd_buf b (\<lambda>_. x) s) m = (if m = n then Suc (brefs s n) else brefs s m) \<and>
      blocked (upd_buf b (\<lambda>_. x) s) m = (m = n \<or> blocked s m)"
      using r un reads_bfind [OF u r, of m]
      by (simp add: bview_def [of "upd_buf b (\<lambda>_. x) s"] brefs_def [of "upd_buf b (\<lambda>_. x) s"]
          blocked_def [of "upd_buf b (\<lambda>_. x) s"]) (simp add: reads_as_def)
  next
    case False
    have "bfind s n = Some b \<or> b_refcnt (bufs s b) = 0" using r by (auto simp: reads_as_def)
    then have "bfind s m = Some b \<Longrightarrow> b_refcnt (bufs s b) = 0"
      using False bfind_Some [of s m b] bfind_Some [of s n b] by (auto simp: bhas_def)
    then show "bview (upd_buf b (\<lambda>_. x) s) m = bview s m \<and>
      brefs (upd_buf b (\<lambda>_. x) s) m = (if m = n then Suc (brefs s n) else brefs s m) \<and>
      blocked (upd_buf b (\<lambda>_. x) s) m = (m = n \<or> blocked s m)"
      using False reads_bfind [OF u r, of m] bfind_refcnt0 [OF inv, of m b]
      by (auto simp: bview_def brefs_def blocked_def split: option.splits)
  qed
qed

section \<open>The abstract cache\<close>

text \<open>
  The contract of the cache: per block its contents (\<open>c_view\<close>), the contents of the disk, the
  reference count and whether it is locked, and the sequence of disk writes.
\<close>

record acache =
  c_view :: "uint32 \<Rightarrow> block"
  c_disk :: "uint32 \<Rightarrow> block"
  c_refs :: "uint32 \<Rightarrow> nat"
  c_lock :: "uint32 \<Rightarrow> bool"
  c_writes :: "(uint32 \<times> block) list"

definition babs :: "'a bio_scheme \<Rightarrow> acache" where
  "babs s = \<lparr>c_view = bview s, c_disk = dsk s, c_refs = brefs s, c_lock = blocked s, c_writes = dwrites s\<rparr>"

definition a_bread :: "uint32 \<Rightarrow> acache \<Rightarrow> acache" where
  "a_bread n a = a\<lparr>c_refs := (c_refs a)(n := Suc (c_refs a n)), c_lock := (c_lock a)(n := True)\<rparr>"

definition a_bset :: "uint32 \<Rightarrow> block \<Rightarrow> acache \<Rightarrow> acache" where
  "a_bset n d a = a\<lparr>c_view := (c_view a)(n := d)\<rparr>"

definition a_bwrite :: "uint32 \<Rightarrow> acache \<Rightarrow> acache" where
  "a_bwrite n a = a\<lparr>c_disk := (c_disk a)(n := c_view a n), c_writes := c_writes a @ [(n, c_view a n)]\<rparr>"

definition a_brelse :: "uint32 \<Rightarrow> acache \<Rightarrow> acache" where
  "a_brelse n a = a\<lparr>c_refs := (c_refs a)(n := c_refs a n - 1), c_lock := (c_lock a)(n := False)\<rparr>"

definition a_bpin :: "uint32 \<Rightarrow> acache \<Rightarrow> acache" where
  "a_bpin n a = a\<lparr>c_refs := (c_refs a)(n := Suc (c_refs a n))\<rparr>"

definition a_bunpin :: "uint32 \<Rightarrow> acache \<Rightarrow> acache" where
  "a_bunpin n a = a\<lparr>c_refs := (c_refs a)(n := c_refs a n - 1)\<rparr>"

text \<open>The buffers held for other blocks stay held.\<close>

definition keeps_others :: "uint32 \<Rightarrow> 'a bio_scheme \<Rightarrow> 'a bio_scheme \<Rightarrow> bool" where
  "keeps_others n s t \<longleftrightarrow> (\<forall>r m. m \<noteq> n \<longrightarrow> bheld s r m \<longrightarrow> bheld t r m)"

lemma bread_refines:
  assumes inv: "binv s" and "running s" and "\<not> blocked s n"
    and "0 < brefs s n \<or> bunused s" and bound: "Suc (brefs s n) < 2 ^ 32"
  shows "wp (bread ROOTDEV n) (\<lambda>r t. binv t \<and> bio_rest s t \<and> bheld t r n \<and> keeps_others n s t \<and>
    babs t = a_bread n (babs s)) s"
proof -
  obtain b x where b: "bread ROOTDEV n s = Ok (b, upd_buf b (\<lambda>_. x) s)" and r: "reads_as s n b x"
    using bread_state [OF assms(1-4)] by blast
  have "b_refcnt x \<noteq> 0" using reads_refcnt [OF r bound] by auto
  then have "bheld (upd_buf b (\<lambda>_. x) s) b n"
    using r by (simp add: bheld_def bhas_def reads_as_def)
  moreover have "r' \<noteq> b" if "m \<noteq> n" "bheld s r' m" for r' m
    using that r bheld_blocked [OF inv that(2)] bfind_Some [of s n b]
    by (auto simp: reads_as_def bheld_def bhas_def)
  then have "keeps_others n s (upd_buf b (\<lambda>_. x) s)"
    by (auto simp: keeps_others_def bheld_def bhas_def)
  moreover have "babs (upd_buf b (\<lambda>_. x) s) = a_bread n (babs s)"
    using reads_abs [OF inv r bound] by (auto simp: babs_def a_bread_def fun_eq_iff)
  ultimately show ?thesis using b reads_binv [OF inv r bound] by (intro wpI [where m = "bread ROOTDEV n"]) auto
qed

text \<open>Updates of a held buffer that keep its block and its place in the list.\<close>

definition keeps_id :: "(buf \<Rightarrow> buf) \<Rightarrow> bool" where
  "keeps_id f \<longleftrightarrow> (\<forall>x. b_dev (f x) = b_dev x \<and> b_blockno (f x) = b_blockno x \<and>
     b_next (f x) = b_next x \<and> b_prev (f x) = b_prev x)"

lemma keep_upd:
  assumes "keeps_id f"
  shows "bhas (upd_buf r f s) = bhas s" and "bfind (upd_buf r f s) = bfind s"
    and "buniq (upd_buf r f s) = buniq s" and "lru (upd_buf r f s) bs = lru s bs"
proof -
  show h: "bhas (upd_buf r f s) = bhas s" using assms by (auto simp: bhas_def fun_eq_iff keeps_id_def)
  then show "bfind (upd_buf r f s) = bfind s" "buniq (upd_buf r f s) = buniq s"
    by (intro ext, simp add: bfind_def, simp add: buniq_def)
  have "nexts (upd_buf r f s) = nexts s" "prevs (upd_buf r f s) = prevs s"
    using assms by (auto simp: fun_eq_iff nexts_def prevs_def keeps_id_def)
  then show "lru (upd_buf r f s) bs = lru s bs" by (simp add: lru_def)
qed

lemma keep_binv:
  "keeps_id f \<Longrightarrow> binv s \<Longrightarrow> buf_ok (dsk s) (f (bufs s r)) \<Longrightarrow> binv (upd_buf r f s)"
  by (auto simp: binv_def keep_upd)

lemma keep_others:
  assumes "binv s" and "bheld s r n"
  shows "keeps_others n s (upd_buf r f s)"
proof -
  have "r' \<noteq> r" if "m \<noteq> n" "bheld s r' m" for r' m
    using that assms by (auto simp: bheld_def bhas_def)
  then show ?thesis by (auto simp: keeps_others_def bheld_def bhas_def)
qed

lemma keep_abs:
  assumes "keeps_id f" and "binv s" and "bheld s r n" and "b_valid (f (bufs s r)) \<noteq> 0"
  shows "babs (upd_buf r f s) = \<lparr>c_view = (bview s)(n := b_data (f (bufs s r))), c_disk = dsk s,
    c_refs = (brefs s)(n := unat (b_refcnt (f (bufs s r)))),
    c_lock = (blocked s)(n := sl_locked (b_lock (f (bufs s r))) \<noteq> 0), c_writes = dwrites s\<rparr>"
proof -
  have n: "bfind s n = Some r" using bheld_blocked [OF assms(2,3)] by simp
  have o: "bfind s m \<noteq> Some r" if "m \<noteq> n" for m
    using that n bfind_Some [of s m r] bfind_Some [of s n r] by (auto simp: bhas_def)
  show ?thesis
    using n o assms(4)
    by (auto simp: babs_def fun_eq_iff bview_def brefs_def blocked_def keep_upd [OF assms(1)]
        split: option.splits)
qed

lemma bset_refines:
  assumes "binv s" and "bheld s r n"
  shows "wp (bset r d) (\<lambda>_ t. binv t \<and> bio_rest s t \<and> bheld t r n \<and> keeps_others n s t \<and>
    babs t = a_bset n d (babs s)) s"
proof -
  let ?f = "\<lambda>x. x\<lparr>b_data := d\<rparr>"
  have k: "keeps_id ?f" by (simp add: keeps_id_def)
  have "binv (upd_buf r ?f s)"
    using assms buf_okD [OF assms(1), of r] by (intro keep_binv k) (auto simp: buf_ok_def bheld_def bhas_def)
  moreover have "bheld (upd_buf r ?f s) r n" using assms(2) by (auto simp: bheld_def bhas_def)
  moreover have "babs (upd_buf r ?f s) = a_bset n d (babs s)"
    using bheld_blocked [OF assms] assms(2)
    by (subst keep_abs [OF k assms]) (auto simp: babs_def a_bset_def fun_eq_iff bheld_def brefs_def blocked_def)
  ultimately show ?thesis using keep_others [OF assms] by (simp add: bset_def wp_mod)
qed

lemma bpin_refines:
  assumes "binv s" and "bheld s r n" and "Suc (brefs s n) < 2 ^ 32"
  shows "wp (bpin r) (\<lambda>_ t. binv t \<and> bio_rest s t \<and> bheld t r n \<and> keeps_others n s t \<and>
    babs t = a_bpin n (babs s)) s"
proof -
  let ?f = "\<lambda>x. x\<lparr>b_refcnt := b_refcnt x + 1\<rparr>"
  have k: "keeps_id ?f" by (simp add: keeps_id_def)
  have u: "unat (b_refcnt (bufs s r) + 1) = Suc (brefs s n)"
    using bheld_blocked [OF assms(1,2)] assms(3)
    by (simp add: brefs_def unat_plus_if')
  then have nz: "b_refcnt (bufs s r) + 1 \<noteq> 0" by (metis nat.distinct(1) unat_0)
  have "binv (upd_buf r ?f s)"
    using assms nz by (intro keep_binv k) (auto simp: buf_ok_def bheld_def bhas_def)
  moreover have "bheld (upd_buf r ?f s) r n" using assms(2) nz by (auto simp: bheld_def bhas_def)
  moreover have "babs (upd_buf r ?f s) = a_bpin n (babs s)"
    using bheld_blocked [OF assms(1,2)] assms(2) u
    by (subst keep_abs [OF k assms(1,2)])
      (auto simp: babs_def a_bpin_def fun_eq_iff bheld_def bview_def blocked_def)
  ultimately show ?thesis using keep_others [OF assms(1,2)] by (simp add: bpin_def wp_mod)
qed

lemma bunpin_refines:
  assumes "binv s" and "bheld s r n" and "2 \<le> brefs s n"
  shows "wp (bunpin r) (\<lambda>_ t. binv t \<and> bio_rest s t \<and> bheld t r n \<and> keeps_others n s t \<and>
    babs t = a_bunpin n (babs s)) s"
proof -
  let ?f = "\<lambda>x. x\<lparr>b_refcnt := b_refcnt x - 1\<rparr>"
  have k: "keeps_id ?f" by (simp add: keeps_id_def)
  have u: "unat (b_refcnt (bufs s r) - 1) = brefs s n - 1"
    using bheld_blocked [OF assms(1,2)] assms(3)
    by (auto simp: brefs_def unat_sub_if')
  then have nz: "b_refcnt (bufs s r) - 1 \<noteq> 0" using assms(3) by auto
  have "binv (upd_buf r ?f s)"
    using assms nz by (intro keep_binv k) (auto simp: buf_ok_def bheld_def bhas_def)
  moreover have "bheld (upd_buf r ?f s) r n" using assms(2) nz by (auto simp: bheld_def bhas_def)
  moreover have "babs (upd_buf r ?f s) = a_bunpin n (babs s)"
    using bheld_blocked [OF assms(1,2)] assms(2) u
    by (subst keep_abs [OF k assms(1,2)])
      (auto simp: babs_def a_bunpin_def fun_eq_iff bheld_def bview_def blocked_def)
  ultimately show ?thesis using keep_others [OF assms(1,2)] by (simp add: bunpin_def wp_mod)
qed

lemma disk_upd_simps [simp]:
  "bhas (s\<lparr>dsk := d, dwrites := w\<rparr>) = bhas s" "bfind (s\<lparr>dsk := d, dwrites := w\<rparr>) = bfind s"
  "mypid (s\<lparr>dsk := d, dwrites := w\<rparr>) = mypid s" "nexts (s\<lparr>dsk := d, dwrites := w\<rparr>) = nexts s"
  "prevs (s\<lparr>dsk := d, dwrites := w\<rparr>) = prevs s" "brefs (s\<lparr>dsk := d, dwrites := w\<rparr>) = brefs s"
  "blocked (s\<lparr>dsk := d, dwrites := w\<rparr>) = blocked s"
proof -
  show h: "bhas (s\<lparr>dsk := d, dwrites := w\<rparr>) = bhas s" by (simp add: bhas_def fun_eq_iff)
  show f: "bfind (s\<lparr>dsk := d, dwrites := w\<rparr>) = bfind s" by (intro ext) (simp add: bfind_def h)
  show "brefs (s\<lparr>dsk := d, dwrites := w\<rparr>) = brefs s" "blocked (s\<lparr>dsk := d, dwrites := w\<rparr>) = blocked s"
    by (intro ext, simp add: brefs_def f cong: option.case_cong)
      (intro ext, simp add: blocked_def f cong: option.case_cong)
qed (simp_all add: mypid_def me_def nexts_def prevs_def fun_eq_iff)

lemma bwrite_refines:
  assumes inv: "binv s" and "running s" and h: "bheld s r n"
  shows "wp (bwrite r) (\<lambda>_ t. binv t \<and> bio_rest s t \<and> bheld t r n \<and> keeps_others n s t \<and>
    babs t = a_bwrite n (babs s)) s"
proof -
  let ?t = "s\<lparr>dsk := (dsk s)(n := bview s n), dwrites := dwrites s @ [(n, bview s n)]\<rparr>"
  have hd: "bheld ?t r' m = bheld s r' m" for r' m by (simp add: bheld_def)
  have "bwrite r s = Ok ((), ?t)"
    using assms(2) h bheld_view [OF inv h] by (simp add: bwrite_def krun virtio_disk_rw_def bheld_def)
  moreover have "binv ?t"
  proof -
    have "buf_ok (dsk ?t) (bufs s b)" if b: "b < NBUF" for b
    proof -
      have ok: "buf_ok (dsk s) (bufs s b)" using inv b by (simp add: binv_def)
      have "b_blockno (bufs s b) \<noteq> n" if "b_refcnt (bufs s b) = 0" "b_valid (bufs s b) \<noteq> 0"
      proof
        assume "b_blockno (bufs s b) = n"
        then have "bhas s n b" using that b buf_okD(4) [OF inv b] by (simp add: bhas_def)
        then show False using that h inv by (auto simp: bheld_def binv_def buniq_def)
      qed
      with ok show ?thesis by (auto simp: buf_ok_def)
    qed
    then show ?thesis using inv by (auto simp: binv_def lru_def buniq_def)
  qed
  moreover have "babs ?t = a_bwrite n (babs s)"
  proof -
    have "bfind s n = Some r" "b_valid (bufs s r) \<noteq> 0"
      using bheld_blocked [OF inv h] h by (simp_all add: bheld_def)
    then have "bview ?t = bview s" using bheld_view [OF inv h]
      by (auto simp: bview_def fun_eq_iff split: option.splits)
    then show ?thesis by (simp add: babs_def a_bwrite_def)
  qed
  ultimately show ?thesis
    using h by (intro wpI [where m = "bwrite r"]) (auto simp: hd keeps_others_def bio_rest_def same_procs_def)
qed

text \<open>The moves of \<open>brelse\<close> on the list.\<close>

definition relinked :: "(nat \<Rightarrow> nat) \<Rightarrow> (nat \<Rightarrow> nat) \<Rightarrow> 'a bio_scheme \<Rightarrow> 'a bio_scheme" where
  "relinked nx pv s = s\<lparr>bufs := (\<lambda>i. (bufs s i)\<lparr>b_next := nx i, b_prev := pv i\<rparr>)\<rparr>"

lemma relinked_self: "relinked (nexts s) (prevs s) s = s"
  by (simp add: relinked_def nexts_def prevs_def)

lemma relinked_upd:
  "upd_buf b (\<lambda>x. x\<lparr>b_next := v\<rparr>) (relinked nx pv s) = relinked (nx(b := v)) pv s"
  "upd_buf b (\<lambda>x. x\<lparr>b_prev := v\<rparr>) (relinked nx pv s) = relinked nx (pv(b := v)) s"
  by (auto simp: upd_buf_def relinked_def fun_eq_iff)

lemma relinked_next [simp]:
  "b_next (bufs (relinked nx pv s) i) = nx i" "b_prev (bufs (relinked nx pv s) i) = pv i"
  "nexts (relinked nx pv s) = nx" "prevs (relinked nx pv s) = pv"
  by (simp_all add: relinked_def nexts_def prevs_def fun_eq_iff)

lemma unlink_run:
  "nx b \<noteq> b \<Longrightarrow> kthen (unlink_buf b) m (relinked nx pv s) = m (relinked (nx(pv b := nx b)) (pv(nx b := pv b)) s)"
  by (simp add: unlink_buf_def krun relinked_upd)

lemma link_run:
  "b \<noteq> HEAD \<Longrightarrow> kthen (link_self b) (link_head b) (relinked nx pv s) =
     Ok ((), relinked (nx(b := nx HEAD, HEAD := b)) (pv(b := HEAD, nx HEAD := b)) s)"
  by (simp add: link_self_def link_head_def krun relinked_upd fun_upd_twist)

lemma front_run:
  assumes "lru s bs" and "b < NBUF"
  obtains nx pv bs' where "kthen (unlink_buf b) (kthen (link_self b) (link_head b)) s = Ok ((), relinked nx pv s)"
    and "lru (relinked nx pv s) bs'"
proof -
  obtain xs ys where bs: "bs = xs @ b # ys"
    using assms by (metis atLeastLessThan_iff le0 lru_def split_list)
  have l: "links (nexts s) (prevs s) (HEAD # xs @ b # ys @ [HEAD])" and d: "distinct (HEAD # xs @ b # ys)"
    and set: "set bs = {0..<NBUF}"
    using assms(1) bs lru_HEAD [OF assms(1)] by (auto simp: lru_def)
  let ?nx = "(nexts s)(prevs s b := nexts s b)" and ?pv = "(prevs s)(nexts s b := prevs s b)"
  have nb: "nexts s b \<noteq> b"
    using l d links_append [of "nexts s" "prevs s" "HEAD # xs" b "ys @ [HEAD]"] by (cases ys) auto
  have l1: "links ?nx ?pv (HEAD # (xs @ ys) @ [HEAD])" using links_unlink [OF l d] by simp
  have l2: "links (?nx(b := ?nx HEAD, HEAD := b)) (?pv(b := HEAD, ?nx HEAD := b)) (HEAD # b # (xs @ ys) @ [HEAD])"
    using d by (intro links_front [OF l1]) auto
  let ?nx2 = "?nx(b := ?nx HEAD, HEAD := b)" and ?pv2 = "?pv(b := HEAD, ?nx HEAD := b)"
  have "kthen (unlink_buf b) (kthen (link_self b) (link_head b)) (relinked (nexts s) (prevs s) s) =
      Ok ((), relinked ?nx2 ?pv2 s)"
    using nb assms(2) by (simp add: unlink_run link_run)
  moreover have "lru (relinked ?nx2 ?pv2 s) (b # xs @ ys)"
    using l2 d set bs unfolding lru_def by (simp del: fun_upd_apply links.simps)
  ultimately show ?thesis using that [of ?nx2 ?pv2] by (simp add: relinked_self)
qed

lemma relinked_abs:
  "bhas (relinked nx pv s) = bhas s" "bfind (relinked nx pv s) = bfind s" "babs (relinked nx pv s) = babs s"
  "bheld (relinked nx pv s) = bheld s" "buniq (relinked nx pv s) = buniq s"
  "buf_ok d (bufs (relinked nx pv s) b) = buf_ok d (bufs s b)" "dsk (relinked nx pv s) = dsk s"
  "bio_rest u (relinked nx pv s) = bio_rest u s" "mypid (relinked nx pv s) = mypid s"
proof -
  show h: "bhas (relinked nx pv s) = bhas s" by (simp add: bhas_def relinked_def fun_eq_iff)
  show f: "bfind (relinked nx pv s) = bfind s" by (intro ext) (simp add: bfind_def h)
  show m: "mypid (relinked nx pv s) = mypid s" by (simp add: mypid_def me_def relinked_def)
  show "bheld (relinked nx pv s) = bheld s" "buniq (relinked nx pv s) = buniq s"
    by (simp_all add: bheld_def buniq_def h m fun_eq_iff) (simp add: relinked_def)
  show "buf_ok d (bufs (relinked nx pv s) b) = buf_ok d (bufs s b)" "dsk (relinked nx pv s) = dsk s"
    "bio_rest u (relinked nx pv s) = bio_rest u s"
    by (simp_all add: buf_ok_def relinked_def bio_rest_def same_procs_def)
  show "babs (relinked nx pv s) = babs s"
    by (auto simp: babs_def fun_eq_iff bview_def brefs_def blocked_def f)
      (simp_all add: relinked_def split: option.splits)
qed

lemma woken_abs:
  "bhas (s\<lparr>ptable := w\<rparr>) = bhas s" "bfind (s\<lparr>ptable := w\<rparr>) = bfind s" "babs (s\<lparr>ptable := w\<rparr>) = babs s"
  "lru (s\<lparr>ptable := w\<rparr>) = lru s" "binv (s\<lparr>ptable := w\<rparr>) = binv s"
proof -
  show h: "bhas (s\<lparr>ptable := w\<rparr>) = bhas s" by (simp add: bhas_def fun_eq_iff)
  show f: "bfind (s\<lparr>ptable := w\<rparr>) = bfind s" by (intro ext) (simp add: bfind_def h)
  show "babs (s\<lparr>ptable := w\<rparr>) = babs s"
    by (auto simp: babs_def fun_eq_iff bview_def brefs_def blocked_def f split: option.splits)
  show l: "lru (s\<lparr>ptable := w\<rparr>) = lru s"
    by (auto simp: fun_eq_iff lru_def nexts_def [abs_def] prevs_def [abs_def])
  show "binv (s\<lparr>ptable := w\<rparr>) = binv s" by (auto simp: binv_def l h buniq_def)
qed

lemma upd_buf_ptable: "(upd_buf b f s)\<lparr>ptable := w\<rparr> = upd_buf b f (s\<lparr>ptable := w\<rparr>)"
  by (simp add: upd_buf_def)

lemma woken_upd_buf [simp]: "woken ch (upd_buf b f s) = woken ch s"
  by (simp add: woken_def fun_eq_iff)

lemma brelse_refines:
  assumes inv: "binv s" and run: "running s" and h: "bheld s r n"
    and clean: "brefs s n = 1 \<Longrightarrow> bview s n = dsk s n"
  shows "wp (brelse r) (\<lambda>_ t. binv t \<and> bio_rest s t \<and> keeps_others n s t \<and>
    babs t = a_brelse n (babs s)) s"
proof -
  let ?w = "s\<lparr>ptable := woken (ChBufLock r) s\<rparr>"
  let ?f = "\<lambda>x. x\<lparr>b_lock := \<lparr>sl_locked = 0, sl_pid = 0\<rparr>, b_refcnt := b_refcnt x - 1\<rparr>"
  let ?t = "upd_buf r ?f ?w"
  have k: "keeps_id ?f" by (simp add: keeps_id_def)
  have r: "r < NBUF" using h by (simp add: bheld_def bhas_def)
  have run0: "brelse r s = kwhen (b_refcnt (bufs ?t r) = 0)
      (kthen (unlink_buf r) (kthen (link_self r) (link_head r))) ?t"
    using run h by (simp add: brelse_def krun releasesleep_def bheld_def upd_buf_ptable upd_buf_twice)
  have rest: "bio_rest s ?w" by (simp add: bio_rest_def same_procs_woken)
  then have rest_t: "bio_rest s ?t" using bio_rest_upd_buf bio_rest_trans by blast
  have pid: "mypid ?w = mypid s" using rest by (simp add: bio_rest_def same_procs_mypid)
  have hw: "bheld ?w r' m = bheld s r' m" for r' m by (simp add: bheld_def woken_abs pid)
  have invw: "binv ?w" using inv by (simp add: woken_abs)
  note bl = bheld_blocked [OF inv h] and bv = bheld_view [OF inv h]
  have rc: "unat (b_refcnt (bufs s r) - 1) = brefs s n - 1"
    using bl by (cases "unat (b_refcnt (bufs s r))") (auto simp: brefs_def unat_sub_if')
  have v: "bview ?w = bview s" "brefs ?w = brefs s" "blocked ?w = blocked s"
    using woken_abs(3) [of "woken (ChBufLock r) s" s] by (simp_all add: babs_def)
  have hn: "bheld ?w r n" using h hw by simp
  have abs: "babs ?t = a_brelse n (babs s)"
    using bv h rc
    by (subst keep_abs [OF k invw hn]) (simp_all add: babs_def a_brelse_def v bheld_def fun_eq_iff)
  have "buf_ok (dsk ?w) (?f (bufs ?w r))"
  proof (cases "b_refcnt (bufs s r) = 1")
    case True
    then have "bview s n = dsk s n" using clean bl by (simp add: brefs_def)
    then show ?thesis using h bv True by (auto simp: buf_ok_def bheld_def bhas_def)
  qed (use h in \<open>auto simp: buf_ok_def bheld_def bhas_def\<close>)
  then have inv_t: "binv ?t" using invw by (intro keep_binv k)
  have ot: "keeps_others n s ?t" using keep_others [OF invw, of r n ?f] h hw by (simp add: keeps_others_def)
  obtain bs where bs: "lru ?t bs" using inv_t by (auto simp: binv_def)
  obtain nx pv bs' where fr: "kthen (unlink_buf r) (kthen (link_self r) (link_head r)) ?t = Ok ((), relinked nx pv ?t)"
    "lru (relinked nx pv ?t) bs'" using front_run [OF bs r] by blast
  have "binv (relinked nx pv ?t)" using fr(2) inv_t by (auto simp: binv_def relinked_abs)
  moreover have "keeps_others n s (relinked nx pv ?t)" using ot by (simp add: keeps_others_def relinked_abs)
  ultimately have "wp (kthen (unlink_buf r) (kthen (link_self r) (link_head r)))
      (\<lambda>_ t. binv t \<and> bio_rest s t \<and> keeps_others n s t \<and> babs t = a_brelse n (babs s)) ?t"
    using fr(1) rest_t abs by (intro wpI) (auto simp: relinked_abs)
  then have "wp (kwhen (b_refcnt (bufs ?t r) = 0) (kthen (unlink_buf r) (kthen (link_self r) (link_head r))))
      (\<lambda>_ t. binv t \<and> bio_rest s t \<and> keeps_others n s t \<and> babs t = a_brelse n (babs s)) ?t"
    using inv_t rest_t abs ot by (simp add: wp_when)
  then show ?thesis by (simp add: wp_def run0)
qed

section \<open>The contract as an interface\<close>

text \<open>
  When \<open>bread n\<close> returns: the block is not locked, and it is cached and in use or fewer than
  \<open>NBUF\<close> blocks are in use.
\<close>

definition can_bread :: "acache \<Rightarrow> uint32 \<Rightarrow> bool" where
  "can_bread a n \<longleftrightarrow> \<not> c_lock a n \<and> Suc (c_refs a n) < 2 ^ 32 \<and>
     (0 < c_refs a n \<or> card {m. 0 < c_refs a m} < NBUF)"

lemma unused_exists:
  assumes inv: "binv s" and "card {m. 0 < brefs s m} < NBUF"
  shows "bunused s"
proof (rule ccontr)
  assume "\<not> bunused s"
  then have used: "b_refcnt (bufs s b) \<noteq> 0" if "b < NBUF" for b
    using that by (auto simp: bunused_def list_ex_iff)
  have has: "bhas s (b_blockno (bufs s b)) b" if "b < NBUF" for b
    using that buf_okD(3) [OF inv that used [OF that]] by (simp add: bhas_def)
  have "inj_on (\<lambda>b. b_blockno (bufs s b)) {..<NBUF}"
    using has inv by (auto simp: inj_on_def binv_def buniq_def) (metis has)
  moreover have "(\<lambda>b. b_blockno (bufs s b)) ` {..<NBUF} \<subseteq> {m. 0 < brefs s m}"
  proof safe
    fix b assume b: "b < NBUF"
    have "bfind s (b_blockno (bufs s b)) = Some b" using has [OF b] inv by (auto simp: binv_def intro: bfind_eq)
    then show "0 < brefs s (b_blockno (bufs s b))" using used [OF b] by (simp add: brefs_def unat_gt_0)
  qed
  ultimately have "NBUF \<le> card {m. 0 < brefs s m}"
    using card_inj_on_le [of "\<lambda>b. b_blockno (bufs s b)" "{..<NBUF}"] by simp
  with assms(2) show False by simp
qed

locale block_cache =
  fixes get :: "uint32 \<Rightarrow> ('s, nat) kop"
    and store :: "nat \<Rightarrow> block \<Rightarrow> ('s, unit) kop"
    and flush :: "nat \<Rightarrow> ('s, unit) kop"
    and put :: "nat \<Rightarrow> ('s, unit) kop"
    and dat :: "nat \<Rightarrow> 's \<Rightarrow> block"
    and ok :: "'s \<Rightarrow> bool"
    and mine :: "'s \<Rightarrow> nat \<Rightarrow> uint32 \<Rightarrow> bool"
    and abs :: "'s \<Rightarrow> acache"
    and frame :: "'s \<Rightarrow> 's \<Rightarrow> bool"
  assumes get_law: "ok s \<Longrightarrow> can_bread (abs s) n \<Longrightarrow>
      wp (get n) (\<lambda>r t. ok t \<and> frame s t \<and> mine t r n \<and> abs t = a_bread n (abs s)) s"
    and store_law: "ok s \<Longrightarrow> mine s r n \<Longrightarrow>
      wp (store r d) (\<lambda>_ t. ok t \<and> frame s t \<and> mine t r n \<and> abs t = a_bset n d (abs s)) s"
    and flush_law: "ok s \<Longrightarrow> mine s r n \<Longrightarrow>
      wp (flush r) (\<lambda>_ t. ok t \<and> frame s t \<and> mine t r n \<and> abs t = a_bwrite n (abs s)) s"
    and put_law: "ok s \<Longrightarrow> mine s r n \<Longrightarrow> (c_refs (abs s) n = 1 \<Longrightarrow> c_view (abs s) n = c_disk (abs s) n) \<Longrightarrow>
      wp (put r) (\<lambda>_ t. ok t \<and> frame s t \<and> abs t = a_brelse n (abs s)) s"
    and dat_law: "ok s \<Longrightarrow> mine s r n \<Longrightarrow> dat r s = c_view (abs s) n"
    and clean_law: "ok s \<Longrightarrow> c_refs (abs s) n = 0 \<Longrightarrow> c_view (abs s) n = c_disk (abs s) n"
    and frame_trans: "frame s t \<Longrightarrow> frame t u \<Longrightarrow> frame s u"
begin

text \<open>Reading a block without changing it.\<close>

lemma peek:
  assumes "ok s" and "can_bread (abs s) n"
  shows "wp (kbind (get n) (\<lambda>r. kbind (kget (dat r)) (\<lambda>d. kthen (put r) (kret d))))
    (\<lambda>d t. ok t \<and> frame s t \<and> d = c_view (abs s) n \<and> abs t = abs s) s"
  unfolding wp_bind
proof (rule wp_mono [OF get_law [OF assms]])
  fix r t assume t: "ok t \<and> frame s t \<and> mine t r n \<and> abs t = a_bread n (abs s)"
  have "wp (put r) (\<lambda>_ u. ok u \<and> frame t u \<and> abs u = a_brelse n (abs t)) t"
    using t clean_law [OF assms(1), of n] by (intro put_law) (auto simp: a_bread_def)
  moreover have "a_brelse n (abs t) = abs s"
    using t assms(2) by (simp add: a_bread_def a_brelse_def can_bread_def fun_upd_idem)
  moreover have "dat r t = c_view (abs s) n" using t dat_law [of t r n] by (simp add: a_bread_def)
  ultimately show "wp (kget (dat r)) (\<lambda>x. wp (kthen (put r) (kret x))
      (\<lambda>d t. ok t \<and> frame s t \<and> d = c_view (abs s) n \<and> abs t = abs s)) t"
    using t frame_trans by (auto simp: wp_get wp_then wp_ret elim!: wp_mono)
qed

text \<open>Writing a whole block through to the disk.\<close>

lemma write_through:
  assumes "ok s" and "can_bread (abs s) n"
  shows "wp (kbind (get n) (\<lambda>r. kthen (kbind (kget (dat r)) (\<lambda>d. store r (f d))) (kthen (flush r) (put r))))
    (\<lambda>_ t. ok t \<and> frame s t \<and> abs t = a_bwrite n (a_bset n (f (c_view (abs s) n)) (abs s))) s"
  unfolding wp_bind
proof (rule wp_mono [OF get_law [OF assms]])
  fix r t assume t: "ok t \<and> frame s t \<and> mine t r n \<and> abs t = a_bread n (abs s)"
  let ?a = "a_bwrite n (a_bset n (f (c_view (abs s) n)) (a_bread n (abs s)))"
  have "wp (kthen (store r (f (dat r t))) (kthen (flush r) (put r)))
      (\<lambda>_ u. ok u \<and> frame t u \<and> abs u = a_brelse n ?a) t"
    unfolding wp_then
  proof (rule wp_mono [OF store_law], use t in blast, use t in blast)
    fix x u assume u: "ok u \<and> frame t u \<and> mine u r n \<and> abs u = a_bset n (f (dat r t)) (abs t)"
    show "wp (flush r) (\<lambda>_. wp (put r) (\<lambda>_ w. ok w \<and> frame t w \<and> abs w = a_brelse n ?a)) u"
    proof (rule wp_mono [OF flush_law], use u in blast, use u in blast)
      fix y v assume v: "ok v \<and> frame u v \<and> mine v r n \<and> abs v = a_bwrite n (abs u)"
      then have a: "abs v = ?a" using t u dat_law [of t r n] by (simp add: a_bread_def)
      have "wp (put r) (\<lambda>_ w. ok w \<and> frame v w \<and> abs w = a_brelse n (abs v)) v"
        using v by (intro put_law) (auto simp: a_bwrite_def)
      then show "wp (put r) (\<lambda>_ w. ok w \<and> frame t w \<and> abs w = a_brelse n ?a) v"
        by (rule wp_mono) (use a u v frame_trans in metis)
    qed
  qed
  then have "wp (kthen (kbind (kget (dat r)) (\<lambda>d. store r (f d))) (kthen (flush r) (put r)))
      (\<lambda>_ u. ok u \<and> frame t u \<and> abs u = a_brelse n ?a) t"
    by (simp add: wp_then wp_bind wp_get)
  moreover have "a_brelse n ?a = a_bwrite n (a_bset n (f (c_view (abs s) n)) (abs s))"
    using assms(2) by (simp add: a_bread_def a_brelse_def a_bset_def a_bwrite_def can_bread_def fun_upd_idem)
  ultimately show "wp (kthen (kbind (kget (dat r)) (\<lambda>d. store r (f d))) (kthen (flush r) (put r)))
      (\<lambda>_ t. ok t \<and> frame s t \<and> abs t = a_bwrite n (a_bset n (f (c_view (abs s) n)) (abs s))) t"
    by (elim wp_mono) (use t frame_trans in metis)
qed

end

lemma babs_simps [simp]:
  "c_view (babs s) = bview s" "c_disk (babs s) = dsk s" "c_refs (babs s) = brefs s"
  "c_lock (babs s) = blocked s" "c_writes (babs s) = dwrites s"
  by (simp_all add: babs_def)

lemma bio_rest_running: "bio_rest s t \<Longrightarrow> running t = running s"
  by (simp add: bio_rest_def same_procs_running)

interpretation bc: block_cache "bread ROOTDEV" bset bwrite brelse "\<lambda>r s. b_data (bufs s r)"
  "\<lambda>s. binv s \<and> running s" bheld babs bio_rest
proof
  fix s t u :: "'a bio_scheme" and n r d
  show "wp (bread ROOTDEV n) (\<lambda>r t. (binv t \<and> running t) \<and> bio_rest s t \<and> bheld t r n \<and>
      babs t = a_bread n (babs s)) s" if "binv s \<and> running s" "can_bread (babs s) n"
  proof -
    have "0 < brefs s n \<or> bunused s" using that unused_exists [of s] by (auto simp: can_bread_def)
    then show ?thesis
      using that by (intro wp_mono [OF bread_refines]) (auto simp: can_bread_def bio_rest_running)
  qed
  show "wp (bset r d) (\<lambda>_ t. (binv t \<and> running t) \<and> bio_rest s t \<and> bheld t r n \<and>
      babs t = a_bset n d (babs s)) s" if "binv s \<and> running s" "bheld s r n"
    using that by (intro wp_mono [OF bset_refines]) (auto simp: bio_rest_running)
  show "wp (bwrite r) (\<lambda>_ t. (binv t \<and> running t) \<and> bio_rest s t \<and> bheld t r n \<and>
      babs t = a_bwrite n (babs s)) s" if "binv s \<and> running s" "bheld s r n"
    using that by (intro wp_mono [OF bwrite_refines]) (auto simp: bio_rest_running)
  show "wp (brelse r) (\<lambda>_ t. (binv t \<and> running t) \<and> bio_rest s t \<and> babs t = a_brelse n (babs s)) s"
    if "binv s \<and> running s" "bheld s r n" "c_refs (babs s) n = 1 \<Longrightarrow> c_view (babs s) n = c_disk (babs s) n"
    using that by (intro wp_mono [OF brelse_refines]) (auto simp: bio_rest_running)
  show "b_data (bufs s r) = c_view (babs s) n" if "binv s \<and> running s" "bheld s r n"
    using that bheld_view by auto
  show "c_view (babs s) n = c_disk (babs s) n" if "binv s \<and> running s" "c_refs (babs s) n = 0"
    using that brefs_0_clean by auto
  show "bio_rest s u" if "bio_rest s t" "bio_rest t u" using that by (rule bio_rest_trans)
qed

section \<open>Initialisation and replacement\<close>

lemma init_step:
  assumes "b \<noteq> HEAD"
  obtains u where "kthen (link_self b) (kthen (initsleeplock (block_lock b)) (link_head b)) t = Ok ((), u)"
    and "nexts u = (nexts t)(b := nexts t HEAD, HEAD := b)" and "prevs u = (prevs t)(b := HEAD, nexts t HEAD := b)"
    and "\<And>c. b_dev (bufs u c) = b_dev (bufs t c)" and "\<And>c. b_valid (bufs u c) = b_valid (bufs t c)"
    and "\<And>c. b_refcnt (bufs u c) = b_refcnt (bufs t c)"
    and "\<And>c. b_lock (bufs u c) = (if c = b then \<lparr>sl_locked = 0, sl_pid = 0\<rparr> else b_lock (bufs t c))"
proof
  let ?u = "upd_buf HEAD (\<lambda>x. x\<lparr>b_next := b\<rparr>) (upd_buf (nexts t HEAD) (\<lambda>x. x\<lparr>b_prev := b\<rparr>)
    (upd_buf b (\<lambda>x. x\<lparr>b_next := nexts t HEAD, b_prev := HEAD, b_lock := \<lparr>sl_locked = 0, sl_pid = 0\<rparr>\<rparr>) t))"
  show "kthen (link_self b) (kthen (initsleeplock (block_lock b)) (link_head b)) t = Ok ((), ?u)"
    using assms by (simp add: link_self_def link_head_def initsleeplock_def krun upd_buf_twice nexts_def)
  show "nexts ?u = (nexts t)(b := nexts t HEAD, HEAD := b)" "prevs ?u = (prevs t)(b := HEAD, nexts t HEAD := b)"
    using assms by (auto simp: fun_eq_iff nexts_def prevs_def)
qed auto

definition init_inv :: "'a bio_scheme \<Rightarrow> nat list \<Rightarrow> 'a bio_scheme \<Rightarrow> bool" where
  "init_inv s xs t \<longleftrightarrow> links (nexts t) (prevs t) (HEAD # rev xs @ [HEAD]) \<and>
     (\<forall>b. b_dev (bufs t b) = b_dev (bufs s b) \<and> b_valid (bufs t b) = b_valid (bufs s b) \<and>
       b_refcnt (bufs t b) = b_refcnt (bufs s b)) \<and>
     (\<forall>b \<in> set xs. sl_locked (b_lock (bufs t b)) = 0)"

lemma binit_links:
  "wp binit (\<lambda>_ t. init_inv s [0..<NBUF] t) s"
  unfolding binit_def wp_then wp_mod
proof (rule wp_kfor_rev [where I = "init_inv s"])
  show "init_inv s [] (upd_buf HEAD (b_next_update (\<lambda>_. HEAD)) (upd_buf HEAD (b_prev_update (\<lambda>_. HEAD)) s))"
    by (simp add: init_inv_def nexts_def prevs_def)
next
  fix xs b ys t
  assume eq: "[0..<NBUF] = xs @ b # ys" and I: "init_inv s xs t"
  have "b \<in> set [0..<NBUF]" using eq by simp
  then have nb: "b \<noteq> HEAD" by simp
  have d: "distinct (HEAD # b # rev xs)"
    using nb distinct_upt [of 0 NBUF] set_upt [of 0 NBUF] unfolding eq by auto
  obtain u where u: "kthen (link_self b) (kthen (initsleeplock (block_lock b)) (link_head b)) t = Ok ((), u)"
    "nexts u = (nexts t)(b := nexts t HEAD, HEAD := b)" "prevs u = (prevs t)(b := HEAD, nexts t HEAD := b)"
    "\<And>c. b_dev (bufs u c) = b_dev (bufs t c)" "\<And>c. b_valid (bufs u c) = b_valid (bufs t c)"
    "\<And>c. b_refcnt (bufs u c) = b_refcnt (bufs t c)"
    "\<And>c. b_lock (bufs u c) = (if c = b then \<lparr>sl_locked = 0, sl_pid = 0\<rparr> else b_lock (bufs t c))"
    by (rule init_step [OF nb, of t]) (rule that)
  have "init_inv s (xs @ [b]) u"
    using I links_front [of "nexts t" "prevs t" HEAD "rev xs" b] d
    unfolding init_inv_def u(2,3) by (simp add: u(4-7) del: fun_upd_apply links.simps)
  with u(1) show "wp (kthen (link_self b) (kthen (initsleeplock (block_lock b)) (link_head b)))
      (\<lambda>_. init_inv s (xs @ [b])) t" by (rule wpI)
qed

lemma binit_lru: "init_inv s [0..<NBUF] t \<Longrightarrow> lru t (rev [0..<NBUF])"
  by (simp add: init_inv_def lru_def)

text \<open>
  C8: on the zeroed table of buffers \<open>binit\<close> builds the list of all thirty buffers and
  establishes the invariant of the cache.
\<close>

theorem binit_establishes:
  assumes "\<forall>b < NBUF. b_dev (bufs s b) = 0 \<and> b_valid (bufs s b) = 0 \<and> b_refcnt (bufs s b) = 0"
  shows "\<exists>t. binit s = Ok ((), t) \<and> binv t \<and> (\<forall>n. brefs t n = 0)"
proof -
  obtain t where t: "binit s = Ok ((), t)" and I: "init_inv s [0..<NBUF] t"
    using wpD [OF binit_links [of s]] by auto
  have no: "\<not> bhas t n b" for n b using I assms by (auto simp: init_inv_def bhas_def ROOTDEV_def)
  have "binv t" using binit_lru [OF I] I assms no
    by (auto simp: binv_def buniq_def buf_ok_def init_inv_def)
  moreover have "brefs t n = 0" for n using no bfind_None [of t n] by (simp add: brefs_def)
  ultimately show ?thesis using t by blast
qed

definition buf0 :: buf where
  "buf0 = \<lparr>b_valid = 0, b_disk = 0, b_dev = 0, b_blockno = 0, b_lock = \<lparr>sl_locked = 0, sl_pid = 0\<rparr>,
     b_refcnt = 0, b_prev = 0, b_next = 0, b_data = replicate BSIZE 0\<rparr>"

text \<open>A machine with zeroed buffers and process 0 on CPU 0, and any disk.\<close>

definition bio0 :: "(uint32 \<Rightarrow> block) \<Rightarrow> bio" where
  "bio0 d = \<lparr>mem = (\<lambda>_. 0), freelist = 0, kend = 0x80021E40, kernel_pagetable = 0, satp = 0,
     ptable = (\<lambda>p. if p = 0 then proc0\<lparr>p_state := RUNNING, p_pid := 1\<rparr> else proc0),
     initproc = Some 0, nextpid = 2, cpu_proc = (\<lambda>c. if c = 0 then Some 0 else None), hart = 0,
     bufs = (\<lambda>_. buf0), dsk = d, dwrites = []\<rparr>"

theorem binit_establishes_witness:
  "\<exists>t. binit (bio0 (\<lambda>n. replicate BSIZE 7)) = Ok ((), t) \<and> binv t"
  using binit_establishes [of "bio0 (\<lambda>n. replicate BSIZE 7)"] by (auto simp: bio0_def buf0_def)

lemma binit_rest:
  "wp binit (\<lambda>_ t. bio_rest s t \<and> dsk t = dsk s \<and> dwrites t = dwrites s) s"
  unfolding binit_def wp_then wp_mod
  by (rule wp_kfor_rev [where I = "\<lambda>_ t. bio_rest s t \<and> dsk t = dsk s \<and> dwrites t = dwrites s"])
    (auto simp: bio_rest_def same_procs_def link_self_def link_head_def initsleeplock_def wp_simps)

lemma fresh_cache:
  "\<exists>t. binv t \<and> running t \<and> (\<forall>n. can_bread (babs t) n) \<and> (\<forall>n. brefs t n = 0) \<and> dsk (t :: bio) = d"
proof -
  have z: "\<forall>b < NBUF. b_dev (bufs (bio0 d) b) = 0 \<and> b_valid (bufs (bio0 d) b) = 0 \<and> b_refcnt (bufs (bio0 d) b) = 0"
    by (simp add: bio0_def buf0_def)
  obtain t where t: "binit (bio0 d) = Ok ((), t)" and I: "init_inv (bio0 d) [0..<NBUF] t"
    using wpD [OF binit_links [of "bio0 d"]] by auto
  have no: "\<not> bhas t n b" for n b using I z by (auto simp: init_inv_def bhas_def ROOTDEV_def)
  have "binv t" using binit_lru [OF I] I z no
    by (auto simp: binv_def buniq_def buf_ok_def init_inv_def)
  have r: "brefs t n = 0" "\<not> blocked t n" for n
    using no bfind_None [of t n] by (simp_all add: brefs_def blocked_def)
  have "bio_rest (bio0 d) t" "dsk t = dsk (bio0 d)"
    using t binit_rest [of "bio0 d"] by (auto simp: wp_def)
  moreover have "running (bio0 d)" "dsk (bio0 d) = d" by (simp_all add: running_def bio0_def)
  ultimately have "running t" "dsk t = d" by (auto simp: bio_rest_running)
  with \<open>binv t\<close> r show ?thesis by (auto simp: can_bread_def NBUF_def)
qed

text \<open>
  C7: \<open>bread\<close> returns a buffer locked by the caller that holds the current contents of the
  block: the cached contents if the block is cached, else those on disk. Whatever it evicts,
  no block's contents change, and the disk is not written.
\<close>

theorem bread_current:
  assumes "binv s" and "running s" and "can_bread (babs s) n"
  shows "\<exists>b t. bread ROOTDEV n s = Ok (b, t) \<and> bheld t b n \<and> b_data (bufs t b) = bview s n \<and>
    binv t \<and> babs t = a_bread n (babs s)"
proof -
  obtain b t where t: "bread ROOTDEV n s = Ok (b, t)" "binv t" "bheld t b n" "babs t = a_bread n (babs s)"
    using bc.get_law [of s n] assms by (auto dest: wpD)
  moreover have "b_data (bufs t b) = bview s n"
    using bheld_view [OF t(2,3)] arg_cong [OF t(4), of c_view] by (simp add: a_bread_def)
  ultimately show ?thesis by blast
qed

theorem bread_current_witness:
  "\<exists>s b t. bread ROOTDEV 1 (s :: bio) = Ok (b, t) \<and> b_data (bufs t b) = bview s 1 \<and> bheld t b 1"
  using bread_current fresh_cache by meson

end
