(* ===== verification/Bytes.thy ===== *)
theory Bytes
  imports Prelude
begin

text \<open>
  Little-endian integers and fixed-size records inside byte arrays: how the C code reads and
  writes the structures it overlays on disk blocks and pages through pointer casts.
\<close>

section \<open>Little-endian words\<close>

primrec le_word :: "uchar list \<Rightarrow> 'w::len word" where
  "le_word [] = 0"
| "le_word (b # bs) = ucast b OR push_bit 8 (le_word bs)"

primrec le_bytes :: "nat \<Rightarrow> 'w::len word \<Rightarrow> uchar list" where
  "le_bytes 0 v = []"
| "le_bytes (Suc k) v = ucast v # le_bytes k (drop_bit 8 v)"

lemma length_le_bytes [simp]: "length (le_bytes k v) = k"
  by (induction k arbitrary: v) simp_all

lemma le_word_bytes: "le_word (le_bytes k v) = take_bit (8 * k) (v :: 'w::len word)"
proof (induction k arbitrary: v)
  case 0
  then show ?case by simp
next
  case (Suc k)
  show ?case
    by (rule bit_word_eqI) (auto simp: Suc.IH bit_simps less_diff_conv2 algebra_simps)
qed

lemma le_word_bytes_full: "LENGTH('w) \<le> 8 * k \<Longrightarrow> le_word (le_bytes k v) = (v :: 'w::len word)"
  by (rule bit_word_eqI) (auto simp: le_word_bytes bit_simps)

lemma le_bytes_word:
  "8 * length bs \<le> LENGTH('w) \<Longrightarrow> le_bytes (length bs) (le_word bs :: 'w::len word) = bs"
proof (induction bs)
  case Nil
  then show ?case by simp
next
  case (Cons b bs)
  have 8: "8 \<le> LENGTH('w)" using Cons.prems by simp
  have b: "ucast (ucast b OR push_bit 8 (le_word bs :: 'w word)) = b"
    using 8 by (intro bit_word_eqI) (auto simp: bit_simps)
  have lt: "\<not> bit (le_word bs :: 'w word) n" if "8 * length bs \<le> n" for n
  proof -
    have "bit (le_word bs :: 'w word) n \<Longrightarrow> n < 8 * length bs"
      by (induction bs arbitrary: n) (fastforce simp: bit_simps dest: bit_imp_le_length)+
    with that show ?thesis by auto
  qed
  have "drop_bit 8 (ucast b OR push_bit 8 (le_word bs :: 'w word)) = le_word bs"
  proof (rule bit_word_eqI)
    fix n assume "n < LENGTH('w)"
    then show "bit (drop_bit 8 (ucast b OR push_bit 8 (le_word bs :: 'w word))) n = bit (le_word bs :: 'w word) n"
      using lt [of n] Cons.prems by (auto simp: bit_simps dest: bit_imp_le_length)
  qed
  with b Cons show ?case by simp
qed

section \<open>Slices\<close>

definition slice :: "nat \<Rightarrow> nat \<Rightarrow> 'a list \<Rightarrow> 'a list" where
  "slice ofs n d = take n (drop ofs d)"

definition splice :: "nat \<Rightarrow> 'a list \<Rightarrow> 'a list \<Rightarrow> 'a list" where
  "splice ofs bs d = take ofs d @ bs @ drop (ofs + length bs) d"

lemma length_slice [simp]: "ofs + n \<le> length d \<Longrightarrow> length (slice ofs n d) = n"
  by (simp add: slice_def)

lemma length_splice [simp]: "ofs + length bs \<le> length d \<Longrightarrow> length (splice ofs bs d) = length d"
  by (simp add: splice_def)

lemma slice_splice_same [simp]: "ofs + length bs \<le> length d \<Longrightarrow> slice ofs (length bs) (splice ofs bs d) = bs"
  by (simp add: slice_def splice_def)

lemma nth_splice:
  "ofs + length bs \<le> length d \<Longrightarrow> i < length d \<Longrightarrow>
     splice ofs bs d ! i = (if ofs \<le> i \<and> i < ofs + length bs then bs ! (i - ofs) else d ! i)"
  by (auto simp: splice_def nth_append)

lemma slice_splice_other:
  "ofs + length bs \<le> length d \<Longrightarrow> i + n \<le> length d \<Longrightarrow> i + n \<le> ofs \<or> ofs + length bs \<le> i \<Longrightarrow>
     slice i n (splice ofs bs d) = slice i n d"
  by (rule nth_equalityI) (auto simp: slice_def nth_splice)

lemma splice_slice [simp]: "ofs + n \<le> length d \<Longrightarrow> splice ofs (slice ofs n d) d = d"
  by (rule nth_equalityI) (auto simp: nth_splice slice_def)

lemma nth_slice: "i < n \<Longrightarrow> ofs + i < length d \<Longrightarrow> slice ofs n d ! i = d ! (ofs + i)"
  by (simp add: slice_def)

section \<open>Integer fields\<close>

definition get16 :: "uchar list \<Rightarrow> nat \<Rightarrow> ushort" where
  "get16 d ofs = le_word (slice ofs 2 d)"

definition put16 :: "nat \<Rightarrow> ushort \<Rightarrow> uchar list \<Rightarrow> uchar list" where
  "put16 ofs v d = splice ofs (le_bytes 2 v) d"

definition get32 :: "uchar list \<Rightarrow> nat \<Rightarrow> uint32" where
  "get32 d ofs = le_word (slice ofs 4 d)"

definition put32 :: "nat \<Rightarrow> uint32 \<Rightarrow> uchar list \<Rightarrow> uchar list" where
  "put32 ofs v d = splice ofs (le_bytes 4 v) d"

definition get64 :: "uchar list \<Rightarrow> nat \<Rightarrow> uint64" where
  "get64 d ofs = le_word (slice ofs 8 d)"

lemma length_put [simp]:
  "ofs + 2 \<le> length d \<Longrightarrow> length (put16 ofs v d) = length d"
  "ofs + 4 \<le> length d \<Longrightarrow> length (put32 ofs w d) = length d"
  by (simp_all add: put16_def put32_def)

lemma get_put_same [simp]:
  "ofs + 2 \<le> length d \<Longrightarrow> get16 (put16 ofs v d) ofs = v"
  "ofs + 4 \<le> length d \<Longrightarrow> get32 (put32 ofs w d) ofs = w"
  using slice_splice_same [of ofs "le_bytes 2 v" d] slice_splice_same [of ofs "le_bytes 4 w" d]
  by (simp_all add: get16_def put16_def get32_def put32_def le_word_bytes_full)

lemma slice_put16:
  "ofs + 2 \<le> length d \<Longrightarrow> i + n \<le> length d \<Longrightarrow> i + n \<le> ofs \<or> ofs + 2 \<le> i \<Longrightarrow>
     slice i n (put16 ofs v d) = slice i n d"
  by (simp add: put16_def slice_splice_other)

lemma slice_put32:
  "ofs + 4 \<le> length d \<Longrightarrow> i + n \<le> length d \<Longrightarrow> i + n \<le> ofs \<or> ofs + 4 \<le> i \<Longrightarrow>
     slice i n (put32 ofs v d) = slice i n d"
  by (simp add: put32_def slice_splice_other)

lemma get_put_other:
  "ofs + 2 \<le> length d \<Longrightarrow> i + 2 \<le> length d \<Longrightarrow> i + 2 \<le> ofs \<or> ofs + 2 \<le> i \<Longrightarrow> get16 (put16 ofs v d) i = get16 d i"
  "ofs + 2 \<le> length d \<Longrightarrow> i + 4 \<le> length d \<Longrightarrow> i + 4 \<le> ofs \<or> ofs + 2 \<le> i \<Longrightarrow> get32 (put16 ofs v d) i = get32 d i"
  "ofs + 4 \<le> length d \<Longrightarrow> i + 2 \<le> length d \<Longrightarrow> i + 2 \<le> ofs \<or> ofs + 4 \<le> i \<Longrightarrow> get16 (put32 ofs w d) i = get16 d i"
  "ofs + 4 \<le> length d \<Longrightarrow> i + 4 \<le> length d \<Longrightarrow> i + 4 \<le> ofs \<or> ofs + 4 \<le> i \<Longrightarrow> get32 (put32 ofs w d) i = get32 d i"
  by (simp_all add: get16_def get32_def slice_put16 slice_put32)

end
