(* ===== verification/Log.thy ===== *)
theory Log
  imports Bio Bytes
begin

text \<open>
  The write-ahead log of \<^verbatim>\<open>kernel/log.c\<close>. A transaction's blocks stay in the buffer cache,
  pinned, until \<open>commit\<close> copies them to the log, writes the header, copies them to their home
  locations and clears the header. \<open>recover_from_log\<close> runs at boot on whatever a crash left on
  disk. The main result is that a crash after any number of the disk writes of \<open>commit\<close>,
  followed by any number of interrupted recoveries, leaves after recovery either the old or
  the new contents of every block, never a mixture.
\<close>

section \<open>The log\<close>

definition MAXOPBLOCKS :: int where "MAXOPBLOCKS = 10"
definition LOGSIZE :: nat where "LOGSIZE = 30"

text \<open>
  \<^verbatim>\<open>struct log\<close> with its \<^verbatim>\<open>struct logheader\<close>. Block numbers are kept as the unsigned values
  that \<open>bread\<close> gets.
\<close>

record logst = bio +
  l_start :: uint32
  l_size :: int
  l_outstanding :: int
  l_committing :: int
  l_dev :: uint32
  lh_n :: int
  lh_block :: "uint32 list"

definition log_block :: "nat \<Rightarrow> ('a logst_scheme, uint32) kop" where
  "log_block tail = kget (\<lambda>s. l_start s + of_nat tail + 1)"

text \<open>\<^verbatim>\<open>log.lh.block[i]\<close>, an access to an array of \<open>LOGSIZE\<close> elements.\<close>

definition lh_get :: "nat \<Rightarrow> ('a logst_scheme, uint32) kop" where
  "lh_get i = kthen (kcheck (i < LOGSIZE)) (kget (\<lambda>s. lh_block s ! i))"

definition lh_set :: "nat \<Rightarrow> uint32 \<Rightarrow> ('a logst_scheme, unit) kop" where
  "lh_set i v = kthen (kcheck (i < LOGSIZE)) (kmod (\<lambda>s. s\<lparr>lh_block := (lh_block s)[i := v]\<rparr>))"

definition install_trans :: "bool \<Rightarrow> ('a logst_scheme, unit) kop" where
  "install_trans recovering =
     kbind (kget lh_n) (\<lambda>n. kfor [0..<nat n] (\<lambda>tail.
       kbind (kget l_dev) (\<lambda>dev.
       kbind (log_block tail) (\<lambda>lb. kbind (bread dev lb) (\<lambda>lbuf.
       kbind (lh_get tail) (\<lambda>db. kbind (bread dev db) (\<lambda>dbuf.
       kthen (kbind (bufget lbuf b_data) (bset dbuf))
       (kthen (bwrite dbuf)
       (kthen (kwhen (\<not> recovering) (bunpin dbuf))
       (kthen (brelse lbuf)
              (brelse dbuf)))))))))))"

definition read_head :: "('a logst_scheme, unit) kop" where
  "read_head =
     kbind (kget l_dev) (\<lambda>dev. kbind (kget l_start) (\<lambda>st. kbind (bread dev st) (\<lambda>buf.
     kbind (bufget buf b_data) (\<lambda>d.
     kthen (kmod (\<lambda>s. s\<lparr>lh_n := sint (get32 d 0)\<rparr>))
     (kthen (kfor [0..<nat (sint (get32 d 0))] (\<lambda>i. lh_set i (get32 d (4 + 4 * i))))
            (brelse buf))))))"

primrec put_blocks :: "nat \<Rightarrow> uint32 list \<Rightarrow> block \<Rightarrow> block" where
  "put_blocks i [] d = d"
| "put_blocks i (b # bs) d = put_blocks (Suc i) bs (put32 (4 + 4 * i) b d)"

definition write_head :: "('a logst_scheme, unit) kop" where
  "write_head =
     kbind (kget l_dev) (\<lambda>dev. kbind (kget l_start) (\<lambda>st. kbind (bread dev st) (\<lambda>buf.
     kbind (kget lh_n) (\<lambda>n. kbind (kget lh_block) (\<lambda>bl.
     kthen (kcheck (nat n \<le> LOGSIZE))
     (kthen (kbind (bufget buf b_data) (\<lambda>d.
               bset buf (put_blocks 0 (take (nat n) bl) (put32 0 (word_of_int n) d))))
     (kthen (bwrite buf)
            (brelse buf))))))))"

definition recover_from_log :: "('a logst_scheme, unit) kop" where
  "recover_from_log =
     kthen read_head
     (kthen (install_trans True)
     (kthen (kmod (\<lambda>s. s\<lparr>lh_n := 0\<rparr>))
            write_head))"

text \<open>\<open>initlog\<close> gets the fields of the superblock it uses.\<close>

definition initlog :: "uint32 \<Rightarrow> uint32 \<Rightarrow> uint32 \<Rightarrow> ('a logst_scheme, unit) kop" where
  "initlog dev logstart nlog =
     kthen (kwhen (4 * (1 + LOGSIZE) \<ge> BSIZE) (kpanic ''initlog: too big logheader''))
     (kthen (kmod (\<lambda>s. s\<lparr>l_start := logstart, l_size := sint nlog, l_dev := dev\<rparr>))
            recover_from_log)"

definition begin_op :: "('a logst_scheme, unit) kop" where
  "begin_op =
     kbind (kget (\<lambda>s. s)) (\<lambda>s.
     if l_committing s \<noteq> 0 then kblock ChLog
     else if lh_n s + (l_outstanding s + 1) * MAXOPBLOCKS > int LOGSIZE then kblock ChLog
     else kmod (\<lambda>s. s\<lparr>l_outstanding := l_outstanding s + 1\<rparr>))"

definition write_log :: "('a logst_scheme, unit) kop" where
  "write_log =
     kbind (kget lh_n) (\<lambda>n. kfor [0..<nat n] (\<lambda>tail.
       kbind (kget l_dev) (\<lambda>dev.
       kbind (log_block tail) (\<lambda>lb. kbind (bread dev lb) (\<lambda>to.
       kbind (lh_get tail) (\<lambda>db. kbind (bread dev db) (\<lambda>from.
       kthen (kbind (bufget from b_data) (bset to))
       (kthen (bwrite to)
       (kthen (brelse from)
              (brelse to))))))))))"

definition commit :: "('a logst_scheme, unit) kop" where
  "commit =
     kbind (kget lh_n) (\<lambda>n. kwhen (n > 0)
       (kthen write_log
       (kthen write_head
       (kthen (install_trans False)
       (kthen (kmod (\<lambda>s. s\<lparr>lh_n := 0\<rparr>))
              write_head)))))"

definition end_op :: "('a logst_scheme, unit) kop" where
  "end_op =
     kthen (kmod (\<lambda>s. s\<lparr>l_outstanding := l_outstanding s - 1\<rparr>))
     (kbind (kget (\<lambda>s. s)) (\<lambda>s.
     kthen (kwhen (l_committing s \<noteq> 0) (kpanic ''log.committing''))
     (if l_outstanding s = 0
      then kthen (kmod (\<lambda>s. s\<lparr>l_committing := 1\<rparr>))
           (kthen commit
           (kthen (kmod (\<lambda>s. s\<lparr>l_committing := 0\<rparr>))
                  (wakeup ChLog)))
      else wakeup ChLog)))"

text \<open>The search of \<open>log_write\<close> for a block that is already in the transaction.\<close>

definition find_log :: "uint32 \<Rightarrow> nat \<Rightarrow> uint32 list \<Rightarrow> nat" where
  "find_log b n bl = (case find (\<lambda>i. bl ! i = b) [0..<n] of Some i \<Rightarrow> i | None \<Rightarrow> n)"

definition log_write :: "nat \<Rightarrow> ('a logst_scheme, unit) kop" where
  "log_write b =
     kbind (kget (\<lambda>s. s)) (\<lambda>s.
     kthen (kwhen (lh_n s \<ge> int LOGSIZE \<or> lh_n s \<ge> l_size s - 1) (kpanic ''too big a transaction''))
     (kthen (kwhen (l_outstanding s < 1) (kpanic ''log_write outside of trans''))
     (kbind (bufget b b_blockno) (\<lambda>bno.
      let i = find_log bno (nat (lh_n s)) (lh_block s) in
      kthen (lh_set i bno)
            (kwhen (int i = lh_n s)
               (kthen (bpin b) (kmod (\<lambda>s. s\<lparr>lh_n := lh_n s + 1\<rparr>))))))))"

section \<open>Rules for the cache operations\<close>

lemma bio_rest_log [simp]:
  assumes "bio_rest s t"
  shows "l_start t = l_start s" "l_size t = l_size s" "l_outstanding t = l_outstanding s"
    "l_committing t = l_committing s" "l_dev t = l_dev s" "lh_n t = lh_n s" "lh_block t = lh_block s"
    "logst.more t = logst.more s"
  using assms by (cases s; cases t; simp add: bio_rest_def)+

text \<open>
  \<open>bat s a H t\<close>: starting from \<open>s\<close>, only the cache has changed; its abstract state is \<open>a\<close>, and
  the running process holds the buffers \<open>H\<close>. The rules below run the operations of the cache
  on \<open>a\<close> and \<open>H\<close>.
\<close>

definition bat :: "'a bio_scheme \<Rightarrow> acache \<Rightarrow> (nat \<times> uint32) list \<Rightarrow> 'a bio_scheme \<Rightarrow> bool" where
  "bat s a H t \<longleftrightarrow> binv t \<and> running t \<and> bio_rest s t \<and> babs t = a \<and> (\<forall>(r, n) \<in> set H. bheld t r n)"

lemma bat0: "binv s \<Longrightarrow> running s \<Longrightarrow> bat s (babs s) [] s"
  by (simp add: bat_def)

lemma batD:
  assumes "bat s a H t"
  shows "binv t" "running t" "bio_rest s t" "babs t = a" "(r, n) \<in> set H \<Longrightarrow> bheld t r n"
  using assms by (auto simp: bat_def)

lemma bat_next:
  assumes "bat s a H t" and "binv u \<and> bio_rest t u \<and> keeps_others n t u \<and> babs u = a'"
    and "\<And>r m. (r, m) \<in> set H' \<Longrightarrow> m \<noteq> n \<Longrightarrow> (r, m) \<in> set H"
    and "\<And>r. (r, n) \<in> set H' \<Longrightarrow> bheld u r n"
  shows "bat s a' H' u"
proof -
  have "bheld u r m" if "(r, m) \<in> set H'" for r m
    using that assms batD(5) [OF assms(1)] by (cases "m = n") (auto simp: keeps_others_def)
  then show ?thesis
    using assms(2) batD(2,3) [OF assms(1)] by (auto simp: bat_def bio_rest_running intro: bio_rest_trans)
qed

lemma at_read:
  assumes "bat s a H t" and "can_bread a n" and "\<And>r. (r, n) \<notin> set H"
    and "\<And>r u. bat s (a_bread n a) ((r, n) # H) u \<Longrightarrow> Q r u"
  shows "wp (bread ROOTDEV n) Q t"
proof (rule wp_mono [OF bread_refines])
  note t = batD(1,2,4) [OF assms(1)]
  show "binv t" "running t" "\<not> blocked t n" "Suc (brefs t n) < 2 ^ 32"
    using t assms(2) by (auto simp: can_bread_def)
  show "0 < brefs t n \<or> bunused t" using t assms(2) unused_exists [of t] by (auto simp: can_bread_def)
  fix r u
  assume "binv u \<and> bio_rest t u \<and> bheld u r n \<and> keeps_others n t u \<and> babs u = a_bread n (babs t)"
  then have "bat s (a_bread n a) ((r, n) # H) u"
    using t assms(3) by (intro bat_next [OF assms(1), of u n]) auto
  then show "Q r u" by (rule assms(4))
qed

lemma bat_same:
  assumes "bat s a H t" and "binv u \<and> bio_rest t u \<and> bheld u r n \<and> keeps_others n t u \<and> babs u = a'"
    and "\<And>q. (q, n) \<in> set H \<Longrightarrow> q = r"
  shows "bat s a' H u"
proof (rule bat_next [OF assms(1)])
  show "binv u \<and> bio_rest t u \<and> keeps_others n t u \<and> babs u = a'" using assms(2) by simp
  show "bheld u q n" if "(q, n) \<in> set H" for q using assms(2) assms(3) [OF that] by simp
qed

lemma at_set:
  assumes "bat s a H t" and "(r, n) \<in> set H" and "\<And>q. (q, n) \<in> set H \<Longrightarrow> q = r"
    and "\<And>u. bat s (a_bset n d a) H u \<Longrightarrow> Q () u"
  shows "wp (bset r d) Q t"
proof (rule wp_mono [OF bset_refines])
  show "binv t" "bheld t r n" using batD(1,2) [OF assms(1)] batD(5) [OF assms(1,2)] by simp_all
  fix x u
  assume U: "binv u \<and> bio_rest t u \<and> bheld u r n \<and> keeps_others n t u \<and> babs u = a_bset n d (babs t)"
  have "bat s (a_bset n d a) H u"
    by (rule bat_same [OF assms(1) _ assms(3)]) (use U batD(4) [OF assms(1)] in auto)
  then show "Q x u" using assms(4) by simp
qed

lemma at_write:
  assumes "bat s a H t" and "(r, n) \<in> set H" and "\<And>q. (q, n) \<in> set H \<Longrightarrow> q = r"
    and "\<And>u. bat s (a_bwrite n a) H u \<Longrightarrow> Q () u"
  shows "wp (bwrite r) Q t"
proof (rule wp_mono [OF bwrite_refines])
  show "binv t" "running t" "bheld t r n" using batD(1,2) [OF assms(1)] batD(5) [OF assms(1,2)] by simp_all
  fix x u
  assume U: "binv u \<and> bio_rest t u \<and> bheld u r n \<and> keeps_others n t u \<and> babs u = a_bwrite n (babs t)"
  have "bat s (a_bwrite n a) H u"
    by (rule bat_same [OF assms(1) _ assms(3)]) (use U batD(4) [OF assms(1)] in auto)
  then show "Q x u" using assms(4) by simp
qed

lemma at_pin:
  assumes "bat s a H t" and "(r, n) \<in> set H" and "\<And>q. (q, n) \<in> set H \<Longrightarrow> q = r"
    and "Suc (c_refs a n) < 2 ^ 32"
    and "\<And>u. bat s (a_bpin n a) H u \<Longrightarrow> Q () u"
  shows "wp (bpin r) Q t"
proof (rule wp_mono [OF bpin_refines])
  show "binv t" "bheld t r n" "Suc (brefs t n) < 2 ^ 32"
    using batD(1,2,4) [OF assms(1)] batD(5) [OF assms(1,2)] assms(4) by auto
  fix x u
  assume U: "binv u \<and> bio_rest t u \<and> bheld u r n \<and> keeps_others n t u \<and> babs u = a_bpin n (babs t)"
  have "bat s (a_bpin n a) H u"
    by (rule bat_same [OF assms(1) _ assms(3)]) (use U batD(4) [OF assms(1)] in auto)
  then show "Q x u" using assms(5) by simp
qed

lemma at_unpin:
  assumes "bat s a H t" and "(r, n) \<in> set H" and "\<And>q. (q, n) \<in> set H \<Longrightarrow> q = r"
    and "2 \<le> c_refs a n"
    and "\<And>u. bat s (a_bunpin n a) H u \<Longrightarrow> Q () u"
  shows "wp (bunpin r) Q t"
proof (rule wp_mono [OF bunpin_refines])
  show "binv t" "bheld t r n" "2 \<le> brefs t n"
    using batD(1,2,4) [OF assms(1)] batD(5) [OF assms(1,2)] assms(4) by auto
  fix x u
  assume U: "binv u \<and> bio_rest t u \<and> bheld u r n \<and> keeps_others n t u \<and> babs u = a_bunpin n (babs t)"
  have "bat s (a_bunpin n a) H u"
    by (rule bat_same [OF assms(1) _ assms(3)]) (use U batD(4) [OF assms(1)] in auto)
  then show "Q x u" using assms(5) by simp
qed

lemma at_relse:
  assumes "bat s a H t" and "(r, n) \<in> set H"
    and "c_refs a n = 1 \<Longrightarrow> c_view a n = c_disk a n"
    and "\<And>u. bat s (a_brelse n a) (filter (\<lambda>(q, m). m \<noteq> n) H) u \<Longrightarrow> Q () u"
  shows "wp (brelse r) Q t"
proof (rule wp_mono [OF brelse_refines])
  show "binv t" "running t" "bheld t r n" using assms batD [OF assms(1)] by auto
  show "bview t n = dsk t n" if "brefs t n = 1" using that assms(3) batD(4) [OF assms(1)] by auto
  fix x u
  assume u: "binv u \<and> bio_rest t u \<and> keeps_others n t u \<and> babs u = a_brelse n (babs t)"
  have "bat s (a_brelse n a) (filter (\<lambda>(q, m). m \<noteq> n) H) u"
    by (rule bat_next [OF assms(1), of u n]) (use u batD(4) [OF assms(1)] in auto)
  then show "Q x u" using assms(4) by simp
qed

lemma at_data:
  assumes "bat s a H t" and "(r, n) \<in> set H" and "Q (c_view a n) t"
  shows "wp (bufget r b_data) Q t"
  using assms(3) bheld_view [OF batD(1) [OF assms(1)] batD(5) [OF assms(1,2)]] batD(4) [OF assms(1)]
  by (auto simp: wp_get)

lemma at_lh_get:
  "bat s a H t \<Longrightarrow> i < LOGSIZE \<Longrightarrow> Q (lh_block s ! i) t \<Longrightarrow> wp (lh_get i) Q t"
  using bio_rest_log(7) [OF batD(3)] by (fastforce simp: lh_get_def wp_simps)

section \<open>Copying one block\<close>

text \<open>The effect on the abstract cache of one iteration of \<open>write_log\<close> and of \<open>install_trans\<close>.\<close>

definition a_copy :: "uint32 \<Rightarrow> uint32 \<Rightarrow> acache \<Rightarrow> acache" where
  "a_copy src dst a = a_bwrite dst (a_bset dst (c_view a src) a)"

definition a_install :: "bool \<Rightarrow> uint32 \<Rightarrow> uint32 \<Rightarrow> acache \<Rightarrow> acache" where
  "a_install recovering src dst a =
     (if recovering then a_copy src dst a else a_bunpin dst (a_copy src dst a))"

lemmas a_defs = a_bread_def a_bset_def a_bwrite_def a_brelse_def a_bpin_def a_bunpin_def

lemma a_keeps [simp]:
  "c_view (a_bread n a) = c_view a" "c_disk (a_bread n a) = c_disk a" "c_writes (a_bread n a) = c_writes a"
  "c_view (a_brelse n a) = c_view a" "c_disk (a_brelse n a) = c_disk a" "c_writes (a_brelse n a) = c_writes a"
  "c_view (a_bunpin n a) = c_view a" "c_disk (a_bunpin n a) = c_disk a" "c_writes (a_bunpin n a) = c_writes a"
  "c_view (a_bpin n a) = c_view a" "c_disk (a_bpin n a) = c_disk a" "c_writes (a_bpin n a) = c_writes a"
  "c_disk (a_bset n d a) = c_disk a" "c_writes (a_bset n d a) = c_writes a" "c_view (a_bwrite n a) = c_view a"
  by (simp_all add: a_defs)

text \<open>Room in the cache for one or two more blocks, none of them locked.\<close>

definition room :: "acache \<Rightarrow> bool" where
  "room a \<longleftrightarrow> (\<forall>n. \<not> c_lock a n \<and> c_refs a n < 2 ^ 30)"

lemma can_bread_room:
  "room a \<Longrightarrow> 0 < c_refs a n \<or> card {m. 0 < c_refs a m} < NBUF \<Longrightarrow> can_bread a n"
  by (auto simp: room_def can_bread_def intro: less_trans Suc_lessI)

lemma write_log_body:
  assumes "binv s" and "running s" and "l_dev s = ROOTDEV" and ls: "l_start s + of_nat tail + 1 = lb"
    and "tail < LOGSIZE" and db: "lh_block s ! tail = db" and ne: "lb \<noteq> db"
    and rm: "room (babs s)" and r0: "c_refs (babs s) lb = 0" and r1: "0 < c_refs (babs s) db"
    and "card {m. 0 < c_refs (babs s) m} < NBUF"
  shows "wp (kbind (kget l_dev) (\<lambda>dev.
       kbind (log_block tail) (\<lambda>lb. kbind (bread dev lb) (\<lambda>to.
       kbind (lh_get tail) (\<lambda>db. kbind (bread dev db) (\<lambda>from.
       kthen (kbind (bufget from b_data) (bset to))
       (kthen (bwrite to) (kthen (brelse from) (brelse to)))))))))
     (\<lambda>_. bat s (a_copy db lb (babs s)) []) s"
proof -
  let ?a = "babs s"
  have can_db: "can_bread (a_bread lb ?a) db"
    using rm ne r1 by (auto simp: a_defs can_bread_def room_def intro: less_trans)
  have end_abs: "a_brelse lb (a_brelse db (a_bwrite lb (a_bset lb (c_view ?a db) (a_bread db (a_bread lb ?a))))) =
      a_copy db lb ?a"
    using rm ne r0 r1 by (simp add: a_defs a_copy_def room_def fun_eq_iff)
  show ?thesis
    unfolding wp_bind wp_then log_block_def
    apply (subst wp_get, subst wp_get, unfold assms(3) ls)
    apply (rule at_read [OF bat0 [OF assms(1,2)]])
      apply (rule can_bread_room [OF rm], use assms in simp, simp)
    apply (rule at_lh_get [OF _ assms(5)], assumption, unfold db)
    apply (rule at_read, assumption, rule can_db, use ne in simp)
    apply (rule at_data, assumption, rule list.set_intros)
    apply (rule at_set [where n = lb], assumption, simp, use ne in force)
    apply (rule at_write [where n = lb], assumption, simp, use ne in force)
    apply (rule at_relse [where n = db], assumption, simp, use ne r1 in \<open>simp add: a_defs\<close>)
    apply (rule at_relse [where n = lb], assumption, use ne in simp, use ne in \<open>simp add: a_defs\<close>)
    apply (use end_abs ne in simp)
    done
qed

lemma install_body:
  assumes "binv s" and "running s" and "l_dev s = ROOTDEV" and ls: "l_start s + of_nat tail + 1 = lb"
    and "tail < LOGSIZE" and db: "lh_block s ! tail = db" and ne: "lb \<noteq> db"
    and rm: "room (babs s)" and r0: "c_refs (babs s) lb = 0" and r1: "\<not> rec \<Longrightarrow> 0 < c_refs (babs s) db"
    and room2: "card {m. 0 < c_refs (babs s) m} + (if rec then 1 else 0) < NBUF"
  shows "wp (kbind (kget l_dev) (\<lambda>dev.
       kbind (log_block tail) (\<lambda>lb. kbind (bread dev lb) (\<lambda>lbuf.
       kbind (lh_get tail) (\<lambda>db. kbind (bread dev db) (\<lambda>dbuf.
       kthen (kbind (bufget lbuf b_data) (bset dbuf))
       (kthen (bwrite dbuf)
       (kthen (kwhen (\<not> rec) (bunpin dbuf)) (kthen (brelse lbuf) (brelse dbuf))))))))))
     (\<lambda>_. bat s (a_install rec lb db (babs s)) []) s"
proof -
  let ?a = "babs s" and ?v = "c_view (babs s) lb"
  let ?w = "a_bwrite db (a_bset db ?v (a_bread db (a_bread lb ?a)))"
  let ?u = "if rec then ?w else a_bunpin db ?w"
  have clean: "c_view ?a lb = c_disk ?a lb" using brefs_0_clean [OF assms(1)] r0 by simp
  have "{m. 0 < c_refs (a_bread lb ?a) m} = insert lb {m. 0 < c_refs ?a m}" by (auto simp: a_bread_def)
  then have "card {m. 0 < c_refs (a_bread lb ?a) m} \<le> Suc (card {m. 0 < c_refs ?a m})"
    by (simp add: card_insert_le_m1 card_insert_if)
  then have can_db: "can_bread (a_bread lb ?a) db"
    using rm ne r1 room2 by (cases rec) (auto simp: a_bread_def can_bread_def room_def intro: less_trans)
  have end_abs: "a_brelse db (a_brelse lb ?u) = a_install rec lb db ?a"
    using rm ne r0 r1 by (cases rec) (auto simp: a_defs a_copy_def a_install_def room_def fun_eq_iff)
  show ?thesis
    unfolding wp_bind wp_then log_block_def
    apply (subst wp_get, subst wp_get, unfold assms(3) ls)
    apply (rule at_read [OF bat0 [OF assms(1,2)]])
      apply (rule can_bread_room [OF rm], use room2 in simp, simp)
    apply (rule at_lh_get [OF _ assms(5)], assumption, unfold db)
    apply (rule at_read, assumption, rule can_db, use ne in simp)
    apply (rule at_data [where n = lb], assumption, simp)
    apply (rule at_set [where n = db], assumption, simp, use ne in force)
    apply (rule at_write [where n = db], assumption, simp, use ne in force)
    apply (rule wp_mono [where Q = "\<lambda>_. bat s ?u [_, (_, lb)]"])
     apply (cases rec, simp add: wp_simps)
     apply (simp add: wp_when, rule at_unpin [where n = db], assumption, simp, use ne in force)
      apply (use r1 ne in \<open>simp add: a_defs\<close>, simp)
    apply (rule at_relse [where n = lb], assumption, simp, use ne clean in \<open>simp add: a_defs\<close>)
    apply (rule at_relse [where n = db], assumption, use ne in simp, use ne in \<open>simp add: a_defs\<close>)
    apply (use end_abs ne in simp)
    done
qed

section \<open>The header block\<close>

definition hdr_blocks :: "block \<Rightarrow> uint32 list" where
  "hdr_blocks d = map (\<lambda>i. get32 d (4 + 4 * i)) [0..<nat (sint (get32 d 0))]"

definition hdr :: "uint32 list \<Rightarrow> block \<Rightarrow> block" where
  "hdr bs d = put_blocks 0 bs (put32 0 (of_nat (length bs)) d)"

lemma length_put_blocks [simp]: "4 + 4 * (i + length bs) \<le> length d \<Longrightarrow> length (put_blocks i bs d) = length d"
  by (induction bs arbitrary: i d) simp_all

lemma get_put_blocks_before:
  "4 + 4 * (i + length bs) \<le> length d \<Longrightarrow> ofs + 4 \<le> 4 + 4 * i \<Longrightarrow> get32 (put_blocks i bs d) ofs = get32 d ofs"
  by (induction bs arbitrary: i d) (simp_all add: get_put_other)

lemma get_put_blocks:
  "4 + 4 * (i + length bs) \<le> length d \<Longrightarrow> k < length bs \<Longrightarrow> get32 (put_blocks i bs d) (4 + 4 * (i + k)) = bs ! k"
proof (induction bs arbitrary: i d k)
  case (Cons b bs)
  show ?case
  proof (cases k)
    case 0
    then show ?thesis using Cons.prems by (simp add: get_put_blocks_before)
  next
    case (Suc j)
    then show ?thesis using Cons.prems Cons.IH [of "Suc i" "put32 (4 + 4 * i) b d" j] by simp
  qed
qed simp

lemma hdr_props:
  assumes "length d = BSIZE" and "length bs \<le> LOGSIZE"
  shows "length (hdr bs d) = BSIZE" and "get32 (hdr bs d) 0 = of_nat (length bs)"
    and "hdr_blocks (hdr bs d) = bs"
proof -
  have d: "length (put32 0 (of_nat (length bs)) d) = BSIZE" using assms by (simp add: BSIZE_def)
  have fits: "4 + 4 * (0 + length bs) \<le> length (put32 0 (of_nat (length bs)) d)"
    using assms d by (simp add: BSIZE_def LOGSIZE_def)
  show "length (hdr bs d) = BSIZE" using fits d by (simp add: hdr_def)
  show n: "get32 (hdr bs d) 0 = of_nat (length bs)"
    using fits assms by (simp add: hdr_def get_put_blocks_before BSIZE_def)
  have "sint (of_nat (length bs) :: uint32) = int (length bs)"
    using assms(2) by (simp add: LOGSIZE_def signed_of_nat signed_take_bit_int_eq_self)
  then show "hdr_blocks (hdr bs d) = bs"
    using get_put_blocks [OF fits] by (intro nth_equalityI) (simp_all add: hdr_blocks_def n, simp add: hdr_def)
qed

lemma hdr_blocks_0 [simp]: "get32 d 0 = 0 \<Longrightarrow> hdr_blocks d = []"
  by (simp add: hdr_blocks_def)

section \<open>Log fields\<close>

text \<open>Updates of the log's own fields do not touch the cache.\<close>

definition bio_eq :: "'a bio_scheme \<Rightarrow> 'b bio_scheme \<Rightarrow> bool" where
  "bio_eq s t \<longleftrightarrow> bufs t = bufs s \<and> dsk t = dsk s \<and> dwrites t = dwrites s \<and> ptable t = ptable s \<and>
     cpu_proc t = cpu_proc s \<and> hart t = hart s"

lemma bio_eq_simps:
  assumes "bio_eq s t"
  shows "binv t = binv s" "babs t = babs s" "bheld t = bheld s" "running t = running s"
proof -
  note e = assms [unfolded bio_eq_def]
  have h: "bhas t = bhas s" using e by (auto simp: bhas_def fun_eq_iff)
  have f: "bfind t = bfind s" by (intro ext) (simp add: bfind_def h)
  have m: "mypid t = mypid s" using e by (simp add: mypid_def me_def)
  have l: "lru t = lru s" using e by (auto simp: lru_def fun_eq_iff nexts_def [abs_def] prevs_def [abs_def])
  show "binv t = binv s" using e by (simp add: binv_def l buniq_def h)
  have "bview t n = bview s n" "brefs t n = brefs s n" "blocked t n = blocked s n" for n
    by (cases "bfind s n"; simp add: bview_def brefs_def blocked_def f e)+
  then show "babs t = babs s" using e by (simp add: babs_def fun_eq_iff)
  show "bheld t = bheld s" using e by (auto simp: bheld_def fun_eq_iff h m)
  show "running t = running s" using e by (simp add: running_def)
qed

lemma bio_eq_log [simp]:
  "bio_eq s (s\<lparr>lh_n := n\<rparr>)" "bio_eq s (s\<lparr>lh_block := bl\<rparr>)" "bio_eq s (s\<lparr>l_outstanding := n\<rparr>)"
  "bio_eq s (s\<lparr>l_committing := n\<rparr>)" "bio_eq s (s\<lparr>l_start := st, l_size := n, l_dev := dev\<rparr>)"
  by (simp_all add: bio_eq_def)

lemma bat_more:
  assumes "bat s a H t" and "bio_eq s s'" and "bio_eq t t'" and "bio_rest s' t'"
  shows "bat s' a H t'"
  using assms bio_eq_simps [OF assms(3)] by (simp add: bat_def)

lemma bio_rest_upd [simp]:
  "bio_rest s t \<Longrightarrow> bio_rest (s\<lparr>lh_n := n\<rparr>) (t\<lparr>lh_n := n\<rparr>)"
  "bio_rest s t \<Longrightarrow> bio_rest (s\<lparr>lh_block := bl\<rparr>) (t\<lparr>lh_block := bl\<rparr>)"
  by (cases s; cases t; simp add: bio_rest_def same_procs_def running_def me_def)+

lemma bat_upd:
  "bat s a H t \<Longrightarrow> bat (s\<lparr>lh_n := n\<rparr>) a H (t\<lparr>lh_n := n\<rparr>)"
  "bat s a H t \<Longrightarrow> bat (s\<lparr>lh_block := bl\<rparr>) a H (t\<lparr>lh_block := bl\<rparr>)"
  by (auto intro: bat_more simp: batD(3))

lemma bat_log:
  "bat s a H t \<Longrightarrow> lh_n t = lh_n s \<and> lh_block t = lh_block s \<and> l_start t = l_start s \<and> l_dev t = l_dev s"
  by (intro conjI bio_rest_log) (rule batD(3), assumption)+

lemma write_head_wp:
  assumes "binv s" and "running s" and "l_dev s = ROOTDEV" and "lh_n s = int n" and "n \<le> LOGSIZE"
    and "take n (lh_block s) = bs" and "length bs = n" and rm: "room (babs s)" and r0: "c_refs (babs s) (l_start s) = 0"
    and "card {m. 0 < c_refs (babs s) m} < NBUF"
  shows "wp write_head (\<lambda>_. bat s (a_bwrite (l_start s)
     (a_bset (l_start s) (hdr bs (c_view (babs s) (l_start s))) (babs s))) []) s"
proof -
  let ?a = "babs s" and ?l = "l_start s"
  have end_abs: "a_brelse ?l (a_bwrite ?l (a_bset ?l d (a_bread ?l ?a))) = a_bwrite ?l (a_bset ?l d ?a)" for d
    using rm r0 by (simp add: a_defs room_def fun_eq_iff)
  show ?thesis
    unfolding wp_bind wp_then write_head_def
    apply (subst wp_get, subst wp_get, unfold assms(3))
    apply (rule at_read [OF bat0 [OF assms(1,2)]])
      apply (rule can_bread_room [OF rm], use assms in simp, simp)
    apply (subst wp_get, subst wp_get, subst wp_check)
    apply (frule bat_log, rule conjI, use assms in simp)
    apply (rule at_data, assumption, rule list.set_intros)
    apply (rule at_set [where n = ?l], assumption, simp, force)
    apply (rule at_write [where n = ?l], assumption, simp, force)
    apply (rule at_relse [where n = ?l], assumption, simp, simp add: a_defs)
    apply (use end_abs assms in \<open>simp add: hdr_def\<close>)
    done
qed

lemma kfor_lh_set:
  assumes "n \<le> LOGSIZE" and "length (lh_block s) = LOGSIZE"
  shows "kfor [0..<n] (\<lambda>i. lh_set i (f i)) s = Ok ((), s\<lparr>lh_block := map f [0..<n] @ drop n (lh_block s)\<rparr>)"
proof -
  have "wp (kfor [0..<n] (\<lambda>i. lh_set i (f i)))
      (\<lambda>_ t. t = s\<lparr>lh_block := map f [0..<n] @ drop n (lh_block s)\<rparr>) s"
  proof (rule wp_kfor_rev [where I = "\<lambda>xs t. t = s\<lparr>lh_block := map f [0..<length xs] @ drop (length xs) (lh_block s)\<rparr>"])
    fix xs i ys t
    assume eq: "[0..<n] = xs @ i # ys"
      and t: "t = s\<lparr>lh_block := map f [0..<length xs] @ drop (length xs) (lh_block s)\<rparr>"
    have i: "i = length xs" "i < n"
      using upt_split [OF eq] by simp_all
    have "(map f [0..<i] @ drop i (lh_block s))[i := f i] = map f [0..<Suc i] @ drop (Suc i) (lh_block s)"
      using i assms by (simp add: list_update_append Cons_nth_drop_Suc [symmetric])
    then show "wp (lh_set i (f i)) (\<lambda>_ t. t = s\<lparr>lh_block := map f [0..<length (xs @ [i])] @
        drop (length (xs @ [i])) (lh_block s)\<rparr>) t"
      using i assms t by (simp add: lh_set_def wp_simps)
  qed simp_all
  then show ?thesis by (auto dest: wpD)
qed

lemma read_head_wp:
  assumes "binv s" and "running s" and "l_dev s = ROOTDEV" and "length (lh_block s) = LOGSIZE"
    and d: "c_view (babs s) (l_start s) = d" and "0 \<le> sint (get32 d 0)" and "nat (sint (get32 d 0)) \<le> LOGSIZE"
    and rm: "room (babs s)" and r0: "c_refs (babs s) (l_start s) = 0"
    and "card {m. 0 < c_refs (babs s) m} < NBUF"
  shows "wp read_head (\<lambda>_. bat (s\<lparr>lh_n := int (length (hdr_blocks d)),
     lh_block := hdr_blocks d @ drop (length (hdr_blocks d)) (lh_block s)\<rparr>) (babs s) []) s"
proof -
  let ?a = "babs s" and ?l = "l_start s" and ?n = "nat (sint (get32 d 0))"
  let ?s = "s\<lparr>lh_n := sint (get32 d 0), lh_block := hdr_blocks d @ drop ?n (lh_block s)\<rparr>"
  have clean: "c_view ?a ?l = c_disk ?a ?l" using brefs_0_clean [OF assms(1)] r0 by simp
  have end_abs: "a_brelse ?l (a_bread ?l ?a) = ?a"
    using rm by (simp add: a_defs room_def fun_eq_iff)
  have upd: "bat ?s a H (t\<lparr>lh_n := sint (get32 d 0), lh_block := hdr_blocks d @ drop ?n (lh_block t)\<rparr>)"
    if "bat s a H t" for a H t
    using bat_upd(2) [OF bat_upd(1) [OF that]] bat_log [OF that] by simp
  have len: "length (hdr_blocks d) = ?n" by (simp add: hdr_blocks_def)
  have loop: "wp (kfor [0..<?n] (\<lambda>i. lh_set i (get32 d (4 + 4 * i)))) Q t =
      Q () (t\<lparr>lh_block := hdr_blocks d @ drop ?n (lh_block t)\<rparr>)" if "length (lh_block t) = LOGSIZE" for Q t
    using kfor_lh_set [OF assms(7) that, of "\<lambda>i. get32 d (4 + 4 * i)"] by (simp add: wp_def hdr_blocks_def)
  have "wp read_head (\<lambda>_. bat ?s (babs s) []) s"
    unfolding wp_bind wp_then read_head_def
    apply (subst wp_get, subst wp_get, unfold assms(3))
    apply (rule at_read [OF bat0 [OF assms(1,2)]])
      apply (rule can_bread_room [OF rm], use assms in simp, simp)
    apply (rule at_data, assumption, rule list.set_intros)
    apply (frule bat_log, simp only: wp_mod a_keeps d, subst loop, use assms in simp)
    apply (rule at_relse [where n = ?l and s = ?s], drule upd, simp, simp, use clean in simp)
    apply (use end_abs in simp)
    done
  then show ?thesis using assms(6) len by simp
qed

section \<open>Disks and write sequences\<close>

definition apply_writes :: "(uint32 \<times> block) list \<Rightarrow> (uint32 \<Rightarrow> block) \<Rightarrow> uint32 \<Rightarrow> block" where
  "apply_writes ws d = fold (\<lambda>(b, v) d. d(b := v)) ws d"

lemma apply_writes_simps [simp]:
  "apply_writes [] d = d" "apply_writes ((b, v) # ws) d = apply_writes ws (d(b := v))"
  "apply_writes (ws @ vs) d = apply_writes vs (apply_writes ws d)"
  by (simp_all add: apply_writes_def)

lemma apply_writes_other: "b \<notin> fst ` set ws \<Longrightarrow> apply_writes ws d b = d b"
  by (induction ws arbitrary: d) auto

lemma apply_writes_index:
  "distinct (map fst ws) \<Longrightarrow> (b, v) \<in> set ws \<Longrightarrow> apply_writes ws d b = v"
  by (induction ws arbitrary: d) (auto simp: apply_writes_other image_iff)

text \<open>The blocks of the log: the header at \<open>ls\<close>, and \<open>lb ls i\<close> for the \<open>i\<close>-th logged block.\<close>

definition lb :: "uint32 \<Rightarrow> nat \<Rightarrow> uint32" where
  "lb ls i = ls + of_nat i + 1"

definition in_log :: "uint32 \<Rightarrow> uint32 \<Rightarrow> bool" where
  "in_log ls b \<longleftrightarrow> unat (b - ls) \<le> LOGSIZE"

lemma unat_lb: "i < LOGSIZE \<Longrightarrow> unat (lb ls i - ls) = Suc i"
proof -
  assume "i < LOGSIZE"
  then have "unat (of_nat (Suc i) :: uint32) = Suc i"
    by (simp add: unat_of_nat LOGSIZE_def del: of_nat_Suc)
  then show ?thesis by (simp add: lb_def add.commute)
qed

lemma lb_in_log: "i < LOGSIZE \<Longrightarrow> in_log ls (lb ls i)" and ls_in_log: "in_log ls ls"
  by (simp_all add: in_log_def unat_lb)

lemma lb_inj:
  assumes "i < LOGSIZE" and "j < LOGSIZE"
  shows "lb ls i = lb ls j \<longleftrightarrow> i = j"
proof
  assume "lb ls i = lb ls j"
  then have "unat (lb ls i - ls) = unat (lb ls j - ls)" by simp
  then show "i = j" unfolding unat_lb [OF assms(1)] unat_lb [OF assms(2)] by simp
qed simp

lemma lb_ls: "i < LOGSIZE \<Longrightarrow> lb ls i \<noteq> ls"
proof
  assume "i < LOGSIZE" and "lb ls i = ls"
  then show False using unat_lb [of i ls] by simp
qed

lemma apply_writes_dep: "b \<in> fst ` set ws \<Longrightarrow> apply_writes ws d b = apply_writes ws e b"
proof (induction ws arbitrary: d e)
  case (Cons w ws)
  then show ?case by (cases w; cases "b \<in> fst ` set ws") (auto simp: apply_writes_other)
qed simp

text \<open>
  What the log holds for each block: the writes that install it, and the contents of the disk
  after recovery.
\<close>

definition log_writes :: "uint32 \<Rightarrow> uint32 list \<Rightarrow> (uint32 \<Rightarrow> block) \<Rightarrow> (uint32 \<times> block) list" where
  "log_writes ls bs d = map (\<lambda>i. (bs ! i, d (lb ls i))) [0..<length bs]"

definition recovered :: "uint32 \<Rightarrow> (uint32 \<Rightarrow> block) \<Rightarrow> uint32 \<Rightarrow> block" where
  "recovered ls d = apply_writes (log_writes ls (hdr_blocks (d ls)) d) d"

text \<open>A disk on which recovery can run: the header is valid and names no block of the log.\<close>

definition log_disk :: "uint32 \<Rightarrow> (uint32 \<Rightarrow> block) \<Rightarrow> bool" where
  "log_disk ls d \<longleftrightarrow> length (d ls) = BSIZE \<and> 0 \<le> sint (get32 (d ls) 0) \<and>
     nat (sint (get32 (d ls) 0)) \<le> LOGSIZE \<and> list_all (\<lambda>b. \<not> in_log ls b) (hdr_blocks (d ls))"

text \<open>The disk writes of \<open>recover_from_log\<close> and of \<open>commit\<close>, in order.\<close>

definition rec_writes :: "uint32 \<Rightarrow> (uint32 \<Rightarrow> block) \<Rightarrow> (uint32 \<times> block) list" where
  "rec_writes ls d = log_writes ls (hdr_blocks (d ls)) d @ [(ls, hdr [] (d ls))]"

definition commit_writes :: "uint32 \<Rightarrow> uint32 list \<Rightarrow> (uint32 \<Rightarrow> block) \<Rightarrow> (uint32 \<times> block) list" where
  "commit_writes ls bs v =
     map (\<lambda>i. (lb ls i, v (bs ! i))) [0..<length bs] @ [(ls, hdr bs (v ls))] @
     map (\<lambda>i. (bs ! i, v (bs ! i))) [0..<length bs] @ [(ls, hdr [] (hdr bs (v ls)))]"

lemma apply_log_writes:
  assumes "distinct bs" and "i < length bs"
  shows "apply_writes (log_writes ls bs d) e (bs ! i) = d (lb ls i)"
proof (rule apply_writes_index)
  show "distinct (map fst (log_writes ls bs d))"
    using assms(1) map_nth [of bs] by (simp add: log_writes_def o_def)
  show "(bs ! i, d (lb ls i)) \<in> set (log_writes ls bs d)" using assms(2) by (auto simp: log_writes_def)
qed

lemma fst_log_writes [simp]: "fst ` set (log_writes ls bs d) = set bs"
  by (auto simp: log_writes_def set_conv_nth image_iff) force

lemma recovered_clean: "get32 (d ls) 0 = 0 \<Longrightarrow> recovered ls d = d"
  by (simp add: recovered_def log_writes_def)

section \<open>Crash safety of the write sequences\<close>

lemma recovered_old:
  assumes "get32 (d ls) 0 = 0" and "length bs \<le> LOGSIZE" and "k \<le> length bs" and "\<not> in_log ls b"
  shows "recovered ls (apply_writes (take k (commit_writes ls bs v)) d) b = d b"
proof -
  let ?ws = "take k (map (\<lambda>i. (lb ls i, v (bs ! i))) [0..<length bs])"
  have t: "take k (commit_writes ls bs v) = ?ws" using assms(3) by (simp add: commit_writes_def)
  have log: "\<exists>i < LOGSIZE. x = lb ls i" if "x \<in> fst ` set ?ws" for x
  proof -
    have "x \<in> fst ` set (map (\<lambda>i. (lb ls i, v (bs ! i))) [0..<length bs])"
      using that set_take_subset [of k "map (\<lambda>i. (lb ls i, v (bs ! i))) [0..<length bs]"] by blast
    then obtain i where "i < length bs" "x = lb ls i" by auto
    then show ?thesis using assms(2) by (intro exI [of _ i]) simp
  qed
  have "ls \<notin> fst ` set ?ws" using log [of ls] lb_ls by metis
  then have "apply_writes ?ws d ls = d ls" by (rule apply_writes_other)
  moreover have "b \<notin> fst ` set ?ws" using log [of b] assms(4) lb_in_log by metis
  ultimately show ?thesis using assms(1) by (simp add: t recovered_clean apply_writes_other)
qed

lemma recovered_new:
  assumes len: "length (v ls) = BSIZE" and n: "length bs \<le> LOGSIZE" and "distinct bs"
    and "list_all (\<lambda>b. \<not> in_log ls b) bs" and k: "length bs < k" and b: "\<not> in_log ls b"
    and clean: "b \<notin> set bs \<Longrightarrow> d b = v b"
  shows "recovered ls (apply_writes (take k (commit_writes ls bs v)) d) b = v b"
proof -
  let ?n = "length bs"
  let ?w1 = "map (\<lambda>i. (lb ls i, v (bs ! i))) [0..<?n]" and ?w2 = "map (\<lambda>i. (bs ! i, v (bs ! i))) [0..<?n]"
  obtain j where j: "k = Suc (?n + j)" using k by (auto dest: less_imp_Suc_add)
  define e where "e = apply_writes ?w1 d"
  have e_lb: "e (lb ls i) = v (bs ! i)" if "i < ?n" for i
  proof -
    have "distinct (map fst ?w1)" using n lb_inj by (simp add: distinct_map o_def inj_on_def)
    then show ?thesis unfolding e_def using that by (intro apply_writes_index) auto
  qed
  have nb: "b \<noteq> ls" "\<And>i. i < ?n \<Longrightarrow> b \<noteq> lb ls i" using b n ls_in_log lb_in_log by auto
  have e_b: "e b = d b" unfolding e_def by (intro apply_writes_other) (auto dest: nb(2))
  have bs_log: "ls \<notin> set bs" "\<And>i. i < ?n \<Longrightarrow> lb ls i \<notin> set bs"
    using assms(4) n ls_in_log lb_in_log by (auto simp: list_all_iff)
  show ?thesis
  proof (cases "j \<le> ?n")
    case True
    let ?f = "apply_writes (take j ?w2) (e(ls := hdr bs (v ls)))"
    have f: "apply_writes (take k (commit_writes ls bs v)) d = ?f"
      using True by (simp add: commit_writes_def j e_def)
    have sub: "fst ` set (take j ?w2) \<subseteq> set bs"
      using set_take_subset [of j ?w2] by (auto simp: image_subset_iff)
    have f_ls: "?f ls = hdr bs (v ls)" using sub bs_log by (subst apply_writes_other) auto
    then have hb: "hdr_blocks (?f ls) = bs" using hdr_props(3) [OF len n] by simp
    have f_lb: "?f (lb ls i) = v (bs ! i)" if "i < ?n" for i
      using that sub bs_log e_lb lb_ls n by (subst apply_writes_other) auto
    show ?thesis
    proof (cases "b \<in> set bs")
      case True
      then obtain i where "i < ?n" "b = bs ! i" by (auto simp: in_set_conv_nth)
      then show ?thesis using apply_log_writes [OF assms(3)] f_lb by (simp add: f recovered_def hb)
    next
      case False
      then have "?f b = d b" using sub nb e_b by (subst apply_writes_other) auto
      then show ?thesis using False clean by (simp add: f recovered_def hb apply_writes_other)
    qed
  next
    case False
    let ?f = "apply_writes ?w2 (e(ls := hdr bs (v ls)))"
    let ?g = "?f(ls := hdr [] (hdr bs (v ls)))"
    have g: "apply_writes (take k (commit_writes ls bs v)) d = ?g"
      using False by (simp add: commit_writes_def j e_def)
    have "get32 (?g ls) 0 = 0" using hdr_props(2) [of "hdr bs (v ls)" "[]"] hdr_props(1) [OF len n] by simp
    then have "recovered ls ?g = ?g" by (rule recovered_clean)
    moreover have "?f b = v b"
    proof (cases "b \<in> set bs")
      case True
      then have "(b, v b) \<in> set ?w2" by (auto simp: in_set_conv_nth)
      moreover have "distinct (map fst ?w2)" using assms(3) map_nth [of bs] by (simp add: o_def)
      ultimately show ?thesis by (intro apply_writes_index)
    next
      case False
      then have "?f b = d b" using nb e_b by (subst apply_writes_other) auto
      then show ?thesis using False clean by simp
    qed
    ultimately show ?thesis using nb by (simp add: g)
  qed
qed

text \<open>Recovery interrupted after any number of its writes, any number of times.\<close>

inductive crashes :: "uint32 \<Rightarrow> (uint32 \<Rightarrow> block) \<Rightarrow> (uint32 \<Rightarrow> block) \<Rightarrow> bool" for ls d where
  Here: "crashes ls d d"
| Again: "crashes ls d e \<Longrightarrow> crashes ls d (apply_writes (take k (rec_writes ls e)) e)"

lemma recovery_prefix:
  assumes ok: "log_disk ls d"
  shows "log_disk ls (apply_writes (take k (rec_writes ls d)) d) \<and>
    (\<not> in_log ls b \<longrightarrow> recovered ls (apply_writes (take k (rec_writes ls d)) d) b = recovered ls d b)"
proof -
  let ?f = "apply_writes (take k (rec_writes ls d)) d"
  define bs where "bs = hdr_blocks (d ls)"
  let ?w = "log_writes ls bs d"
  have n: "length bs \<le> LOGSIZE" using ok by (simp add: log_disk_def bs_def hdr_blocks_def)
  have bs_log: "ls \<notin> set bs" "\<And>i. i < length bs \<Longrightarrow> lb ls i \<notin> set bs"
    using ok n ls_in_log lb_in_log by (auto simp: list_all_iff log_disk_def bs_def [symmetric])
  have len: "length ?w = length bs" by (simp add: log_writes_def)
  show ?thesis
  proof (cases "k \<le> length bs")
    case True
    have f: "?f = apply_writes (take k ?w) d" using True len by (simp add: rec_writes_def bs_def)
    have sub: "fst ` set (take k ?w) \<subseteq> set bs"
      using image_mono [OF set_take_subset [of k ?w], of fst] by simp
    have f_ls: "?f ls = d ls" unfolding f using sub bs_log(1) by (intro apply_writes_other) blast
    have f_lb: "?f (lb ls i) = d (lb ls i)" if "i < length bs" for i
      unfolding f using sub bs_log(2) [OF that] by (intro apply_writes_other) blast
    have w: "log_writes ls bs ?f = ?w" using f_lb by (simp add: log_writes_def)
    have "recovered ls ?f b = recovered ls d b"
    proof (cases "b \<in> set bs")
      case True
      then show ?thesis
        using apply_writes_dep [of b ?w ?f d] by (simp add: recovered_def f_ls bs_def [symmetric] w)
    next
      case False
      then have "?f b = d b" unfolding f using sub by (intro apply_writes_other) blast
      then show ?thesis
        using False by (simp add: recovered_def f_ls bs_def [symmetric] w apply_writes_other)
    qed
    moreover have "log_disk ls ?f" using ok f_ls by (simp add: log_disk_def)
    ultimately show ?thesis by simp
  next
    case False
    then obtain j where "k = Suc (length bs + j)" by (auto simp: not_le dest: less_imp_Suc_add)
    then have f: "?f = (apply_writes ?w d)(ls := hdr [] (d ls))"
      using len by (simp add: rec_writes_def bs_def [symmetric])
    have l: "length (d ls) = BSIZE" using ok by (simp add: log_disk_def)
    have "get32 (?f ls) 0 = 0" "length (?f ls) = BSIZE" using f hdr_props [OF l, of "[]"] by simp_all
    then have "log_disk ls ?f" "recovered ls ?f = ?f" by (simp_all add: log_disk_def recovered_clean)
    then show ?thesis using f ls_in_log [of ls] by (auto simp: recovered_def bs_def [symmetric])
  qed
qed

lemma crashes_recovered:
  assumes "crashes ls d e" and "log_disk ls d"
  shows "log_disk ls e \<and> (\<forall>b. \<not> in_log ls b \<longrightarrow> recovered ls e b = recovered ls d b)"
  using assms by (induction rule: crashes.induct) (auto dest: recovery_prefix)

section \<open>The loops\<close>

lemma bat_trans: "bat s a H t \<Longrightarrow> bat t a' H' u \<Longrightarrow> bat s a' H' u"
  by (auto simp: bat_def intro: bio_rest_trans)

text \<open>The abstract cache after \<open>i\<close> iterations of each loop.\<close>

definition wl_abs :: "uint32 \<Rightarrow> uint32 list \<Rightarrow> nat \<Rightarrow> acache \<Rightarrow> acache" where
  "wl_abs ls bs i a = (let ws = take i (map (\<lambda>i. (lb ls i, c_view a (bs ! i))) [0..<length bs]) in
     a\<lparr>c_view := apply_writes ws (c_view a), c_disk := apply_writes ws (c_disk a), c_writes := c_writes a @ ws\<rparr>)"

definition in_abs :: "bool \<Rightarrow> uint32 \<Rightarrow> uint32 list \<Rightarrow> nat \<Rightarrow> acache \<Rightarrow> acache" where
  "in_abs recovering ls bs i a = (let ws = take i (log_writes ls bs (c_view a)) in
     a\<lparr>c_view := apply_writes ws (c_view a), c_disk := apply_writes ws (c_disk a), c_writes := c_writes a @ ws,
       c_refs := (if recovering then c_refs a
                  else (\<lambda>b. if b \<in> set (take i bs) then c_refs a b - 1 else c_refs a b))\<rparr>)"

text \<open>The logged blocks \<open>bs\<close> of a transaction are distinct and lie outside the log.\<close>

definition logged :: "uint32 \<Rightarrow> uint32 list \<Rightarrow> bool" where
  "logged ls bs \<longleftrightarrow> length bs \<le> LOGSIZE \<and> list_all (\<lambda>b. \<not> in_log ls b) bs"

lemma loggedD:
  assumes "logged ls bs"
  shows "i < length bs \<Longrightarrow> i < LOGSIZE" and "ls \<notin> set bs" and "i < length bs \<Longrightarrow> lb ls i \<notin> set bs"
    and "i < length bs \<Longrightarrow> j < length bs \<Longrightarrow> lb ls i \<noteq> bs ! j"
proof -
  show i: "i < LOGSIZE" if "i < length bs" for i using assms that by (simp add: logged_def)
  show "ls \<notin> set bs" using assms ls_in_log by (auto simp: logged_def list_all_iff)
  show l: "lb ls i \<notin> set bs" if "i < length bs" for i
    using assms lb_in_log [OF i [OF that]] by (auto simp: logged_def list_all_iff)
  show "lb ls i \<noteq> bs ! j" if "i < length bs" "j < length bs" using l [OF that(1)] that(2) by (auto simp: in_set_conv_nth)
qed

lemma take_writes_lb:
  "i < length bs \<Longrightarrow> take (Suc i) (map f [0..<length bs]) = take i (map f [0..<length bs]) @ [f i]"
  by (simp add: take_Suc_conv_app_nth)

lemma wl_abs_step:
  assumes "logged ls bs" and i: "i < length bs"
  shows "a_copy (bs ! i) (lb ls i) (wl_abs ls bs i a) = wl_abs ls bs (Suc i) a"
proof -
  let ?w = "map (\<lambda>i. (lb ls i, c_view a (bs ! i))) [0..<length bs]"
  have "bs ! i \<notin> fst ` set (take i ?w)"
    using image_mono [OF set_take_subset [of i ?w], of fst] loggedD(4) [OF assms(1) _ i] by force
  then have "apply_writes (take i ?w) (c_view a) (bs ! i) = c_view a (bs ! i)" by (rule apply_writes_other)
  then show ?thesis by (simp add: wl_abs_def a_copy_def a_defs Let_def take_writes_lb [OF i])
qed

lemma in_abs_step:
  assumes "logged ls bs" and "recovering \<or> distinct bs" and i: "i < length bs"
  shows "a_install recovering (lb ls i) (bs ! i) (in_abs recovering ls bs i a) = in_abs recovering ls bs (Suc i) a"
proof -
  let ?w = "log_writes ls bs (c_view a)"
  have "lb ls i \<notin> fst ` set (take i ?w)"
    using image_mono [OF set_take_subset [of i ?w], of fst] loggedD(3) [OF assms(1) i] by force
  then have v: "apply_writes (take i ?w) (c_view a) (lb ls i) = c_view a (lb ls i)" by (rule apply_writes_other)
  have w: "take (Suc i) ?w = take i ?w @ [(bs ! i, c_view a (lb ls i))]"
    using i by (simp add: log_writes_def take_writes_lb)
  have "bs ! i \<notin> set (take i bs)" if "distinct bs"
    using that i by (auto simp: in_set_conv_nth nth_eq_iff_index_eq)
  then show ?thesis
    using assms(2) v w i
    by (auto simp: in_abs_def a_install_def a_copy_def a_defs Let_def take_Suc_conv_app_nth fun_eq_iff)
qed

text \<open>
  The state of the log with the blocks \<open>bs\<close> in the current transaction, and the references of
  a cache in which exactly those blocks are pinned and none is locked.
\<close>

definition log_ok :: "uint32 \<Rightarrow> uint32 list \<Rightarrow> 'a logst_scheme \<Rightarrow> bool" where
  "log_ok ls bs s \<longleftrightarrow> binv s \<and> running s \<and> l_dev s = ROOTDEV \<and> l_start s = ls \<and>
     lh_n s = int (length bs) \<and> length (lh_block s) = LOGSIZE \<and> take (length bs) (lh_block s) = bs \<and>
     logged ls bs"

definition pinned :: "uint32 set \<Rightarrow> acache \<Rightarrow> bool" where
  "pinned B a \<longleftrightarrow> c_refs a = (\<lambda>b. if b \<in> B then 1 else 0) \<and> c_lock a = (\<lambda>_. False)"

lemma pinned_room: "pinned B a \<Longrightarrow> room a"
  by (simp add: pinned_def room_def)

lemma pinned_card: "pinned B a \<Longrightarrow> {m. 0 < c_refs a m} = B"
  by (auto simp: pinned_def)

lemma log_ok_nth: "log_ok ls bs s \<Longrightarrow> i < length bs \<Longrightarrow> lh_block s ! i = bs ! i"
  unfolding log_ok_def by (metis nth_take)

lemma log_ok_bat: "log_ok ls bs s \<Longrightarrow> bat s a H t \<Longrightarrow> log_ok ls bs t"
  using bat_log [of s a H t] batD(1,2) [of s a H t] by (simp add: log_ok_def)

lemma wl_abs_pinned [simp]: "pinned B (wl_abs ls bs i a) = pinned B a"
  by (simp add: pinned_def wl_abs_def Let_def)

lemma in_abs_pinned:
  "pinned (if recovering then {} else set bs) a \<Longrightarrow> recovering \<or> distinct bs \<Longrightarrow> i \<le> length bs \<Longrightarrow>
     pinned (if recovering then {} else set (drop i bs)) (in_abs recovering ls bs i a)"
proof (cases recovering)
  case False
  assume "pinned (if recovering then {} else set bs) a" and "recovering \<or> distinct bs"
  then have a: "c_refs a = (\<lambda>b. if b \<in> set bs then 1 else 0)" "c_lock a = (\<lambda>_. False)" and d: "distinct bs"
    using False by (simp_all add: pinned_def)
  have "b \<in> set bs \<longleftrightarrow> b \<in> set (take i bs) \<or> b \<in> set (drop i bs)" for b
    by (metis Un_iff append_take_drop_id set_append)
  moreover have "b \<in> set (take i bs) \<Longrightarrow> b \<notin> set (drop i bs)" for b
    using set_take_disj_set_drop_if_distinct [OF d, of i i] by blast
  ultimately show ?thesis using False a by (simp add: pinned_def in_abs_def Let_def fun_eq_iff)
qed (simp add: pinned_def in_abs_def Let_def)

lemma write_log_wp:
  assumes ok: "log_ok ls bs s" and pin: "pinned (set bs) (babs s)" and small: "length bs < NBUF"
  shows "wp write_log (\<lambda>_. bat s (wl_abs ls bs (length bs) (babs s)) []) s"
proof -
  let ?a = "babs s" and ?n = "length bs"
  have fields: "nat (lh_n s) = ?n" "binv s" "running s" "logged ls bs" using ok by (simp_all add: log_ok_def)
  show ?thesis
    unfolding write_log_def wp_bind wp_get fields(1)
  proof (rule wp_kfor_rev [where I = "\<lambda>xs. bat s (wl_abs ls bs (length xs) ?a) []"])
    show "bat s (wl_abs ls bs (length []) ?a) [] s"
      using fields by (simp add: bat_def wl_abs_def)
  next
    fix xs i ys t
    assume eq: "[0..<?n] = xs @ i # ys" and I: "bat s (wl_abs ls bs (length xs) ?a) [] t"
    have i: "i = length xs" "i < ?n" using upt_split [OF eq] .
    have okt: "log_ok ls bs t" using log_ok_bat [OF ok I] .
    have at: "babs t = wl_abs ls bs i ?a" using batD(4) [OF I] i by simp
    have pt: "pinned (set bs) (babs t)" using pin by (simp add: at)
    have card: "card {m. 0 < c_refs (babs t) m} < NBUF"
      unfolding pinned_card [OF pt] using card_length [of bs] small by simp
    show "wp (kbind (kget l_dev) (\<lambda>dev. kbind (log_block i) (\<lambda>lb. kbind (bread dev lb) (\<lambda>to.
       kbind (lh_get i) (\<lambda>db. kbind (bread dev db) (\<lambda>from.
       kthen (kbind (bufget from b_data) (bset to))
       (kthen (bwrite to) (kthen (brelse from) (brelse to)))))))))
       (\<lambda>_. bat s (wl_abs ls bs (length (xs @ [i])) ?a) []) t"
    proof (rule wp_mono [OF write_log_body [where lb = "lb ls i" and db = "bs ! i"]])
      show "binv t" "running t" "l_dev t = ROOTDEV" "l_start t + of_nat i + 1 = lb ls i"
        using okt by (simp_all add: log_ok_def lb_def)
      show "i < LOGSIZE" "lb ls i \<noteq> bs ! i" using loggedD [OF fields(4)] i by auto
      show "lh_block t ! i = bs ! i" using log_ok_nth [OF okt i(2)] .
      show "room (babs t)" using pt by (rule pinned_room)
      show "c_refs (babs t) (lb ls i) = 0" "0 < c_refs (babs t) (bs ! i)"
        using pt loggedD(3) [OF fields(4) i(2)] i(2) by (auto simp: pinned_def)
      fix x u assume "bat t (a_copy (bs ! i) (lb ls i) (babs t)) [] u"
      then show "bat s (wl_abs ls bs (length (xs @ [i])) ?a) [] u"
        using bat_trans [OF I] wl_abs_step [OF fields(4) i(2), of ?a] i(1) by (simp add: at)
    qed (rule card)
  qed simp
qed

lemma install_wp:
  assumes ok: "log_ok ls bs s" and pin: "pinned (if recovering then {} else set bs) (babs s)"
    and dist: "recovering \<or> distinct bs \<and> length bs < NBUF"
  shows "wp (install_trans recovering) (\<lambda>_. bat s (in_abs recovering ls bs (length bs) (babs s)) []) s"
proof -
  let ?a = "babs s" and ?n = "length bs"
  have fields: "nat (lh_n s) = ?n" "binv s" "running s" "logged ls bs" using ok by (simp_all add: log_ok_def)
  show ?thesis
    unfolding install_trans_def wp_bind wp_get fields(1)
  proof (rule wp_kfor_rev [where I = "\<lambda>xs. bat s (in_abs recovering ls bs (length xs) ?a) []"])
    show "bat s (in_abs recovering ls bs (length []) ?a) [] s"
      using fields by (simp add: bat_def in_abs_def)
  next
    fix xs i ys t
    assume eq: "[0..<?n] = xs @ i # ys" and I: "bat s (in_abs recovering ls bs (length xs) ?a) [] t"
    have i: "i = length xs" "i < ?n" using upt_split [OF eq] .
    have okt: "log_ok ls bs t" using log_ok_bat [OF ok I] .
    have at: "babs t = in_abs recovering ls bs i ?a" using batD(4) [OF I] i by simp
    let ?B = "if recovering then {} else set (drop i bs)"
    have pt: "pinned ?B (babs t)"
      unfolding at using pin dist i by (intro in_abs_pinned) auto
    have card: "card {m. 0 < c_refs (babs t) m} + (if recovering then 1 else 0) < NBUF"
      unfolding pinned_card [OF pt] using card_length [of "drop i bs"] dist by (auto simp: NBUF_def)
    have sub: "?B \<subseteq> set bs" by (auto dest: in_set_dropD)
    show "wp (kbind (kget l_dev) (\<lambda>dev. kbind (log_block i) (\<lambda>lb. kbind (bread dev lb) (\<lambda>lbuf.
       kbind (lh_get i) (\<lambda>db. kbind (bread dev db) (\<lambda>dbuf.
       kthen (kbind (bufget lbuf b_data) (bset dbuf))
       (kthen (bwrite dbuf)
       (kthen (kwhen (\<not> recovering) (bunpin dbuf)) (kthen (brelse lbuf) (brelse dbuf))))))))))
       (\<lambda>_. bat s (in_abs recovering ls bs (length (xs @ [i])) ?a) []) t"
    proof (rule wp_mono [OF install_body [where lb = "lb ls i" and db = "bs ! i"]])
      show "binv t" "running t" "l_dev t = ROOTDEV" "l_start t + of_nat i + 1 = lb ls i"
        using okt by (simp_all add: log_ok_def lb_def)
      show "i < LOGSIZE" "lb ls i \<noteq> bs ! i" using loggedD [OF fields(4)] i by auto
      show "lh_block t ! i = bs ! i" using log_ok_nth [OF okt i(2)] .
      show "room (babs t)" using pt by (rule pinned_room)
      have "lb ls i \<notin> ?B" using sub loggedD(3) [OF fields(4) i(2)] by blast
      then show "c_refs (babs t) (lb ls i) = 0" using pt by (simp add: pinned_def)
      have "bs ! i \<in> set (drop i bs)"
        unfolding Cons_nth_drop_Suc [OF i(2), symmetric] by simp
      then show "0 < c_refs (babs t) (bs ! i)" if "\<not> recovering" using that pt by (simp add: pinned_def)
      have st: "a_install recovering (lb ls i) (bs ! i) (babs t) = in_abs recovering ls bs (Suc i) ?a"
        unfolding at using dist by (intro in_abs_step [OF fields(4) _ i(2)]) blast
      fix x u assume "bat t (a_install recovering (lb ls i) (bs ! i) (babs t)) [] u"
      then show "bat s (in_abs recovering ls bs (length (xs @ [i])) ?a) [] u"
        unfolding st using bat_trans [OF I] i(1) by simp
    qed (rule card)
  qed simp
qed

section \<open>Recovery and commit\<close>

lemma log_ok_field:
  "log_ok ls bs s \<Longrightarrow> log_ok ls [] (s\<lparr>lh_n := 0\<rparr>)"
  by (simp add: log_ok_def logged_def bio_eq_simps [OF bio_eq_log(1)])

lemma head_wp:
  assumes "log_ok ls bs s" and "pinned B (babs s)" and "finite B" and "card B < NBUF" and "ls \<notin> B"
  shows "wp write_head (\<lambda>_. bat s (a_bwrite ls (a_bset ls (hdr bs (c_view (babs s) ls)) (babs s))) []) s"
proof -
  have "wp write_head (\<lambda>_. bat s (a_bwrite (l_start s) (a_bset (l_start s)
      (hdr bs (c_view (babs s) (l_start s))) (babs s))) []) s"
  proof (rule write_head_wp [where n = "length bs"])
    show "room (babs s)" "c_refs (babs s) (l_start s) = 0" "card {m. 0 < c_refs (babs s) m} < NBUF"
      using assms pinned_room [OF assms(2)] pinned_card [OF assms(2)]
      by (simp_all add: log_ok_def del: babs_simps) (simp add: pinned_def)
  qed (use assms(1) in \<open>simp_all add: log_ok_def logged_def\<close>)
  then show ?thesis using assms(1) by (simp add: log_ok_def)
qed

lemma clean_view: "binv s \<Longrightarrow> pinned {} (babs s) \<Longrightarrow> bview s = dsk s"
  using brefs_0_clean(1) by (fastforce simp: pinned_def fun_eq_iff)

text \<open>What \<open>recover_from_log\<close> does: it performs the writes \<open>rec_writes\<close> and empties the log.\<close>

lemma recover_wp:
  assumes "binv s" and "running s" and "l_dev s = ROOTDEV" and "l_start s = ls"
    and "length (lh_block s) = LOGSIZE" and pin: "pinned {} (babs s)" and ld: "log_disk ls (dsk s)"
  shows "wp recover_from_log (\<lambda>_ t. log_ok ls [] t \<and> pinned {} (babs t) \<and> bview t = dsk t \<and>
     dwrites t = dwrites s @ rec_writes ls (dsk s) \<and> dsk t = apply_writes (rec_writes ls (dsk s)) (dsk s)) s"
proof -
  define bs where "bs = hdr_blocks (dsk s ls)"
  let ?s = "s\<lparr>lh_n := int (length bs), lh_block := bs @ drop (length bs) (lh_block s)\<rparr>"
  have v: "bview s = dsk s" using assms(1) pin by (rule clean_view)
  have n: "length bs \<le> LOGSIZE" and lg: "logged ls bs"
    using ld by (simp_all add: log_disk_def logged_def bs_def hdr_blocks_def)
  have ok_s: "log_ok ls bs ?s"
    using assms n lg bio_eq_simps [of s ?s] by (simp add: log_ok_def bio_eq_def)
  have rd: "wp read_head (\<lambda>_. bat ?s (babs s) []) s"
    unfolding bs_def
  proof (rule read_head_wp)
    show "room (babs s)" "c_refs (babs s) (l_start s) = 0" "card {m. 0 < c_refs (babs s) m} < NBUF"
      using pinned_room [OF pin] pinned_card [OF pin]
      by (simp_all add: NBUF_def del: babs_simps)
  qed (use assms in \<open>simp_all add: v log_disk_def\<close>)
  have ins: "wp (install_trans True) (\<lambda>_. bat t (in_abs True ls bs (length bs) (babs s)) []) t"
    if "bat ?s (babs s) [] t" for t
    using install_wp [OF log_ok_bat [OF ok_s that], of True] pin batD(4) [OF that] by simp
  let ?a = "in_abs True ls bs (length bs) (babs s)"
  have pa: "pinned {} ?a" using in_abs_pinned [of True bs "babs s" "length bs" ls] pin by simp
  have w: "take (length bs) (log_writes ls bs (dsk s)) = log_writes ls bs (dsk s)" by (simp add: log_writes_def)
  have a_ls: "c_view ?a ls = dsk s ls"
    using loggedD(2) [OF lg] by (simp add: in_abs_def v w Let_def apply_writes_other)
  have hd: "wp write_head (\<lambda>_. bat (u\<lparr>lh_n := 0\<rparr>) (a_bwrite ls (a_bset ls (hdr [] (dsk s ls)) ?a)) []) (u\<lparr>lh_n := 0\<rparr>)"
    if u: "log_ok ls bs u" "babs u = ?a" for u
  proof -
    have "babs (u\<lparr>lh_n := 0\<rparr>) = ?a" by (simp add: u(2) bio_eq_simps(2) [OF bio_eq_log(1)])
    then show ?thesis using head_wp [OF log_ok_field [OF u(1)], of "{}"] pa a_ls by (simp add: NBUF_def del: babs_simps)
  qed
  have fin: "log_ok ls [] t \<and> pinned {} (babs t) \<and> bview t = dsk t \<and>
     dwrites t = dwrites s @ rec_writes ls (dsk s) \<and> dsk t = apply_writes (rec_writes ls (dsk s)) (dsk s)"
    if "log_ok ls bs u" "bat (u\<lparr>lh_n := 0\<rparr>) (a_bwrite ls (a_bset ls (hdr [] (dsk s ls)) ?a)) [] t" for u t
  proof -
    have b: "babs t = a_bwrite ls (a_bset ls (hdr [] (dsk s ls)) ?a)" using batD(4) [OF that(2)] .
    have pt: "pinned {} (babs t)" using pa by (simp add: b pinned_def a_defs)
    have "dwrites t = c_writes (babs t)" "dsk t = c_disk (babs t)" by simp_all
    then show ?thesis
      using log_ok_bat [OF log_ok_field [OF that(1)] that(2)] pt clean_view [OF batD(1) [OF that(2)] pt]
      unfolding b by (simp add: a_bwrite_def a_bset_def in_abs_def Let_def v w rec_writes_def bs_def [symmetric])
  qed
  show ?thesis
    unfolding recover_from_log_def wp_then
    apply (rule wp_mono [OF rd])
    apply (rule wp_mono [OF ins], assumption)
    apply (frule log_ok_bat [OF ok_s])
    apply (frule log_ok_bat, assumption)
    apply (simp only: wp_mod)
    apply (rule wp_mono [OF hd], assumption, erule batD(4))
    apply (erule fin, assumption)
    done
qed

text \<open>
  What \<open>commit\<close> does with a transaction of the blocks \<open>bs\<close>, all pinned in the cache: it performs
  the writes \<open>commit_writes\<close>, after which the home location of every block has the contents of
  the cache, no block is pinned and the log is empty.
\<close>

lemma wl_abs_full:
  "c_view (wl_abs ls bs (length bs) a) = apply_writes (map (\<lambda>i. (lb ls i, c_view a (bs ! i))) [0..<length bs]) (c_view a)"
  "c_disk (wl_abs ls bs (length bs) a) = apply_writes (map (\<lambda>i. (lb ls i, c_view a (bs ! i))) [0..<length bs]) (c_disk a)"
  "c_writes (wl_abs ls bs (length bs) a) = c_writes a @ map (\<lambda>i. (lb ls i, c_view a (bs ! i))) [0..<length bs]"
  by (simp_all add: wl_abs_def Let_def)

lemma in_abs_full:
  "c_view (in_abs r ls bs (length bs) a) = apply_writes (log_writes ls bs (c_view a)) (c_view a)"
  "c_disk (in_abs r ls bs (length bs) a) = apply_writes (log_writes ls bs (c_view a)) (c_disk a)"
  "c_writes (in_abs r ls bs (length bs) a) = c_writes a @ log_writes ls bs (c_view a)"
  by (simp_all add: in_abs_def Let_def log_writes_def)

lemma a_head:
  "c_writes (a_bwrite n (a_bset n d a)) = c_writes a @ [(n, d)]"
  "c_disk (a_bwrite n (a_bset n d a)) = (c_disk a)(n := d)"
  by (simp_all add: a_defs)

lemma pinned_head [simp]: "pinned B (a_bwrite n (a_bset n d a)) = pinned B a"
  by (simp add: pinned_def a_defs)

lemma commit_wp:
  assumes ok: "log_ok ls bs s" and pin: "pinned (set bs) (babs s)" and dist: "distinct bs"
    and small: "length bs < NBUF" and ne: "bs \<noteq> []"
  shows "wp commit (\<lambda>_ t. log_ok ls [] t \<and> pinned {} (babs t) \<and> bview t = dsk t \<and>
     dwrites t = dwrites s @ commit_writes ls bs (bview s) \<and>
     dsk t = apply_writes (commit_writes ls bs (bview s)) (dsk s)) s"
proof -
  let ?v = "bview s" and ?w1 = "map (\<lambda>i. (lb ls i, bview s (bs ! i))) [0..<length bs]"
  have lg: "logged ls bs" using ok by (simp add: log_ok_def)
  let ?a1 = "wl_abs ls bs (length bs) (babs s)"
  have "ls \<notin> fst ` set ?w1" using lb_ls loggedD(1) [OF lg] by (auto simp: eq_commute [of ls])
  then have v1: "c_view ?a1 ls = ?v ls" by (simp add: wl_abs_full apply_writes_other)
  let ?a2 = "a_bwrite ls (a_bset ls (hdr bs (?v ls)) ?a1)"
  have v2: "c_view ?a2 (lb ls i) = ?v (bs ! i)" if "i < length bs" for i
  proof -
    have "distinct (map fst ?w1)"
      using lb_inj loggedD(1) [OF lg] by (simp add: distinct_map o_def inj_on_def)
    then have "apply_writes ?w1 ?v (lb ls i) = ?v (bs ! i)"
      using that by (intro apply_writes_index) auto
    then show ?thesis using lb_ls [of i ls] loggedD(1) [OF lg that] by (simp add: a_defs wl_abs_full)
  qed
  have lw: "log_writes ls bs (c_view ?a2) = map (\<lambda>i. (bs ! i, ?v (bs ! i))) [0..<length bs]"
    unfolding log_writes_def using v2 by simp
  let ?a3 = "in_abs False ls bs (length bs) ?a2"
  have v3: "c_view ?a3 ls = hdr bs (?v ls)"
    using loggedD(2) [OF lg] by (simp add: in_abs_full apply_writes_other) (simp add: a_defs)
  have p2: "pinned (set bs) ?a2" using pin by simp
  have p3: "pinned {} ?a3" using in_abs_pinned [of False bs ?a2 "length bs" ls] p2 dist by simp
  have h1: "wp write_head (\<lambda>_. bat t ?a2 []) t" if t: "bat s ?a1 [] t" for t
    using head_wp [OF log_ok_bat [OF ok t], of "set bs"] pin batD(4) [OF t] v1 small
      card_length [of bs] loggedD(2) [OF lg] by (simp del: babs_simps)
  have ins: "wp (install_trans False) (\<lambda>_. bat u ?a3 []) u" if "log_ok ls bs u" "babs u = ?a2" for u
    using install_wp [OF that(1), of False] p2 that(2) dist small by simp
  let ?a4 = "a_bwrite ls (a_bset ls (hdr [] (hdr bs (?v ls))) ?a3)"
  have h2: "wp write_head (\<lambda>_. bat (u\<lparr>lh_n := 0\<rparr>) ?a4 []) (u\<lparr>lh_n := 0\<rparr>)" if u: "log_ok ls bs u" "babs u = ?a3" for u
  proof -
    have "babs (u\<lparr>lh_n := 0\<rparr>) = ?a3" by (simp add: u(2) bio_eq_simps(2) [OF bio_eq_log(1)])
    then show ?thesis using head_wp [OF log_ok_field [OF u(1)], of "{}"] p3 v3 by (simp add: NBUF_def del: babs_simps)
  qed
  have fin: "log_ok ls [] t \<and> pinned {} (babs t) \<and> bview t = dsk t \<and>
     dwrites t = dwrites s @ commit_writes ls bs (bview s) \<and>
     dsk t = apply_writes (commit_writes ls bs (bview s)) (dsk s)"
    if "log_ok ls bs u" "bat (u\<lparr>lh_n := 0\<rparr>) ?a4 [] t" for u t
  proof -
    have b: "babs t = ?a4" using batD(4) [OF that(2)] .
    have pt: "pinned {} (babs t)" using p3 by (simp add: b)
    have "dwrites t = c_writes ?a4" "dsk t = c_disk ?a4" using b by (metis babs_simps)+
    moreover have "c_writes ?a4 = dwrites s @ commit_writes ls bs (bview s)"
      "c_disk ?a4 = apply_writes (commit_writes ls bs (bview s)) (dsk s)"
      by (simp_all only: a_head in_abs_full lw wl_abs_full babs_simps commit_writes_def
          apply_writes_simps append_assoc)
    ultimately show ?thesis
      using log_ok_bat [OF log_ok_field [OF that(1)] that(2)] pt clean_view [OF batD(1) [OF that(2)] pt] by simp
  qed
  have n: "0 < lh_n s" using ok ne by (simp add: log_ok_def)
  show ?thesis
    unfolding commit_def wp_bind wp_get wp_when wp_then if_P [OF n]
    apply (rule wp_mono [OF write_log_wp [OF ok pin small]])
    apply (rule wp_mono [OF h1], assumption)
    apply (drule log_ok_bat [OF ok], drule log_ok_bat, assumption)
    apply (rule wp_mono [OF ins], assumption, erule batD(4))
    apply (drule log_ok_bat, assumption, simp only: wp_mod)
    apply (rule wp_mono [OF h2], assumption, erule batD(4))
    apply (erule fin, assumption)
    done
qed

section \<open>Building a transaction\<close>

lemma find_log_in:
  assumes "b \<in> set bs" and "take (length bs) bl = bs"
  shows "find_log b (length bs) bl < length bs \<and> bl ! find_log b (length bs) bl = b"
proof -
  obtain i where "i < length bs" "bs ! i = b" using assms(1) by (auto simp: in_set_conv_nth)
  then have "bl ! i = b" using assms(2) by (metis nth_take)
  with \<open>i < length bs\<close> have "find (\<lambda>i. bl ! i = b) [0..<length bs] \<noteq> None" by (auto simp: find_None_iff)
  then obtain j where "find (\<lambda>i. bl ! i = b) [0..<length bs] = Some j" by blast
  then show ?thesis using find_SomeD by (fastforce simp: find_log_def)
qed

lemma find_log_out:
  assumes "b \<notin> set bs" and "take (length bs) bl = bs"
  shows "find_log b (length bs) bl = length bs"
proof -
  have "bl ! i \<noteq> b" if "i < length bs" for i
    using that assms by (metis nth_mem nth_take)
  then have "find (\<lambda>i. bl ! i = b) [0..<length bs] = None" by (auto simp: find_None_iff)
  then show ?thesis by (simp add: find_log_def)
qed

definition log_rest :: "'a logst_scheme \<Rightarrow> 'a logst_scheme \<Rightarrow> bool" where
  "log_rest s t \<longleftrightarrow> same_procs s t \<and> l_start t = l_start s \<and> l_size t = l_size s \<and>
     l_outstanding t = l_outstanding s \<and> l_committing t = l_committing s \<and> l_dev t = l_dev s \<and>
     logst.more t = logst.more s"

lemma log_rest_trans: "log_rest s t \<Longrightarrow> log_rest t u \<Longrightarrow> log_rest s u"
  by (auto simp: log_rest_def intro: same_procs_trans)

lemma log_rest_bio: "bio_rest s t \<Longrightarrow> log_rest s t"
  by (simp add: log_rest_def) (simp add: bio_rest_def)

text \<open>The logged blocks after \<open>log_write\<close>: a block already logged is absorbed.\<close>

definition add_block :: "uint32 \<Rightarrow> uint32 list \<Rightarrow> uint32 list" where
  "add_block n bs = (if n \<in> set bs then bs else bs @ [n])"

lemma log_write_wp:
  assumes ok: "log_ok ls bs s" and h: "bheld s r n" and "\<not> in_log ls n" and "length bs < LOGSIZE"
    and "int (length bs) < l_size s - 1" and "1 \<le> l_outstanding s" and refs: "c_refs (babs s) n < 2 ^ 30"
  shows "wp (log_write r) (\<lambda>_ t. log_ok ls (add_block n bs) t \<and> log_rest s t \<and>
     babs t = (if n \<in> set bs then babs s else a_bpin n (babs s)) \<and> (\<forall>q m. bheld s q m \<longrightarrow> bheld t q m)) s"
proof -
  note f = ok [unfolded log_ok_def]
  have bno: "b_blockno (bufs s r) = n" using bheld_view [of s r n] f h by simp
  have c: "\<not> (lh_n s \<ge> int LOGSIZE \<or> lh_n s \<ge> l_size s - 1)" "\<not> l_outstanding s < 1" "nat (lh_n s) = length bs"
    using f assms by auto
  show ?thesis
  proof (cases "n \<in> set bs")
    case True
    note i = find_log_in [OF True, of "lh_block s"]
    have "(lh_block s)[find_log n (length bs) (lh_block s) := n] = lh_block s"
      using i f by (metis list_update_id)
    then have "log_write r s = Ok ((), s)"
      using i f c assms(4) by (simp add: log_write_def krun bno Let_def lh_set_def)
    then show ?thesis using True ok by (simp add: wp_def add_block_def log_rest_def)
  next
    case False
    note i = find_log_out [OF False, of "lh_block s"]
    let ?s = "s\<lparr>lh_block := (lh_block s)[length bs := n]\<rparr>"
    have eq: "bio_eq s ?s" by simp
    have run: "log_write r s = kthen (bpin r) (kmod (\<lambda>s. s\<lparr>lh_n := lh_n s + 1\<rparr>)) ?s"
      using i f c assms(4) by (simp add: log_write_def krun bno Let_def lh_set_def)
    have tk: "take (Suc (length bs)) ((lh_block s)[length bs := n]) = bs @ [n]"
      using f assms(4) by (simp add: take_Suc_conv_app_nth)
    have "bat ?s (babs s) [(r, n)] ?s" using f h bio_eq_simps [OF eq] by (simp add: bat_def)
    then have "wp (bpin r) (\<lambda>_. bat ?s (a_bpin n (babs s)) [(r, n)]) ?s"
      by (rule at_pin) (use refs in auto)
    then obtain t where t: "bpin r ?s = Ok ((), t)" "bat ?s (a_bpin n (babs s)) [(r, n)] t" by (auto dest: wpD)
    let ?t = "t\<lparr>lh_n := lh_n t + 1\<rparr>"
    have eqt: "bio_eq t ?t" by simp
    have "Suc (c_refs (babs ?s) n) < 2 ^ 32" using refs by (simp only: bio_eq_simps(2) [OF eq]) simp
    then have sr: "Suc (brefs ?s n) < 2 ^ 32" by simp
    have "binv ?s" "bheld ?s r n" using f h by (simp_all only: bio_eq_simps [OF eq])
    then have "wp (bpin r) (\<lambda>_ t. keeps_others n ?s t) ?s"
      by (rule wp_mono [OF bpin_refines [OF _ _ sr]]) blast
    then have "keeps_others n ?s t" using t(1) by (simp add: wp_def)
    then have held: "bheld ?t q m" if "bheld s q m" for q m
    proof (cases "m = n")
      case True
      have "bfind s n = Some q" "bfind s n = Some r" using bheld_blocked [of s] that True h f by blast+
      then have "q = r" by simp
      then show ?thesis using True batD(5) [OF t(2), of r n] by (simp add: bio_eq_simps(3) [OF eqt])
    next
      case False
      with that \<open>keeps_others n ?s t\<close> show ?thesis
        by (simp add: keeps_others_def bio_eq_simps(3) [OF eq] bio_eq_simps(3) [OF eqt])
    qed
    have l: "lh_n t = lh_n s" "lh_block t = (lh_block s)[length bs := n]" using bat_log [OF t(2)] by simp_all
    have r: "log_rest s ?t"
    proof -
      have "log_rest ?s t" using batD(3) [OF t(2)] by (rule log_rest_bio)
      then show ?thesis by (simp add: log_rest_def same_procs_def running_def me_def)
    qed
    have "logged ls (bs @ [n])" using f assms(3,4) by (simp add: logged_def)
    then have "log_ok ls (bs @ [n]) ?t"
      using f l tk batD(1,2) [OF t(2)] bat_log [OF t(2)] bio_eq_simps [OF eqt] by (simp add: log_ok_def)
    moreover have "babs ?t = a_bpin n (babs s)" using batD(4) [OF t(2)] bio_eq_simps(2) [OF eqt] by simp
    ultimately show ?thesis
      using False run t(1) r held by (intro wpI) (auto simp: kthen_Ok krun add_block_def)
  qed
qed

section \<open>Crash safety of commit\<close>

lemma apply_writes_cases: "apply_writes ws d b = d b \<or> (b, apply_writes ws d b) \<in> set ws"
proof (induction ws arbitrary: d)
  case (Cons w ws)
  obtain a x where w: "w = (a, x)" by (cases w)
  have "apply_writes ws e b = e b \<or> (b, apply_writes ws e b) \<in> set ws" for e by (rule Cons.IH)
  then show ?case using w apply_writes_simps(2) by (metis fun_upd_apply list.set_intros)
qed simp

lemma commit_log_disk:
  assumes lg: "logged ls bs" and d: "get32 (d ls) 0 = 0" "length (d ls) = BSIZE" and v: "length (v ls) = BSIZE"
  shows "log_disk ls (apply_writes (take k (commit_writes ls bs v)) d)"
proof -
  let ?e = "apply_writes (take k (commit_writes ls bs v)) d"
  have n: "length bs \<le> LOGSIZE" and out: "list_all (\<lambda>b. \<not> in_log ls b) bs" using lg by (simp_all add: logged_def)
  have 1: "length (hdr bs (v ls)) = BSIZE" using hdr_props(1) [OF v n] .
  have 2: "get32 (hdr [] (hdr bs (v ls))) 0 = 0" "length (hdr [] (hdr bs (v ls))) = BSIZE"
    using hdr_props [OF 1, of "[]"] by simp_all
  have "?e ls = d ls \<or> (ls, ?e ls) \<in> set (commit_writes ls bs v)"
    using apply_writes_cases [of "take k (commit_writes ls bs v)" d ls] by (auto dest: in_set_takeD)
  moreover have "x = hdr bs (v ls) \<or> x = hdr [] (hdr bs (v ls))" if "(ls, x) \<in> set (commit_writes ls bs v)" for x
  proof -
    have "ls \<noteq> lb ls i" "ls \<noteq> bs ! i" if "i < length bs" for i
      using lb_ls loggedD(1,2) [OF lg] that nth_mem by metis+
    with that show ?thesis unfolding commit_writes_def by auto blast+
  qed
  ultimately consider "?e ls = d ls" | "?e ls = hdr bs (v ls)" | "?e ls = hdr [] (hdr bs (v ls))" by blast
  then show ?thesis
  proof cases
    case 2
    have "sint (of_nat (length bs) :: uint32) = int (length bs)"
      using n by (simp add: LOGSIZE_def signed_of_nat signed_take_bit_int_eq_self)
    then show ?thesis using 2 1 n out hdr_props(2,3) [OF v n] by (simp add: log_disk_def)
  qed (use d 2 in \<open>simp_all add: log_disk_def\<close>)
qed

lemma pinned_view:
  assumes "binv s" and "pinned B (babs s)" and "b \<notin> B"
  shows "bview s b = dsk s b"
  using assms brefs_0_clean(1) [of s b] by (simp add: pinned_def fun_eq_iff)


section \<open>A transaction of one block\<close>

text \<open>A machine that has just mounted a disk of zeroes, in its first transaction.\<close>

lemma log_start:
  "\<exists>s :: logst. log_ok 2 [] s \<and> pinned {} (babs s) \<and> dsk s = (\<lambda>_. replicate BSIZE 0) \<and>
     l_outstanding s = 1 \<and> l_size s = 30"
proof -
  obtain c where c: "binv c" "running c" "\<forall>n. can_bread (babs c) n" "\<forall>n. brefs c n = 0"
      "dsk (c :: bio) = (\<lambda>_. replicate BSIZE 0)"
    using fresh_cache by blast
  let ?s = "\<lparr>mem = mem c, freelist = freelist c, kend = kend c, kernel_pagetable = kernel_pagetable c,
    satp = satp c, ptable = ptable c, initproc = initproc c,
    nextpid = nextpid c, cpu_proc = cpu_proc c, hart = hart c, bufs = bufs c, dsk = dsk c, dwrites = dwrites c,
    l_start = 2, l_size = 30, l_outstanding = 1, l_committing = 0, l_dev = ROOTDEV, lh_n = 0,
    lh_block = replicate LOGSIZE 0\<rparr> :: logst"
  have e: "bio_eq c ?s" by (simp add: bio_eq_def)
  have "c_lock (babs c) n = False" "c_refs (babs c) n = 0" for n
    using c by (simp_all add: can_bread_def)
  then have "pinned {} (babs ?s)" unfolding bio_eq_simps(2) [OF e] pinned_def by (simp only: fun_eq_iff) simp
  moreover have "binv ?s" "running ?s" using c(1,2) by (simp_all only: bio_eq_simps [OF e])
  then have "log_ok 2 [] ?s" by (simp add: log_ok_def logged_def)
  ultimately show ?thesis using c by (intro exI [of _ ?s]) simp
qed

definition log_block_op :: "uint32 \<Rightarrow> block \<Rightarrow> ('a logst_scheme, unit) kop" where
  "log_block_op n d = kbind (bread ROOTDEV n) (\<lambda>b. kthen (bset b d) (kthen (log_write b) (brelse b)))"

lemma log_block_wp:
  assumes ok: "log_ok ls bs s" and pin: "pinned (set bs) (babs s)" and "\<not> in_log ls n" and "length bs < LOGSIZE"
    and "int (length bs) < l_size s - 1" and "1 \<le> l_outstanding s" and "length bs < NBUF"
  shows "wp (log_block_op n d) (\<lambda>_ t. log_ok ls (add_block n bs) t \<and> pinned (set (add_block n bs)) (babs t) \<and>
     bview t = (bview s)(n := d) \<and> dsk t = dsk s \<and> log_rest s t) s"
  unfolding log_block_op_def wp_bind wp_then
proof (rule at_read [OF bat0])
  have ok': "binv s" "running s" using ok by (simp_all add: log_ok_def)
  then show "binv s" "running s" .
  have "card {m. 0 < c_refs (babs s) m} < NBUF"
    unfolding pinned_card [OF pin] using card_length [of bs] assms(7) by simp
  then show "can_bread (babs s) n" using pin by (auto simp: can_bread_def pinned_def simp del: babs_simps)
  fix r t
  assume t: "bat s (a_bread n (babs s)) [(r, n)] t"
  show "wp (bset r d) (\<lambda>_. wp (log_write r) (\<lambda>_. wp (brelse r) (\<lambda>_ t. log_ok ls (add_block n bs) t \<and>
     pinned (set (add_block n bs)) (babs t) \<and> bview t = (bview s)(n := d) \<and> dsk t = dsk s \<and> log_rest s t))) t"
  proof (rule at_set [OF t])
    fix u
    let ?a = "a_bset n d (a_bread n (babs s))"
    let ?b = "if n \<in> set bs then ?a else a_bpin n ?a"
    assume u: "bat s ?a [(r, n)] u"
    note b = batD [OF u] bat_log [OF u]
    have sz: "l_size u = l_size s" "l_outstanding u = l_outstanding s"
      using log_rest_bio [OF b(3)] by (simp_all add: log_rest_def)
    have refs: "c_refs ?a n < 2 ^ 30" using pin by (auto simp: a_defs pinned_def simp del: babs_simps)
    show "wp (log_write r) (\<lambda>_. wp (brelse r) (\<lambda>_ t. log_ok ls (add_block n bs) t \<and>
     pinned (set (add_block n bs)) (babs t) \<and> bview t = (bview s)(n := d) \<and> dsk t = dsk s \<and> log_rest s t)) u"
    proof (rule wp_mono [OF log_write_wp [OF log_ok_bat [OF ok u] b(5) assms(3,4)]])
      fix x w
      assume "log_ok ls (add_block n bs) w \<and> log_rest u w \<and>
        babs w = (if n \<in> set bs then babs u else a_bpin n (babs u)) \<and> (\<forall>q m. bheld u q m \<longrightarrow> bheld w q m)"
      then have w: "log_ok ls (add_block n bs) w" "log_rest u w" "bat w ?b [(r, n)] w"
        using b(4,5) by (auto simp: bat_def log_ok_def)
      show "wp (brelse r) (\<lambda>_ t. log_ok ls (add_block n bs) t \<and> pinned (set (add_block n bs)) (babs t) \<and>
        bview t = (bview s)(n := d) \<and> dsk t = dsk s \<and> log_rest s t) w"
      proof (rule at_relse [OF w(3)])
        show "c_view ?b n = c_disk ?b n" if "c_refs ?b n = 1"
          using that pin by (auto simp: a_defs pinned_def simp del: babs_simps split: if_splits)
        fix v
        assume v: "bat w (a_brelse n ?b) (filter (\<lambda>(q, m). m \<noteq> n) [(r, n)]) v"
        have r: "log_rest s v"
          using log_rest_trans [OF log_rest_bio [OF b(3)] log_rest_trans [OF w(2) log_rest_bio [OF batD(3) [OF v]]]] .
        have "pinned (set (add_block n bs)) (babs v)"
          using pin by (auto simp: batD(4) [OF v] a_defs pinned_def add_block_def fun_eq_iff simp del: babs_simps)
        moreover have "c_view (babs v) = (c_view (babs s))(n := d)" "c_disk (babs v) = c_disk (babs s)"
          unfolding batD(4) [OF v] by (auto simp: a_defs)
        ultimately show "log_ok ls (add_block n bs) v \<and> pinned (set (add_block n bs)) (babs v) \<and>
          bview v = (bview s)(n := d) \<and> dsk v = dsk s \<and> log_rest s v"
          using log_ok_bat [OF w(1) v] r by simp
      qed simp
    qed (use assms sz refs b in simp_all)
  qed simp_all
qed simp

lemma txn_start:
  "\<exists>s :: logst. log_ok 2 [100] s \<and> pinned {100} (babs s) \<and> dsk s = (\<lambda>_. replicate BSIZE 0) \<and>
     bview s 100 = replicate BSIZE 7"
proof -
  obtain s :: logst where s: "log_ok 2 [] s" "pinned {} (babs s)" "dsk s = (\<lambda>_. replicate BSIZE 0)"
      "l_outstanding s = 1" "l_size s = 30"
    using log_start by blast
  have "\<not> in_log 2 100" by (simp add: in_log_def LOGSIZE_def)
  then have "wp (log_block_op 100 (replicate BSIZE 7)) (\<lambda>_ t. log_ok 2 (add_block 100 []) t \<and>
      pinned (set (add_block 100 [])) (babs t) \<and> bview t = (bview s)(100 := replicate BSIZE 7) \<and>
      dsk t = dsk s \<and> log_rest s t) s"
    using s by (intro log_block_wp) (simp_all add: LOGSIZE_def NBUF_def)
  then obtain t :: logst where "log_ok 2 [100] t" "pinned {100} (babs t)" "bview t = (bview s)(100 := replicate BSIZE 7)" "dsk t = dsk s"
    by (auto dest!: wpD simp: add_block_def)
  with s show ?thesis by (intro exI [of _ t]) simp
qed








end
