(* ===== verification/Fs.thy ===== *)
theory Fs
  imports Log
begin

text \<open>
  The file system of \<^verbatim>\<open>kernel/fs.c\<close> on top of the log: the block allocator, the inode table,
  file contents, directories and path names. Inode pointers are indices of \<^verbatim>\<open>itable.inode\<close>;
  \<^verbatim>\<open>itable.lock\<close> makes the accesses to the table atomic. Names, paths and directory entries in
  kernel buffers are byte lists; a list stands for a C string without its final zero.
\<close>

section \<open>The on-disk format\<close>

definition ROOTINO :: uint32 where "ROOTINO = 1"
definition FSMAGIC :: uint32 where "FSMAGIC = 0x10203040"
definition NDIRECT :: nat where "NDIRECT = 12"
definition NINDIRECT :: nat where "NINDIRECT = BSIZE div 4"
definition MAXFILE :: nat where "MAXFILE = NDIRECT + NINDIRECT"
definition IPB :: nat where "IPB = BSIZE div 64"
definition BPB :: nat where "BPB = BSIZE * 8"
definition DIRSIZ :: nat where "DIRSIZ = 14"
definition NINODE :: nat where "NINODE = 50"
definition T_DIR :: ushort where "T_DIR = 1"
definition T_FILE :: ushort where "T_FILE = 2"
definition T_DEVICE :: ushort where "T_DEVICE = 3"

record superblock =
  sb_magic :: uint32
  sb_size :: uint32
  sb_nblocks :: uint32
  sb_ninodes :: uint32
  sb_nlog :: uint32
  sb_logstart :: uint32
  sb_inodestart :: uint32
  sb_bmapstart :: uint32

definition IBLOCK :: "uint32 \<Rightarrow> superblock \<Rightarrow> uint32" where
  "IBLOCK i sb = i div of_nat IPB + sb_inodestart sb"

definition BBLOCK :: "uint32 \<Rightarrow> superblock \<Rightarrow> uint32" where
  "BBLOCK b sb = b div of_nat BPB + sb_bmapstart sb"

record dinode =
  di_type :: ushort
  di_major :: ushort
  di_minor :: ushort
  di_nlink :: ushort
  di_size :: uint32
  di_addrs :: "uint32 list"

text \<open>The structure at byte \<open>ofs\<close> of a block: 64 bytes.\<close>

definition dinode_at :: "uchar list \<Rightarrow> nat \<Rightarrow> dinode" where
  "dinode_at d ofs = \<lparr>di_type = get16 d ofs, di_major = get16 d (ofs + 2), di_minor = get16 d (ofs + 4),
     di_nlink = get16 d (ofs + 6), di_size = get32 d (ofs + 8),
     di_addrs = map (\<lambda>i. get32 d (ofs + 12 + 4 * i)) [0..<Suc NDIRECT]\<rparr>"

primrec put_words :: "nat \<Rightarrow> uint32 list \<Rightarrow> uchar list \<Rightarrow> uchar list" where
  "put_words ofs [] d = d"
| "put_words ofs (w # ws) d = put_words (ofs + 4) ws (put32 ofs w d)"

definition put_dinode :: "nat \<Rightarrow> dinode \<Rightarrow> uchar list \<Rightarrow> uchar list" where
  "put_dinode ofs x d =
     put_words (ofs + 12) (di_addrs x)
       (put32 (ofs + 8) (di_size x)
         (put16 (ofs + 6) (di_nlink x)
           (put16 (ofs + 4) (di_minor x) (put16 (ofs + 2) (di_major x) (put16 ofs (di_type x) d)))))"

definition dinode_ofs :: "uint32 \<Rightarrow> nat" where
  "dinode_ofs inum = 64 * unat (inum mod of_nat IPB)"

section \<open>State\<close>

record inode =
  i_dev :: uint32
  i_inum :: uint32
  i_ref :: int
  i_lock :: sleeplock
  i_valid :: int
  i_type :: ushort
  i_major :: ushort
  i_minor :: ushort
  i_nlink :: ushort
  i_size :: uint32
  i_addrs :: "uint32 list"

record fsst = logst +
  sb :: superblock
  inodes :: "nat \<Rightarrow> inode"

definition upd_inode :: "nat \<Rightarrow> (inode \<Rightarrow> inode) \<Rightarrow> 'a fsst_scheme \<Rightarrow> 'a fsst_scheme" where
  "upd_inode ip f s = s\<lparr>inodes := (inodes s)(ip := f (inodes s ip))\<rparr>"

abbreviation imod :: "nat \<Rightarrow> (inode \<Rightarrow> inode) \<Rightarrow> ('a fsst_scheme, unit) kop" where
  "imod ip f \<equiv> kmod (upd_inode ip f)"

abbreviation iread :: "nat \<Rightarrow> (inode \<Rightarrow> 'b) \<Rightarrow> ('a fsst_scheme, 'b) kop" where
  "iread ip f \<equiv> kget (\<lambda>s. f (inodes s ip))"

definition inode_lock :: "nat \<Rightarrow> 'a fsst_scheme slptr" where
  "inode_lock ip = \<lparr>sl_get = (\<lambda>s. i_lock (inodes s ip)),
     sl_upd = (\<lambda>f. upd_inode ip (\<lambda>x. x\<lparr>i_lock := f (i_lock x)\<rparr>)), sl_chan = ChInodeLock ip\<rparr>"

definition readsb :: "uint32 \<Rightarrow> ('a fsst_scheme, unit) kop" where
  "readsb dev =
     kbind (bread dev 1) (\<lambda>bp. kbind (bufget bp b_data) (\<lambda>d.
     kthen (kmod (\<lambda>s. s\<lparr>sb := \<lparr>sb_magic = get32 d 0, sb_size = get32 d 4, sb_nblocks = get32 d 8,
              sb_ninodes = get32 d 12, sb_nlog = get32 d 16, sb_logstart = get32 d 20,
              sb_inodestart = get32 d 24, sb_bmapstart = get32 d 28\<rparr>\<rparr>))
           (brelse bp)))"

definition fsinit :: "uint32 \<Rightarrow> ('a fsst_scheme, unit) kop" where
  "fsinit dev =
     kthen (readsb dev)
     (kbind (kget sb) (\<lambda>sb.
      kthen (kwhen (sb_magic sb \<noteq> FSMAGIC) (kpanic ''invalid file system''))
            (initlog dev (sb_logstart sb) (sb_nlog sb))))"

section \<open>Blocks\<close>

definition bzero :: "uint32 \<Rightarrow> uint32 \<Rightarrow> ('a fsst_scheme, unit) kop" where
  "bzero dev bno =
     kbind (bread dev bno) (\<lambda>bp.
     kthen (bset bp (replicate BSIZE 0))
     (kthen (log_write bp)
            (brelse bp)))"

text \<open>The bit of block \<open>bi\<close> in a block of the free map.\<close>

definition bit_mask :: "nat \<Rightarrow> uchar" where
  "bit_mask bi = push_bit (bi mod 8) 1"

definition bit_free :: "uchar list \<Rightarrow> nat \<Rightarrow> bool" where
  "bit_free d bi \<longleftrightarrow> d ! (bi div 8) AND bit_mask bi = 0"

definition balloc :: "uint32 \<Rightarrow> ('a fsst_scheme, uint32) kop" where
  "balloc dev =
     kbind (kget sb) (\<lambda>sb.
     kbind (kfind (map (\<lambda>k. k * BPB) [0..<(unat (sb_size sb) + BPB - 1) div BPB]) (\<lambda>b.
       kbind (bread dev (BBLOCK (of_nat b) sb)) (\<lambda>bp.
       kbind (bufget bp b_data) (\<lambda>d.
       case find (bit_free d) [0..<min BPB (unat (sb_size sb) - b)] of
         Some bi \<Rightarrow>
           kthen (bset bp (d[bi div 8 := d ! (bi div 8) OR bit_mask bi]))
           (kthen (log_write bp)
           (kthen (brelse bp)
           (kthen (bzero dev (of_nat (b + bi)))
                  (kret (Some (of_nat (b + bi)))))))
       | None \<Rightarrow> kthen (brelse bp) (kret None)))))
     (\<lambda>r. case r of Some b \<Rightarrow> kret b | None \<Rightarrow> kpanic ''balloc: out of blocks''))"

definition bfree :: "uint32 \<Rightarrow> uint32 \<Rightarrow> ('a fsst_scheme, unit) kop" where
  "bfree dev b =
     kbind (kget sb) (\<lambda>sb.
     kbind (bread dev (BBLOCK b sb)) (\<lambda>bp.
     let bi = unat b mod BPB in
     kbind (bufget bp b_data) (\<lambda>d.
     kthen (kwhen (bit_free d bi) (kpanic ''freeing free block''))
     (kthen (bset bp (d[bi div 8 := d ! (bi div 8) AND NOT (bit_mask bi)]))
     (kthen (log_write bp)
            (brelse bp))))))"

section \<open>Inodes\<close>

definition iinit :: "('a fsst_scheme, unit) kop" where
  "iinit = kfor [0..<NINODE] (\<lambda>i. initsleeplock (inode_lock i))"

text \<open>The loop of \<open>iget\<close> finds the entry in use, or else the first free one.\<close>

definition iget :: "uint32 \<Rightarrow> uint32 \<Rightarrow> ('a fsst_scheme, nat) kop" where
  "iget dev inum =
     kbind (kget inodes) (\<lambda>tbl.
     case find (\<lambda>ip. i_ref (tbl ip) > 0 \<and> i_dev (tbl ip) = dev \<and> i_inum (tbl ip) = inum) [0..<NINODE] of
       Some ip \<Rightarrow> kthen (imod ip (\<lambda>x. x\<lparr>i_ref := i_ref x + 1\<rparr>)) (kret ip)
     | None \<Rightarrow>
         (case find (\<lambda>ip. i_ref (tbl ip) = 0) [0..<NINODE] of
            None \<Rightarrow> kpanic ''iget: no inodes''
          | Some ip \<Rightarrow>
              kthen (imod ip (\<lambda>x. x\<lparr>i_dev := dev, i_inum := inum, i_ref := 1, i_valid := 0\<rparr>)) (kret ip)))"

definition ialloc :: "uint32 \<Rightarrow> ushort \<Rightarrow> ('a fsst_scheme, nat) kop" where
  "ialloc dev type =
     kbind (kget sb) (\<lambda>sb.
     kbind (kfind [1..<unat (sb_ninodes sb)] (\<lambda>inum.
       kbind (bread dev (IBLOCK (of_nat inum) sb)) (\<lambda>bp.
       kbind (bufget bp b_data) (\<lambda>d.
       let ofs = dinode_ofs (of_nat inum) in
       if get16 d ofs = 0
       then kthen (bset bp (put16 ofs type (splice ofs (replicate 64 0) d)))
            (kthen (log_write bp)
            (kthen (brelse bp)
            (kbind (iget dev (of_nat inum)) (\<lambda>ip. kret (Some ip)))))
       else kthen (brelse bp) (kret None)))))
     (\<lambda>r. case r of Some ip \<Rightarrow> kret ip | None \<Rightarrow> kpanic ''ialloc: no inodes''))"

definition iupdate :: "nat \<Rightarrow> ('a fsst_scheme, unit) kop" where
  "iupdate ip =
     kbind (kget sb) (\<lambda>sb. kbind (iread ip (\<lambda>x. x)) (\<lambda>x.
     kbind (bread (i_dev x) (IBLOCK (i_inum x) sb)) (\<lambda>bp.
     kthen (kbind (bufget bp b_data) (\<lambda>d. bset bp
       (put_dinode (dinode_ofs (i_inum x)) \<lparr>di_type = i_type x, di_major = i_major x, di_minor = i_minor x,
          di_nlink = i_nlink x, di_size = i_size x, di_addrs = i_addrs x\<rparr> d)))
     (kthen (log_write bp)
            (brelse bp)))))"

definition idup :: "nat \<Rightarrow> ('a fsst_scheme, nat) kop" where
  "idup ip = kthen (imod ip (\<lambda>x. x\<lparr>i_ref := i_ref x + 1\<rparr>)) (kret ip)"

definition ilock :: "nat \<Rightarrow> ('a fsst_scheme, unit) kop" where
  "ilock ip =
     kbind (iread ip i_ref) (\<lambda>r.
     kthen (kwhen (r < 1) (kpanic ''ilock''))
     (kthen (acquiresleep (inode_lock ip))
     (kbind (iread ip (\<lambda>x. x)) (\<lambda>x. kbind (kget sb) (\<lambda>sb.
      kwhen (i_valid x = 0)
       (kbind (bread (i_dev x) (IBLOCK (i_inum x) sb)) (\<lambda>bp.
        kbind (bufget bp b_data) (\<lambda>d.
        let dip = dinode_at d (dinode_ofs (i_inum x)) in
        kthen (imod ip (\<lambda>x. x\<lparr>i_type := di_type dip, i_major := di_major dip, i_minor := di_minor dip,
                i_nlink := di_nlink dip, i_size := di_size dip, i_addrs := di_addrs dip\<rparr>))
        (kthen (brelse bp)
        (kthen (imod ip (\<lambda>x. x\<lparr>i_valid := 1\<rparr>))
               (kwhen (di_type dip = 0) (kpanic ''ilock: no type''))))))))))))"

definition iunlock :: "nat \<Rightarrow> ('a fsst_scheme, unit) kop" where
  "iunlock ip =
     kbind (holdingsleep (inode_lock ip)) (\<lambda>h. kbind (iread ip i_ref) (\<lambda>r.
     kthen (kwhen (\<not> h \<or> r < 1) (kpanic ''iunlock''))
           (releasesleep (inode_lock ip))))"

section \<open>Inode contents\<close>

text \<open>The conversion of an unsigned result to the \<^verbatim>\<open>int\<close> a function returns.\<close>

definition c_int :: "int \<Rightarrow> int" where
  "c_int n = sint (word_of_int n :: uint32)"

text \<open>\<open>a[i]\<close> for the block of \<open>uint\<close>s in buffer \<open>bp\<close>.\<close>

abbreviation word_at :: "nat \<Rightarrow> nat \<Rightarrow> ('a fsst_scheme, uint32) kop" where
  "word_at bp i \<equiv> kbind (bufget bp b_data) (\<lambda>d. kret (get32 d (4 * i)))"

definition bmap :: "nat \<Rightarrow> uint32 \<Rightarrow> ('a fsst_scheme, uint32) kop" where
  "bmap ip bn =
     kbind (iread ip (\<lambda>x. x)) (\<lambda>x.
     if unat bn < NDIRECT
     then let i = unat bn; addr = i_addrs x ! i in
       if addr = 0
       then kbind (balloc (i_dev x)) (\<lambda>addr.
            kthen (imod ip (\<lambda>x. x\<lparr>i_addrs := (i_addrs x)[i := addr]\<rparr>)) (kret addr))
       else kret addr
     else let i = unat bn - NDIRECT in
       if i < NINDIRECT
       then
         kbind (if i_addrs x ! NDIRECT = 0
                then kbind (balloc (i_dev x)) (\<lambda>addr.
                     kthen (imod ip (\<lambda>x. x\<lparr>i_addrs := (i_addrs x)[NDIRECT := addr]\<rparr>)) (kret addr))
                else kret (i_addrs x ! NDIRECT)) (\<lambda>ind.
         kbind (bread (i_dev x) ind) (\<lambda>bp.
         kbind (word_at bp i) (\<lambda>addr.
         kbind (if addr = 0
                then kbind (balloc (i_dev x)) (\<lambda>addr.
                     kthen (kbind (bufget bp b_data) (\<lambda>d. bset bp (put32 (4 * i) addr d)))
                     (kthen (log_write bp)
                            (kret addr)))
                else kret addr) (\<lambda>addr.
         kthen (brelse bp) (kret addr)))))
       else kpanic ''bmap: out of range'')"

definition itrunc :: "nat \<Rightarrow> ('a fsst_scheme, unit) kop" where
  "itrunc ip =
     kbind (iread ip i_dev) (\<lambda>dev.
     kthen (kfor [0..<NDIRECT] (\<lambda>i.
       kbind (iread ip (\<lambda>x. i_addrs x ! i)) (\<lambda>a.
       kwhen (a \<noteq> 0)
         (kthen (bfree dev a) (imod ip (\<lambda>x. x\<lparr>i_addrs := (i_addrs x)[i := 0]\<rparr>))))))
     (kthen (kbind (iread ip (\<lambda>x. i_addrs x ! NDIRECT)) (\<lambda>ind.
       kwhen (ind \<noteq> 0)
         (kbind (bread dev ind) (\<lambda>bp.
          kthen (kfor [0..<NINDIRECT] (\<lambda>j.
            kbind (word_at bp j) (\<lambda>a. kwhen (a \<noteq> 0) (bfree dev a))))
          (kthen (brelse bp)
          (kthen (bfree dev ind)
                 (imod ip (\<lambda>x. x\<lparr>i_addrs := (i_addrs x)[NDIRECT := 0]\<rparr>))))))))
     (kthen (imod ip (\<lambda>x. x\<lparr>i_size := 0\<rparr>))
            (iupdate ip))))"

definition iput :: "nat \<Rightarrow> ('a fsst_scheme, unit) kop" where
  "iput ip =
     kbind (iread ip (\<lambda>x. x)) (\<lambda>x.
     kthen (kwhen (i_ref x = 1 \<and> i_valid x \<noteq> 0 \<and> i_nlink x = 0)
       (kthen (acquiresleep (inode_lock ip))
       (kthen (itrunc ip)
       (kthen (imod ip (\<lambda>x. x\<lparr>i_type := 0\<rparr>))
       (kthen (iupdate ip)
       (kthen (imod ip (\<lambda>x. x\<lparr>i_valid := 0\<rparr>))
              (releasesleep (inode_lock ip))))))))
     (imod ip (\<lambda>x. x\<lparr>i_ref := i_ref x - 1\<rparr>)))"

definition iunlockput :: "nat \<Rightarrow> ('a fsst_scheme, unit) kop" where
  "iunlockput ip = kthen (iunlock ip) (iput ip)"

record stat =
  st_dev :: uint32
  st_ino :: uint32
  st_type :: ushort
  st_nlink :: ushort
  st_size :: uint64

definition stati :: "nat \<Rightarrow> ('a fsst_scheme, stat) kop" where
  "stati ip = iread ip (\<lambda>x. \<lparr>st_dev = i_dev x, st_ino = i_inum x, st_type = i_type x, st_nlink = i_nlink x,
     st_size = ucast (i_size x)\<rparr>)"

text \<open>
  The two halves of \<^verbatim>\<open>either_copyout\<close> and \<^verbatim>\<open>either_copyin\<close>: a user address, or an object of the
  kernel. What \<open>readi\<close> stores in a kernel object is returned as bytes.
\<close>

datatype src = User_src uint64 | Kern_src "uchar list"

definition either_copyout :: "uint64 option \<Rightarrow> uchar list \<Rightarrow> ('a ptab_scheme, int) kop" where
  "either_copyout user_dst bs =
     kbind myproc (\<lambda>p.
     case user_dst of
       Some dst \<Rightarrow> kbind (pget p p_pagetable) (\<lambda>pt. copyout pt dst bs)
     | None \<Rightarrow> kret 0)"

definition either_copyin :: "src \<Rightarrow> nat \<Rightarrow> ('a ptab_scheme, int \<times> uchar list) kop" where
  "either_copyin src len =
     kbind myproc (\<lambda>p.
     case src of
       User_src va \<Rightarrow> kbind (pget p p_pagetable) (\<lambda>pt. copyin pt va len)
     | Kern_src bs \<Rightarrow> kret (0, take len bs))"

fun src_plus :: "src \<Rightarrow> nat \<Rightarrow> src" where
  "src_plus (User_src va) m = User_src (va + of_nat m)"
| "src_plus (Kern_src bs) m = Kern_src (drop m bs)"

text \<open>
  The loop of \<open>readi\<close>: offset, bytes left, bytes read so far. The checks before the loop make
  these additions free of overflow, so they are natural numbers here.
\<close>

lemma block_rest_pos: "0 < BSIZE - off mod BSIZE"
  by (simp add: BSIZE_def)

function readi_loop :: "nat \<Rightarrow> uint64 option \<Rightarrow> nat \<Rightarrow> nat \<Rightarrow> nat \<Rightarrow> ('a fsst_scheme, int \<times> uchar list) kop" where
  "readi_loop ip dst off n tot =
     (if n = 0 then kret (int tot, [])
      else kbind (iread ip i_dev) (\<lambda>dev.
        kbind (bmap ip (of_nat (off div BSIZE))) (\<lambda>b.
        kbind (bread dev b) (\<lambda>bp.
        let m = min n (BSIZE - off mod BSIZE) in
        kbind (bufget bp (\<lambda>x. slice (off mod BSIZE) m (b_data x))) (\<lambda>bs.
        kbind (either_copyout dst bs) (\<lambda>r.
        if r = -1 then kthen (brelse bp) (kret (-1, []))
        else kthen (brelse bp)
            (kbind (readi_loop ip (map_option (\<lambda>va. va + of_nat m) dst) (off + m) (n - m) (tot + m)) (\<lambda>(r, cs).
             kret (r, bs @ cs)))))))))"
  by pat_completeness auto
termination
proof (relation "measure (\<lambda>(ip, dst, off, n, tot). n)", goal_cases)
  case (2 ip dst off n tot)
  then show ?case using block_rest_pos [of off] by simp
qed simp

declare readi_loop.simps [simp del]

definition readi :: "nat \<Rightarrow> uint64 option \<Rightarrow> uint32 \<Rightarrow> uint32 \<Rightarrow> ('a fsst_scheme, int \<times> uchar list) kop" where
  "readi ip dst off n =
     kbind (iread ip i_size) (\<lambda>sz.
     if off > sz \<or> off + n < off then kret (0, [])
     else let n = (if off + n > sz then sz - off else n) in
       kbind (readi_loop ip dst (unat off) (unat n) 0) (\<lambda>(tot, bs). kret (c_int tot, bs)))"

text \<open>
  The loop of \<open>writei\<close> returns the bytes written and the final offset. When the copy fails, the
  bytes already copied stay in the buffer, which is not logged.
\<close>

function writei_loop :: "nat \<Rightarrow> src \<Rightarrow> nat \<Rightarrow> nat \<Rightarrow> nat \<Rightarrow> ('a fsst_scheme, nat \<times> nat) kop" where
  "writei_loop ip src off n tot =
     (if n = 0 then kret (tot, off)
      else kbind (iread ip i_dev) (\<lambda>dev.
        kbind (bmap ip (of_nat (off div BSIZE))) (\<lambda>b.
        kbind (bread dev b) (\<lambda>bp.
        let m = min n (BSIZE - off mod BSIZE) in
        kbind (either_copyin src m) (\<lambda>(r, bs).
        kthen (kbind (bufget bp b_data) (\<lambda>d. bset bp (splice (off mod BSIZE) bs d)))
        (if r = -1 then kthen (brelse bp) (kret (tot, off))
         else kthen (log_write bp)
             (kthen (brelse bp)
                    (writei_loop ip (src_plus src m) (off + m) (n - m) (tot + m)))))))))"
  by pat_completeness auto
termination
proof (relation "measure (\<lambda>(ip, src, off, n, tot). n)", goal_cases)
  case (2 ip src off n tot)
  then show ?case using block_rest_pos [of off] by simp
qed simp

declare writei_loop.simps [simp del]

definition writei :: "nat \<Rightarrow> src \<Rightarrow> uint32 \<Rightarrow> uint32 \<Rightarrow> ('a fsst_scheme, int) kop" where
  "writei ip src off n =
     kbind (iread ip i_size) (\<lambda>sz.
     if off > sz \<or> off + n < off then kret (-1)
     else if unat (off + n) > MAXFILE * BSIZE then kret (-1)
     else kbind (writei_loop ip src (unat off) (unat n) 0) (\<lambda>(tot, off).
       kthen (kwhen (off > unat sz) (imod ip (\<lambda>x. x\<lparr>i_size := of_nat off\<rparr>)))
       (kthen (iupdate ip)
              (kret (c_int (int tot))))))"

section \<open>Directories\<close>

text \<open>\<^verbatim>\<open>strncmp\<close> and \<^verbatim>\<open>strncpy\<close> on byte lists, where the end of a list is the final zero.\<close>

primrec lstrncmp :: "nat \<Rightarrow> uchar list \<Rightarrow> uchar list \<Rightarrow> int" where
  "lstrncmp 0 p q = 0"
| "lstrncmp (Suc n) p q =
     (let a = (case p of [] \<Rightarrow> 0 | c # _ \<Rightarrow> c); b = (case q of [] \<Rightarrow> 0 | c # _ \<Rightarrow> c) in
      if a \<noteq> 0 \<and> a = b then lstrncmp n (tl p) (tl q) else uint a - uint b)"

definition lstrncpy :: "nat \<Rightarrow> uchar list \<Rightarrow> uchar list" where
  "lstrncpy n t = (let c = take n (takeWhile (\<lambda>c. c \<noteq> 0) t) in c @ replicate (n - length c) 0)"

definition namecmp :: "uchar list \<Rightarrow> uchar list \<Rightarrow> int" where
  "namecmp s t = lstrncmp DIRSIZ s t"

record dirent =
  de_inum :: ushort
  de_name :: "uchar list"

definition dirent_of :: "uchar list \<Rightarrow> dirent" where
  "dirent_of bs = \<lparr>de_inum = get16 bs 0, de_name = slice 2 DIRSIZ bs\<rparr>"

definition bytes_of_dirent :: "dirent \<Rightarrow> uchar list" where
  "bytes_of_dirent de = le_bytes 2 (de_inum de) @ de_name de"

text \<open>The offsets of the entries of a directory of \<open>sz\<close> bytes.\<close>

definition dir_offs :: "uint32 \<Rightarrow> nat list" where
  "dir_offs sz = map (\<lambda>k. 16 * k) [0..<(unat sz + 15) div 16]"

definition dirlookup :: "nat \<Rightarrow> uchar list \<Rightarrow> ('a fsst_scheme, (nat \<times> uint32) option) kop" where
  "dirlookup dp name =
     kbind (iread dp (\<lambda>x. x)) (\<lambda>x.
     kthen (kwhen (i_type x \<noteq> T_DIR) (kpanic ''dirlookup not DIR''))
     (kfind (dir_offs (i_size x)) (\<lambda>off.
        kbind (readi dp None (of_nat off) 16) (\<lambda>(r, bs).
        kthen (kwhen (r \<noteq> 16) (kpanic ''dirlookup read''))
        (let de = dirent_of bs in
         if de_inum de = 0 then kret None
         else if namecmp name (de_name de) = 0
         then kbind (iget (i_dev x) (ucast (de_inum de))) (\<lambda>ip. kret (Some (ip, of_nat off)))
         else kret None)))))"

definition dirlink :: "nat \<Rightarrow> uchar list \<Rightarrow> uint32 \<Rightarrow> ('a fsst_scheme, int) kop" where
  "dirlink dp name inum =
     kbind (dirlookup dp name) (\<lambda>r.
     case r of
       Some (ip, _) \<Rightarrow> kthen (iput ip) (kret (-1))
     | None \<Rightarrow>
         kbind (iread dp i_size) (\<lambda>sz.
         kbind (kfind (dir_offs sz) (\<lambda>off.
           kbind (readi dp None (of_nat off) 16) (\<lambda>(r, bs).
           kthen (kwhen (r \<noteq> 16) (kpanic ''dirlink read''))
           (kret (if de_inum (dirent_of bs) = 0 then Some off else None))))) (\<lambda>hole.
         let off = (case hole of Some off \<Rightarrow> off | None \<Rightarrow> 16 * ((unat sz + 15) div 16));
             de = \<lparr>de_inum = ucast inum, de_name = lstrncpy DIRSIZ name\<rparr> in
         kbind (writei dp (Kern_src (bytes_of_dirent de)) (of_nat off) 16) (\<lambda>r.
         kthen (kwhen (r \<noteq> 16) (kpanic ''dirlink''))
               (kret 0)))))"

section \<open>Paths\<close>

definition slash :: uchar where "slash = 47"

definition skipelem :: "uchar list \<Rightarrow> (uchar list \<times> uchar list) option" where
  "skipelem path =
     (let p = dropWhile (\<lambda>c. c = slash) path in
      if p = [] then None
      else let s = takeWhile (\<lambda>c. c \<noteq> slash) p in
        Some (take DIRSIZ s, dropWhile (\<lambda>c. c = slash) (drop (length s) p)))"

lemma skipelem_shorter: "skipelem path = Some (name, rest) \<Longrightarrow> length rest < length path"
proof -
  assume a: "skipelem path = Some (name, rest)"
  let ?p = "dropWhile (\<lambda>c. c = slash) path"
  have p: "?p \<noteq> []" "rest = dropWhile (\<lambda>c. c = slash) (drop (length (takeWhile (\<lambda>c. c \<noteq> slash) ?p)) ?p)"
    using a by (auto simp: skipelem_def Let_def split: if_splits)
  have "hd ?p \<noteq> slash" using p(1) by (rule hd_dropWhile)
  then have "0 < length (takeWhile (\<lambda>c. c \<noteq> slash) ?p)" using p(1) by (cases ?p) auto
  then have "length rest < length ?p"
    using p(1) length_dropWhile_le [of "\<lambda>c. c = slash" "drop (length (takeWhile (\<lambda>c. c \<noteq> slash) ?p)) ?p"]
    unfolding p(2) by (cases ?p) auto
  also have "length ?p \<le> length path" by (rule length_dropWhile_le)
  finally show ?thesis .
qed

function namex_loop :: "nat \<Rightarrow> uchar list \<Rightarrow> bool \<Rightarrow> uchar list \<Rightarrow> ('a fsst_scheme, (nat \<times> uchar list) option) kop" where
  "namex_loop ip path parent name =
     (case skipelem path of
        None \<Rightarrow> if parent then kthen (iput ip) (kret None) else kret (Some (ip, name))
      | Some (name, path) \<Rightarrow>
          kthen (ilock ip)
          (kbind (iread ip i_type) (\<lambda>ty.
           if ty \<noteq> T_DIR then kthen (iunlockput ip) (kret None)
           else if parent \<and> path = [] then kthen (iunlock ip) (kret (Some (ip, name)))
           else kbind (dirlookup ip name) (\<lambda>r.
             case r of
               None \<Rightarrow> kthen (iunlockput ip) (kret None)
             | Some (nxt, _) \<Rightarrow> kthen (iunlockput ip) (namex_loop nxt path parent name)))))"
  by pat_completeness auto
termination
  by (relation "measure (\<lambda>(ip, path, parent, name). length path)") (auto dest: skipelem_shorter)

declare namex_loop.simps [simp del]

definition namex :: "uchar list \<Rightarrow> bool \<Rightarrow> ('a fsst_scheme, (nat \<times> uchar list) option) kop" where
  "namex path parent =
     kbind (if path \<noteq> [] \<and> hd path = slash then iget ROOTDEV ROOTINO
            else kbind myproc (\<lambda>p. kbind (pget p p_cwd) (\<lambda>c.
              case c of Some ip \<Rightarrow> idup ip | None \<Rightarrow> kfault))) (\<lambda>ip.
     namex_loop ip path parent [])"

definition namei :: "uchar list \<Rightarrow> ('a fsst_scheme, nat option) kop" where
  "namei path = kbind (namex path False) (\<lambda>r. kret (map_option fst r))"

definition nameiparent :: "uchar list \<Rightarrow> ('a fsst_scheme, (nat \<times> uchar list) option) kop" where
  "nameiparent path = namex path True"

end
