(* ===== verification/Msg.thy ===== *)
theory Msg
  imports Prelude
begin

text \<open>
  The keyboard message queue of \<^verbatim>\<open>kernel/msg.c\<close> and \<^verbatim>\<open>kernel/msg.h\<close>, with the system
  calls \<^verbatim>\<open>sys_getmsg\<close> and \<^verbatim>\<open>sys_listenmsgs\<close> of \<^verbatim>\<open>kernel/sysproc.c\<close>. Every operation
  runs with \<^verbatim>\<open>msglock\<close> held from its first access to its last, so each is one atomic
  step on the globals. The ring of \<open>NMSG\<close> bytes implements a queue that keeps the last
  \<open>NMSG - 1\<close> bytes and drops the oldest when it overflows.
\<close>

section \<open>The ring buffer\<close>

definition NMSG :: nat where
  "NMSG = 128"

record msgs =
  msgqueue :: "uchar list"
  listening :: int
  qfront :: nat
  qback :: nat

text \<open>The macros \<open>increase\<close> and \<open>decrease\<close> of \<^verbatim>\<open>msg.h\<close>.\<close>

definition increase :: "nat \<Rightarrow> nat" where
  "increase x = (x + 1) mod NMSG"

definition decrease :: "nat \<Rightarrow> nat" where
  "decrease x = (x + 127) mod NMSG"

definition msg_init :: msgs where
  "msg_init = \<lparr>msgqueue = replicate NMSG 0, listening = 0, qfront = 0, qback = 0\<rparr>"

definition putmsg :: "uchar \<Rightarrow> msgs \<Rightarrow> msgs" where
  "putmsg c s =
     (let s1 = s\<lparr>msgqueue := (msgqueue s)[qback s := c]\<rparr>;
          s2 = s1\<lparr>qback := increase (qback s1)\<rparr>
      in if qfront s2 = qback s2 then s2\<lparr>qfront := increase (qfront s2)\<rparr> else s2)"

definition sys_getmsg :: "msgs \<Rightarrow> uint64 \<times> msgs" where
  "sys_getmsg s =
     (if qfront s = qback s then (0, s)
      else (ucast (msgqueue s ! qfront s), s\<lparr>qfront := increase (qfront s)\<rparr>))"

definition sys_listenmsgs :: "int \<Rightarrow> msgs \<Rightarrow> uint64 \<times> msgs" where
  "sys_listenmsgs arg s =
     (let s1 = s\<lparr>listening := arg\<rparr>
      in (0, if listening s1 = 1 then s1\<lparr>qfront := 0, qback := 0\<rparr> else s1))"

section \<open>The queue it implements\<close>

definition msg_inv :: "msgs \<Rightarrow> bool" where
  "msg_inv s \<longleftrightarrow> length (msgqueue s) = NMSG \<and> qfront s < NMSG \<and> qback s < NMSG"

definition msg_count :: "msgs \<Rightarrow> nat" where
  "msg_count s = (qback s + NMSG - qfront s) mod NMSG"

definition msg_list :: "msgs \<Rightarrow> uchar list" where
  "msg_list s = map (\<lambda>i. msgqueue s ! ((qfront s + i) mod NMSG)) [0..<msg_count s]"

text \<open>
  A lossy queue: \<open>put\<close> appends and keeps the last \<open>cap\<close> elements, \<open>get\<close> removes the
  oldest, \<open>clear\<close> empties.
\<close>

locale lossy_queue =
  fixes put :: "'e \<Rightarrow> 'q \<Rightarrow> 'q"
    and first :: "'q \<Rightarrow> 'e"
    and pop :: "'q \<Rightarrow> 'q"
    and contents :: "'q \<Rightarrow> 'e list"
    and ok :: "'q \<Rightarrow> bool"
    and cap :: nat
  assumes cap_pos: "0 < cap"
    and put_ok: "ok q \<Longrightarrow> ok (put x q)"
    and pop_ok: "ok q \<Longrightarrow> contents q \<noteq> [] \<Longrightarrow> ok (pop q)"
    and put_contents: "ok q \<Longrightarrow> contents (put x q) = lastn cap (contents q @ [x])"
    and first_contents: "ok q \<Longrightarrow> contents q \<noteq> [] \<Longrightarrow> first q = hd (contents q)"
    and pop_contents: "ok q \<Longrightarrow> contents q \<noteq> [] \<Longrightarrow> contents (pop q) = tl (contents q)"
begin

lemma puts_ok: "ok q \<Longrightarrow> ok (fold put xs q)"
  by (induction xs arbitrary: q) (auto simp: put_ok)

lemma puts_contents:
  "ok q \<Longrightarrow> length (contents q) \<le> cap \<Longrightarrow> contents (fold put xs q) = lastn cap (contents q @ xs)"
proof (induction xs rule: rev_induct)
  case Nil
  then show ?case by simp
next
  case (snoc x xs)
  then show ?case
    using lastn_snoc [OF cap_pos, of "contents q @ xs" x]
    by (simp add: put_contents puts_ok)
qed

end

section \<open>The ring refines the queue\<close>

lemma msg_count_less [simp]: "msg_count s < NMSG"
  by (simp add: msg_count_def NMSG_def)

text \<open>Arithmetic modulo the ring size, as case distinctions.\<close>

lemma ring_mod: "n < 2 * NMSG \<Longrightarrow> n mod NMSG = (if n < NMSG then n else n - NMSG)"
  by (simp add: mod_if)

lemma msg_count_alt:
  "msg_inv s \<Longrightarrow> msg_count s = (if qfront s \<le> qback s then qback s - qfront s
     else qback s + NMSG - qfront s)"
  unfolding msg_count_def msg_inv_def by (subst ring_mod) auto

lemma increase_alt: "x < NMSG \<Longrightarrow> increase x = (if Suc x = NMSG then 0 else Suc x)"
  unfolding increase_def by (subst ring_mod) auto

lemma length_msg_list [simp]: "length (msg_list s) = msg_count s"
  by (simp add: msg_list_def)

lemma msg_list_eq_Nil: "msg_inv s \<Longrightarrow> msg_list s = [] \<longleftrightarrow> qfront s = qback s"
  using msg_count_alt [of s] by (auto simp: msg_list_def msg_inv_def split: if_splits)

lemma msg_list_nth: "i < msg_count s \<Longrightarrow> msg_list s ! i = msgqueue s ! ((qfront s + i) mod NMSG)"
  by (simp add: msg_list_def)

text \<open>The slot after the last pending byte is the one \<open>putmsg\<close> writes.\<close>

lemma ring_end: "msg_inv s \<Longrightarrow> (qfront s + msg_count s) mod NMSG = qback s"
  using msg_count_alt [of s]
  by (subst ring_mod) (auto simp: msg_inv_def split: if_splits)

lemma ring_free: "msg_inv s \<Longrightarrow> i < msg_count s \<Longrightarrow> (qfront s + i) mod NMSG \<noteq> qback s"
  using msg_count_alt [of s]
  by (subst ring_mod) (auto simp: msg_inv_def split: if_splits)

lemma putmsg_inv: "msg_inv s \<Longrightarrow> msg_inv (putmsg c s)"
  by (simp add: msg_inv_def putmsg_def increase_def NMSG_def Let_def)

lemma putmsg_count: "msg_inv s \<Longrightarrow> msg_count (putmsg c s) = min (NMSG - 1) (Suc (msg_count s))"
  using putmsg_inv [of s c] NMSG_def
  by (auto simp: msg_count_alt putmsg_def Let_def increase_alt msg_inv_def)

lemma putmsg_overflow: "msg_inv s \<Longrightarrow> increase (qback s) = qfront s \<longleftrightarrow> msg_count s = NMSG - 1"
  using NMSG_def by (auto simp: msg_count_alt increase_alt msg_inv_def)

lemma putmsg_queue [simp]: "msgqueue (putmsg c s) = (msgqueue s)[qback s := c]"
  by (simp add: putmsg_def Let_def)

lemma putmsg_front:
  "msg_inv s \<Longrightarrow>
     qfront (putmsg c s) = (if msg_count s = NMSG - 1 then increase (qfront s) else qfront s)"
  using putmsg_overflow [of s] by (auto simp: putmsg_def Let_def)

lemma putmsg_list:
  assumes "msg_inv s"
  shows "msg_list (putmsg c s) = lastn (NMSG - 1) (msg_list s @ [c])"
proof (cases "msg_count s = NMSG - 1")
  case True
  have "msg_list (putmsg c s) ! i = (msg_list s @ [c]) ! Suc i" if "i < NMSG - 1" for i
  proof -
    have "msg_list (putmsg c s) ! i = (msgqueue s)[qback s := c] ! ((qfront s + Suc i) mod NMSG)"
      using that True assms
      by (simp add: msg_list_nth putmsg_count putmsg_front increase_def mod_simps)
    also have "\<dots> = (msg_list s @ [c]) ! Suc i"
    proof (cases "Suc i < msg_count s")
      case True
      then show ?thesis using ring_free [OF assms True] by (simp add: nth_append msg_list_nth)
    next
      case False
      then have "Suc i = msg_count s" using that True by simp
      then show ?thesis
        using ring_end [OF assms] assms by (simp add: nth_append msg_inv_def)
    qed
    finally show ?thesis .
  qed
  then show ?thesis
    using True assms
    by (intro nth_equalityI) (auto simp: putmsg_count lastn_def NMSG_def nth_append)
next
  case False
  then have lt: "Suc (msg_count s) \<le> NMSG - 1"
    using msg_count_less [of s] by (simp add: NMSG_def)
  have "msg_list (putmsg c s) ! i = (msg_list s @ [c]) ! i" if "i < Suc (msg_count s)" for i
  proof -
    have "msg_list (putmsg c s) ! i = (msgqueue s)[qback s := c] ! ((qfront s + i) mod NMSG)"
      using that lt False assms by (simp add: msg_list_nth putmsg_count putmsg_front)
    then show ?thesis
      using that ring_free [OF assms, of i] ring_end [OF assms] assms
      by (cases "i < msg_count s") (auto simp: nth_append msg_list_nth msg_inv_def less_Suc_eq)
  qed
  then show ?thesis
    using lt assms by (intro nth_equalityI) (auto simp: putmsg_count)
qed

definition msg_pop :: "msgs \<Rightarrow> msgs" where
  "msg_pop s = snd (sys_getmsg s)"

definition msg_first :: "msgs \<Rightarrow> uchar" where
  "msg_first s = ucast (fst (sys_getmsg s))"

lemma getmsg_inv: "msg_inv s \<Longrightarrow> msg_inv (snd (sys_getmsg s))"
  by (simp add: sys_getmsg_def msg_inv_def increase_def NMSG_def)

lemma getmsg_count:
  "msg_inv s \<Longrightarrow> qfront s \<noteq> qback s \<Longrightarrow> msg_count (snd (sys_getmsg s)) = msg_count s - 1"
  using getmsg_inv [of s]
  by (auto simp: msg_count_alt sys_getmsg_def increase_alt msg_inv_def)

lemma getmsg_list:
  assumes "msg_inv s" and "msg_list s \<noteq> []"
  shows "msg_list (snd (sys_getmsg s)) = tl (msg_list s)"
proof -
  have ne: "qfront s \<noteq> qback s" using assms by (simp add: msg_list_eq_Nil)
  have "msg_list (snd (sys_getmsg s)) ! i = msg_list s ! Suc i" if "i < msg_count s - 1" for i
    using that assms ne getmsg_count [OF assms(1) ne]
    by (simp add: msg_list_nth) (simp add: sys_getmsg_def increase_def mod_simps)
  then show ?thesis
    using getmsg_count [OF assms(1) ne]
    by (intro nth_equalityI) (auto simp: nth_tl)
qed

lemma getmsg_value:
  assumes "msg_inv s" and "msg_list s \<noteq> []"
  shows "fst (sys_getmsg s) = ucast (hd (msg_list s))"
proof -
  have ne: "qfront s \<noteq> qback s" using assms by (simp add: msg_list_eq_Nil)
  have "0 < msg_count s" using assms(2) by (metis length_msg_list length_greater_0_conv)
  then have "hd (msg_list s) = msgqueue s ! qfront s"
    using assms by (simp add: hd_conv_nth msg_list_nth msg_inv_def)
  then show ?thesis using ne by (simp add: sys_getmsg_def)
qed

lemma ucast_ucast_up: "ucast (ucast (c :: uchar) :: uint64) = c"
  by (rule bit_word_eqI) (auto simp: bit_simps)

interpretation mq: lossy_queue putmsg msg_first msg_pop msg_list msg_inv "NMSG - 1"
proof
  show "0 < NMSG - 1" by (simp add: NMSG_def)
  show "msg_inv (putmsg x q)" if "msg_inv q" for q x
    using that by (rule putmsg_inv)
  show "msg_inv (msg_pop q)" if "msg_inv q" for q
    using getmsg_inv [OF that] by (simp add: msg_pop_def)
  show "msg_list (putmsg x q) = lastn (NMSG - 1) (msg_list q @ [x])" if "msg_inv q" for q x
    using that by (rule putmsg_list)
  show "msg_first q = hd (msg_list q)" if "msg_inv q" and "msg_list q \<noteq> []" for q
    using getmsg_value [OF that] by (simp add: msg_first_def ucast_ucast_up)
  show "msg_list (msg_pop q) = tl (msg_list q)" if "msg_inv q" and "msg_list q \<noteq> []" for q
    using getmsg_list [OF that] by (simp add: msg_pop_def)
qed

lemma msg_init_inv: "msg_inv msg_init"
  by (simp add: msg_inv_def msg_init_def NMSG_def)

lemma listen_inv: "msg_inv s \<Longrightarrow> msg_inv (snd (sys_listenmsgs n s))"
  by (simp add: msg_inv_def sys_listenmsgs_def NMSG_def Let_def)

text \<open>The replies of a sequence of \<open>sys_getmsg\<close> calls.\<close>

primrec getmsgs :: "nat \<Rightarrow> msgs \<Rightarrow> uint64 list" where
  "getmsgs 0 s = []"
| "getmsgs (Suc n) s = fst (sys_getmsg s) # getmsgs n (snd (sys_getmsg s))"

lemma getmsgs_list:
  "msg_inv s \<Longrightarrow>
     getmsgs n s = map ucast (take n (msg_list s)) @ replicate (n - msg_count s) 0"
proof (induction n arbitrary: s)
  case 0
  then show ?case by simp
next
  case (Suc n)
  have IH: "getmsgs n (snd (sys_getmsg s)) = map ucast (take n (msg_list (snd (sys_getmsg s)))) @
      replicate (n - msg_count (snd (sys_getmsg s))) 0"
    using Suc by (simp add: getmsg_inv)
  show ?case
  proof (cases "msg_list s")
    case Nil
    then have "sys_getmsg s = (0, s)"
      using Suc.prems msg_list_eq_Nil [of s] by (simp add: sys_getmsg_def)
    moreover have "msg_count s = 0" using Nil by (metis length_msg_list list.size(3))
    ultimately show ?thesis using IH Nil by simp
  next
    case (Cons c cs)
    then have "qfront s \<noteq> qback s" and "0 < msg_count s"
      using Suc.prems msg_list_eq_Nil [of s] by (auto simp flip: length_msg_list)
    then show ?thesis
      using IH Cons Suc.prems
      by (simp add: getmsg_value getmsg_list getmsg_count Suc_diff_le)
  qed
qed

text \<open>
  C21: after any run of \<open>putmsg\<close> calls the ring holds exactly the pending bytes followed by
  the new ones, cut to the last 127: nothing is reordered, and only the oldest bytes are
  lost, and only when more than 127 are pending.
\<close>

theorem putmsg_keeps_last:
  assumes "msg_inv s"
  shows "msg_list (fold putmsg cs s) = lastn 127 (msg_list s @ cs)"
  using mq.puts_contents [OF assms, of cs] msg_count_less [of s]
  by (simp add: NMSG_def)

theorem putmsg_keeps_last_witness:
  "msg_inv msg_init \<and> msg_list (fold putmsg [1, 2, 3] msg_init) = [1, 2, 3]"
  using putmsg_keeps_last [of msg_init "[1, 2, 3]"] msg_init_inv
  by (simp add: msg_list_def msg_count_def msg_init_def NMSG_def)

text \<open>
  C22: when a program starts listening, every keystroke queued afterwards (up to the 127
  that fit) is returned by successive \<open>sys_getmsg\<close> calls in the order it arrived, and the
  call after the last returns 0; keystrokes from before the call are never seen.
\<close>

theorem listen_then_receive:
  assumes "msg_inv s" and "length cs \<le> 127"
  shows "getmsgs (Suc (length cs)) (fold putmsg cs (snd (sys_listenmsgs 1 s))) = map ucast cs @ [0]"
proof -
  let ?t = "fold putmsg cs (snd (sys_listenmsgs 1 s))"
  have inv: "msg_inv (snd (sys_listenmsgs 1 s))" using assms(1) by (rule listen_inv)
  have l: "msg_list (snd (sys_listenmsgs 1 s)) = []"
    using inv by (subst msg_list_eq_Nil) (simp_all add: sys_listenmsgs_def)
  have t: "msg_list ?t = cs" "msg_inv ?t"
    using mq.puts_contents [OF inv, of cs] mq.puts_ok [OF inv, of cs] l assms(2)
    by (simp_all add: NMSG_def)
  then have n: "msg_count ?t = length cs" by (metis length_msg_list)
  with t show ?thesis by (simp add: getmsgs_list del: getmsgs.simps)
qed

theorem listen_then_receive_witness:
  "getmsgs 3 (fold putmsg [104, 118] (snd (sys_listenmsgs 1 msg_init))) = [104, 118, 0]"
  using listen_then_receive [of msg_init "[104, 118]"] msg_init_inv
  by (simp add: numeral_3_eq_3 del: getmsgs.simps)

end
