(* ===== verification/Printf.thy ===== *)
theory Printf
  imports Prelude
begin

text \<open>
  Formatted output: \<^verbatim>\<open>kernel/printf.c\<close> and \<^verbatim>\<open>user/printf.c\<close> as functions from a format and its
  arguments to the characters they put out, in order. The two differ in the digits (lower and
  upper case), in the conversions they know and in that the kernel prints \<^verbatim>\<open>%x\<close> with a sign.
  \<^verbatim>\<open>atoi\<close> of \<^verbatim>\<open>user/ulib.c\<close> reads such numbers back. Strings are byte lists without the final zero.
\<close>

section \<open>Numbers\<close>

definition digits_lower :: "uchar list" where
  "digits_lower = map (\<lambda>c. of_nat c) [48,49,50,51,52,53,54,55,56,57,97,98,99,100,101,102]"

definition digits_upper :: "uchar list" where
  "digits_upper = map (\<lambda>c. of_nat c) [48,49,50,51,52,53,54,55,56,57,65,66,67,68,69,70]"

text \<open>\<open>do { buf[i++] = digits[x % base]; } while((x /= base) != 0)\<close>: the digits, last first.\<close>

function rev_digits :: "uchar list \<Rightarrow> nat \<Rightarrow> nat \<Rightarrow> uchar list" where
  "rev_digits ds base x =
     (ds ! (x mod base)) # (if base < 2 \<or> x div base = 0 then [] else rev_digits ds base (x div base))"
  by pat_completeness auto
termination
proof (relation "measure (\<lambda>(ds, b, x). x)", goal_cases)
  case (2 ds b x)
  then have "0 < x" by (auto intro: gr0I)
  with 2 show ?case by simp
qed simp

declare rev_digits.simps [simp del]

definition minus_sign :: uchar where "minus_sign = 45"

text \<open>
  \<open>printint\<close> of both files: \<open>xx\<close> is the 32-bit argument; negation wraps, so that the least
  integer is its own negation and is then read as unsigned.
\<close>

definition printint :: "uchar list \<Rightarrow> uint32 \<Rightarrow> nat \<Rightarrow> bool \<Rightarrow> uchar list" where
  "printint ds xx base sign =
     (let neg = (sign \<and> sint xx < 0);
          x = (if neg then - xx else xx);
          buf = rev_digits ds base (unat x) @ (if neg then [minus_sign] else [])
      in rev buf)"

primrec hex_digits :: "uchar list \<Rightarrow> nat \<Rightarrow> uint64 \<Rightarrow> uchar list" where
  "hex_digits ds 0 x = []"
| "hex_digits ds (Suc n) x = ds ! unat (drop_bit 60 x) # hex_digits ds n (push_bit 4 x)"

definition printptr :: "uchar list \<Rightarrow> uint64 \<Rightarrow> uchar list" where
  "printptr ds x = [48, 120] @ hex_digits ds 16 x"

section \<open>Formats\<close>

text \<open>An argument as the caller passes it: a register, or a string that may be null.\<close>

datatype farg = Num uint64 | Str "uchar list option"

definition null_text :: "uchar list" where
  "null_text = map (\<lambda>c. of_nat c) [40,110,117,108,108,41]"

fun num_arg :: "farg list \<Rightarrow> uint64" where
  "num_arg (Num x # as) = x"
| "num_arg as = 0"

fun str_arg :: "farg list \<Rightarrow> uchar list" where
  "str_arg (Str (Some s) # as) = s"
| "str_arg as = null_text"

abbreviation percent :: uchar where "percent \<equiv> 37"

text \<open>The kernel's \<^verbatim>\<open>printf\<close>. Missing arguments, undefined in C, read as 0 here.\<close>

fun kformat :: "uchar list \<Rightarrow> farg list \<Rightarrow> uchar list" where
  "kformat [] as = []"
| "kformat [c] as = (if c \<noteq> percent then [c] else [])"
| "kformat (c # d # fmt) as =
     (if c \<noteq> percent then c # kformat (d # fmt) as
      else if d = 100 then printint digits_lower (ucast (num_arg as)) 10 True @ kformat fmt (tl as)
      else if d = 120 then printint digits_lower (ucast (num_arg as)) 16 True @ kformat fmt (tl as)
      else if d = 112 then printptr digits_lower (num_arg as) @ kformat fmt (tl as)
      else if d = 115 then str_arg as @ kformat fmt (tl as)
      else if d = percent then percent # kformat fmt as
      else percent # d # kformat fmt as)"

text \<open>
  The user library's \<^verbatim>\<open>vprintf\<close>: a machine with the states 0 and \<open>'%'\<close>, here \<open>False\<close> and \<open>True\<close>.
\<close>

fun vprintf :: "bool \<Rightarrow> uchar list \<Rightarrow> farg list \<Rightarrow> uchar list" where
  "vprintf st [] as = []"
| "vprintf False (c # fmt) as = (if c = percent then vprintf True fmt as else c # vprintf False fmt as)"
| "vprintf True (c # fmt) as =
     (if c = 100 then printint digits_upper (ucast (num_arg as)) 10 True @ vprintf False fmt (tl as)
      else if c = 108 then printint digits_upper (ucast (num_arg as)) 10 False @ vprintf False fmt (tl as)
      else if c = 120 then printint digits_upper (ucast (num_arg as)) 16 False @ vprintf False fmt (tl as)
      else if c = 112 then printptr digits_upper (num_arg as) @ vprintf False fmt (tl as)
      else if c = 115 then str_arg as @ vprintf False fmt (tl as)
      else if c = 99 then ucast (num_arg as) # vprintf False fmt (tl as)
      else if c = percent then c # vprintf False fmt as
      else percent # c # vprintf False fmt as)"

definition uprintf :: "uchar list \<Rightarrow> farg list \<Rightarrow> uchar list" where
  "uprintf fmt as = vprintf False fmt as"

section \<open>Reading numbers\<close>

text \<open>\<open>atoi\<close> on 32-bit integers that wrap.\<close>

fun atoi_loop :: "uint32 \<Rightarrow> uchar list \<Rightarrow> uint32" where
  "atoi_loop n [] = n"
| "atoi_loop n (c # s) = (if 48 \<le> c \<and> c \<le> 57 then atoi_loop (n * 10 + ucast c - 48) s else n)"

definition atoi :: "uchar list \<Rightarrow> int" where
  "atoi s = sint (atoi_loop 0 s)"

section \<open>Digits\<close>

text \<open>The value of a numeral, most significant digit first.\<close>

definition val :: "nat \<Rightarrow> nat list \<Rightarrow> nat" where
  "val b xs = fold (\<lambda>d n. n * b + d) xs 0"

lemma val_snoc: "val b (xs @ [d]) = val b xs * b + d"
  by (simp add: val_def)

text \<open>The digits that \<open>rev_digits\<close> writes, as numbers in the order they are printed.\<close>

function numeral_of :: "nat \<Rightarrow> nat \<Rightarrow> nat list" where
  "numeral_of b x = (if b < 2 \<or> x div b = 0 then [x mod b] else numeral_of b (x div b) @ [x mod b])"
  by pat_completeness auto
termination
proof (relation "measure (\<lambda>(b, x). x)", goal_cases)
  case (2 b x)
  then have "0 < x" by (auto intro: gr0I)
  with 2 show ?case by simp
qed simp

declare numeral_of.simps [simp del]

lemma rev_digits_numeral: "rev (rev_digits ds b x) = map (\<lambda>d. ds ! d) (numeral_of b x)"
proof (induction b x rule: numeral_of.induct)
  case (1 b x)
  then show ?case by (auto simp: rev_digits.simps [of ds b x] numeral_of.simps [of b x])
qed

lemma val_numeral: "2 \<le> b \<Longrightarrow> val b (numeral_of b x) = x"
proof (induction b x rule: numeral_of.induct)
  case (1 b x)
  show ?case
  proof (cases "x div b = 0")
    case True
    then show ?thesis using 1(2) by (subst numeral_of.simps) (auto simp: val_def div_eq_0_iff)
  next
    case False
    then show ?thesis using 1 by (subst numeral_of.simps) (simp add: val_snoc)
  qed
qed

lemma numeral_digits: "2 \<le> b \<Longrightarrow> d \<in> set (numeral_of b x) \<Longrightarrow> d < b"
proof (induction b x rule: numeral_of.induct)
  case (1 b x)
  then show ?case unfolding numeral_of.simps [of b x] by (auto split: if_splits)
qed

lemma numeral_lead: "2 \<le> b \<Longrightarrow> 0 < x \<Longrightarrow> hd (numeral_of b x) \<noteq> 0"
proof (induction b x rule: numeral_of.induct)
  case (1 b x)
  show ?case
  proof (cases "x div b = 0")
    case True
    then show ?thesis using 1(2,3) by (subst numeral_of.simps) (auto simp: div_eq_0_iff)
  next
    case False
    moreover have "numeral_of b (x div b) \<noteq> []" by (subst numeral_of.simps) simp
    ultimately show ?thesis using 1 by (subst numeral_of.simps) simp
  qed
qed

lemma digits_dec: "d < 10 \<Longrightarrow> ds \<in> {digits_lower, digits_upper} \<Longrightarrow> ds ! d = of_nat (48 + d)"
proof -
  assume d: "d < 10" and ds: "ds \<in> {digits_lower, digits_upper}"
  from d have "d \<in> {0,1,2,3,4,5,6,7,8,9}" by auto
  with ds show ?thesis by (auto simp: digits_lower_def digits_upper_def)
qed

text \<open>\<open>atoi\<close> reads the decimal digits of a numeral.\<close>

lemma atoi_loop_digits:
  assumes "\<forall>d \<in> set xs. d < 10" and "ds \<in> {digits_lower, digits_upper}"
  shows "atoi_loop (of_nat n) (map (\<lambda>d. ds ! d) xs) = of_nat (fold (\<lambda>d n. n * 10 + d) xs n)"
  using assms(1)
proof (induction xs arbitrary: n)
  case Nil
  then show ?case by simp
next
  case (Cons d xs)
  then have d: "d < 10" by simp
  have u: "unat (of_nat (48 + d) :: uchar) = 48 + d" using d by (simp add: unat_of_nat del: of_nat_add)
  then have in_range: "48 \<le> (of_nat (48 + d) :: uchar)" "(of_nat (48 + d) :: uchar) \<le> 57"
    using d by (simp_all add: word_le_nat_alt del: of_nat_add)
  have "ucast (of_nat (48 + d) :: uchar) = (of_nat (48 + d) :: uint32)"
    using u by (metis of_nat_unat)
  then have "of_nat n * 10 + ucast (of_nat (48 + d) :: uchar) - 48 = (of_nat (n * 10 + d) :: uint32)"
    by simp
  then show ?case
    using Cons.IH [of "n * 10 + d"] Cons.prems in_range digits_dec [OF d assms(2)]
    by (simp del: of_nat_add of_nat_mult)
qed



lemma numeral_length: "2 \<le> b \<Longrightarrow> x < b ^ k \<Longrightarrow> 0 < k \<Longrightarrow> length (numeral_of b x) \<le> k"
proof (induction b x arbitrary: k rule: numeral_of.induct)
  case (1 b x)
  show ?case
  proof (cases "x div b = 0")
    case True
    then show ?thesis using 1(4) by (subst numeral_of.simps) simp
  next
    case False
    obtain j where k: "k = Suc j" using 1(4) by (cases k) auto
    have "x div b < b ^ j" using 1(2,3) k by (simp add: div_less_iff_less_mult mult.commute)
    moreover have "0 < j" using False calculation by (cases j) auto
    ultimately show ?thesis using 1 False k by (subst numeral_of.simps) simp
  qed
qed

text \<open>
  C36: \<open>printint\<close> prints the numeral of the value in its base: the digits are below the base,
  their value is that of the argument, there is no leading zero, and at most 16 characters
  are stored in the buffer for the bases 10 and 16 that the formats use.
\<close>

theorem printint_numeral:
  assumes "base \<in> {10, 16}" and "ds \<in> {digits_lower, digits_upper}"
  shows "\<exists>xs. printint ds xx base sign = (if sign \<and> sint xx < 0 then [minus_sign] else []) @ map (\<lambda>d. ds ! d) xs \<and>
    val base xs = unat (if sign \<and> sint xx < 0 then - xx else xx) \<and> (\<forall>d \<in> set xs. d < base) \<and>
    (xs = [0] \<or> hd xs \<noteq> 0) \<and> length (printint ds xx base sign) \<le> 16"
proof -
  define x where "x = unat (if sign \<and> sint xx < 0 then - xx else xx)"
  let ?xs = "numeral_of base x"
  have b: "2 \<le> base" using assms(1) by auto
  have "x < 2 ^ 32" using unsigned_less [of "if sign \<and> sint xx < 0 then - xx else xx", where ?'a = nat] by (simp add: x_def)
  then have "x < base ^ 15" using assms(1) by auto
  then have "length ?xs \<le> 15" using numeral_length [OF b] by simp
  moreover have "?xs = [0] \<or> hd ?xs \<noteq> 0"
    using numeral_lead [OF b, of x] by (cases "x = 0") (simp_all add: numeral_of.simps [of base 0])
  moreover have "printint ds xx base sign = (if sign \<and> sint xx < 0 then [minus_sign] else []) @ map (\<lambda>d. ds ! d) ?xs"
    by (simp add: printint_def Let_def x_def rev_digits_numeral)
  ultimately show ?thesis
    using val_numeral [OF b, of x] numeral_digits [OF b, of _ x] by (intro exI [of _ ?xs]) (auto simp: x_def)
qed

theorem printint_numeral_witness:
  "\<exists>xs. printint digits_lower 0x80000000 16 True = minus_sign # map (\<lambda>d. digits_lower ! d) xs \<and> val 16 xs = 2 ^ 31"
  using printint_numeral [of 16 digits_lower "0x80000000" True] by auto

end
