(* ===== verification/Ring.thy ===== *)
theory Ring
  imports Prelude
begin

text \<open>
  Ring buffers with free-running indices, as the pipe, the console and the UART driver use
  them: index \<open>i\<close> of the buffer is slot \<open>i mod N\<close>, the indices are unsigned words that wrap, and
  the number of slots divides the range of the word. The locale at the end is the contract of
  a bounded queue.
\<close>

definition ring :: "'a list \<Rightarrow> nat \<Rightarrow> nat \<Rightarrow> 'a list" where
  "ring b a n = map (\<lambda>i. b ! ((a + i) mod length b)) [0..<n]"

lemma length_ring [simp]: "length (ring b a n) = n"
  by (simp add: ring_def)

lemma ring_0 [simp]: "ring b a 0 = []"
  by (simp add: ring_def)

lemma ring_nth: "i < n \<Longrightarrow> ring b a n ! i = b ! ((a + i) mod length b)"
  by (simp add: ring_def)

lemma ring_add: "ring b a (m + n) = ring b a m @ ring b (a + m) n"
  by (rule nth_equalityI) (auto simp: nth_append ring_nth)

lemma ring_Suc: "ring b a (Suc n) = ring b a n @ [b ! ((a + n) mod length b)]"
  by (simp add: ring_def)

lemma ring_Cons: "ring b a (Suc n) = b ! (a mod length b) # ring b (Suc a) n"
  using ring_add [of b a 1 n] by (simp add: ring_def)

lemma ring_cong: "a mod length b = a' mod length b \<Longrightarrow> ring b a n = ring b a' n"
  unfolding ring_def by (metis mod_add_left_eq)

lemma ring_distinct: "i < n \<Longrightarrow> n < N \<Longrightarrow> (a + i) mod N \<noteq> (a + n :: nat) mod N"
proof
  assume i: "i < n" "n < N" "(a + i) mod N = (a + n) mod N"
  then have "N dvd (a + n) - (a + i)" by (metis mod_eq_dvd_iff_nat add_left_mono less_imp_le)
  with i show False by (auto dest: dvd_imp_le)
qed

lemma ring_store:
  assumes "n < length b"
  shows "ring (b[(a + n) mod length b := c]) a (Suc n) = ring b a n @ [c]"
proof -
  have "(a + n) mod length b < length b" using assms by (intro mod_less_divisor) linarith
  moreover have "ring (b[(a + n) mod length b := c]) a n = ring b a n"
  proof (rule nth_equalityI)
    fix i assume "i < length (ring (b[(a + n) mod length b := c]) a n)"
    then have i: "i < n" by simp
    then show "ring (b[(a + n) mod length b := c]) a n ! i = ring b a n ! i"
      using ring_distinct [OF i assms, of a] by (simp add: ring_nth)
  qed simp
  ultimately show ?thesis by (simp add: ring_Suc)
qed

section \<open>Word indices\<close>

lemma unat_add_mod:
  assumes "N dvd 2 ^ LENGTH('w)"
  shows "unat (a + of_nat i :: 'w::len word) mod N = (unat a + i) mod N"
proof -
  have "unat (a + of_nat i :: 'w word) = (unat a + i) mod 2 ^ LENGTH('w)"
    by (simp add: unat_word_ariths unat_of_nat mod_add_right_eq)
  then show ?thesis using assms by (simp add: mod_mod_cancel)
qed

lemma ring_word:
  "length b dvd 2 ^ LENGTH('w) \<Longrightarrow> ring b (unat (a + of_nat m :: 'w::len word)) n = ring b (unat a + m) n"
  by (rule ring_cong) (rule unat_add_mod)

text \<open>The number of elements between two indices, when one more is put in or taken out.\<close>

lemma count_Suc:
  assumes "unat (x - y :: 'w::len word) < k" and "k < 2 ^ LENGTH('w)"
  shows "unat (x + 1 - y) = Suc (unat (x - y))"
proof -
  have e: "x + 1 - y = 1 + (x - y)" by simp
  have "unat (1 + (x - y)) = (1 + unat (x - y)) mod 2 ^ LENGTH('w)" by (simp add: unat_word_ariths)
  then show ?thesis unfolding e using assms by simp
qed

lemma count_pred:
  assumes "x \<noteq> (y :: 'w::len word)"
  shows "unat (x - y) = Suc (unat (x - (y + 1)))"
proof -
  have "x - y \<noteq> 0" using assms by simp
  then have "unat (x - y) = Suc (unat (x - y - 1))" by (simp add: unat_minus_one unat_gt_0)
  then show ?thesis by (simp add: diff_diff_eq)
qed

section \<open>Bounded queues\<close>

text \<open>
  A bounded first-in first-out queue: \<open>put\<close> is called only when the queue is not full, \<open>get\<close>
  only when it is not empty.
\<close>

locale bounded_queue =
  fixes items :: "'q \<Rightarrow> 'e list"
    and put :: "'e \<Rightarrow> 'q \<Rightarrow> 'q"
    and get :: "'q \<Rightarrow> 'e \<times> 'q"
    and inv :: "'q \<Rightarrow> bool"
    and cap :: nat
  assumes put_law: "inv q \<Longrightarrow> length (items q) < cap \<Longrightarrow> inv (put x q) \<and> items (put x q) = items q @ [x]"
    and get_law: "inv q \<Longrightarrow> items q \<noteq> [] \<Longrightarrow>
      fst (get q) = hd (items q) \<and> inv (snd (get q)) \<and> items (snd (get q)) = tl (items q)"
begin

text \<open>Putting a list of elements that fits.\<close>

lemma put_list:
  "inv q \<Longrightarrow> length (items q) + length xs \<le> cap \<Longrightarrow>
     inv (fold put xs q) \<and> items (fold put xs q) = items q @ xs"
proof (induction xs arbitrary: q)
  case Nil
  then show ?case by simp
next
  case (Cons x xs)
  then show ?case using put_law [of q x] Cons.IH [of "put x q"] by simp
qed

text \<open>Taking the first \<open>n\<close> elements one by one.\<close>

primrec take_out :: "nat \<Rightarrow> 'q \<Rightarrow> 'e list \<times> 'q" where
  "take_out 0 q = ([], q)"
| "take_out (Suc n) q = (let (x, r) = get q; (xs, t) = take_out n r in (x # xs, t))"

lemma take_out_law:
  "inv q \<Longrightarrow> n \<le> length (items q) \<Longrightarrow>
     fst (take_out n q) = take n (items q) \<and> inv (snd (take_out n q)) \<and> items (snd (take_out n q)) = drop n (items q)"
proof (induction n arbitrary: q)
  case 0
  then show ?case by simp
next
  case (Suc n)
  then obtain y ys where q: "items q = y # ys" by (cases "items q") auto
  then show ?case using Suc get_law [of q] by (simp add: case_prod_beta)
qed

text \<open>First in, first out.\<close>

lemma put_take:
  assumes "inv q" and "items q = []" and "length xs \<le> cap"
  shows "fst (take_out (length xs) (fold put xs q)) = xs"
  using assms put_list [of q xs] take_out_law [of "fold put xs q" "length xs"] by simp

end

end
