(* ===== verification/Console.thy ===== *)
theory Console
  imports Fs Msg Printf Ring
begin

text \<open>
  The UART driver (\<^verbatim>\<open>kernel/uart.c\<close>), the console (\<^verbatim>\<open>kernel/console.c\<close>) and the kernel's
  \<^verbatim>\<open>printf\<close> on it. The 16550 is modelled by what the driver sees of it: the bytes that have
  arrived and wait in the receive register, the bytes sent, and how many more the transmitter
  takes before it is busy. The line discipline is a pure function on the input buffer.
\<close>

section \<open>Devices\<close>

record uart =
  u_rx :: "uchar list"
  u_room :: nat
  u_out :: "uchar list"
  u_setup :: "(nat \<times> uchar) list"
  tx_buf :: "uchar list"
  tx_w :: uint64
  tx_r :: uint64

record cons =
  c_buf :: "uchar list"
  c_r :: uint32
  c_w :: uint32
  c_e :: uint32

record devst = fsst +
  dev_uart :: uart
  dev_cons :: cons
  dev_msgs :: msgs
  ticks :: uint32

definition UART_TX_BUF_SIZE :: nat where "UART_TX_BUF_SIZE = 32"
definition INPUT_BUF :: nat where "INPUT_BUF = 128"

abbreviation umod :: "(uart \<Rightarrow> uart) \<Rightarrow> ('a devst_scheme, unit) kop" where
  "umod f \<equiv> kmod (\<lambda>s. s\<lparr>dev_uart := f (dev_uart s)\<rparr>)"

section \<open>The UART driver\<close>

definition WriteReg :: "nat \<Rightarrow> uchar \<Rightarrow> ('a devst_scheme, unit) kop" where
  "WriteReg reg v = umod (\<lambda>u. u\<lparr>u_setup := u_setup u @ [(reg, v)]\<rparr>)"

definition uartinit :: "('a devst_scheme, unit) kop" where
  "uartinit =
     kthen (WriteReg 1 0)
     (kthen (WriteReg 3 128)
     (kthen (WriteReg 0 3)
     (kthen (WriteReg 1 0)
     (kthen (WriteReg 3 3)
     (kthen (WriteReg 2 (1 OR 6))
            (WriteReg 1 (2 OR 1)))))))"

text \<open>
  Storing a byte in the transmit register. \<open>uartputc_sync\<close> first waits until there is room.
\<close>

definition send_thr :: "uchar \<Rightarrow> ('a devst_scheme, unit) kop" where
  "send_thr c = umod (\<lambda>u. u\<lparr>u_out := u_out u @ [c], u_room := u_room u - 1\<rparr>)"

definition uartputc_sync :: "uchar \<Rightarrow> ('a devst_scheme, unit) kop" where
  "uartputc_sync c = send_thr c"

text \<open>The loop of \<open>uartstart\<close>; the argument counts the bytes the transmitter still takes.\<close>

primrec uartstart_loop :: "nat \<Rightarrow> ('a devst_scheme, unit) kop" where
  "uartstart_loop 0 = kret ()"
| "uartstart_loop (Suc n) =
     kbind (kget dev_uart) (\<lambda>u.
     if tx_w u = tx_r u then kret ()
     else let c = tx_buf u ! unat (tx_r u mod of_nat UART_TX_BUF_SIZE) in
       kthen (umod (\<lambda>u. u\<lparr>tx_r := tx_r u + 1\<rparr>))
       (kthen (wakeup ChUartTx)
       (kthen (send_thr c)
              (uartstart_loop n))))"

definition uartstart :: "('a devst_scheme, unit) kop" where
  "uartstart = kbind (kget (\<lambda>s. u_room (dev_uart s))) uartstart_loop"

definition uartputc :: "uchar \<Rightarrow> ('a devst_scheme, unit) kop" where
  "uartputc c =
     kbind (kget dev_uart) (\<lambda>u.
     if tx_w u = tx_r u + of_nat UART_TX_BUF_SIZE then kblock ChUartTx
     else kthen (umod (\<lambda>u. u\<lparr>tx_buf := (tx_buf u)[unat (tx_w u mod of_nat UART_TX_BUF_SIZE) := c]\<rparr>))
         (kthen (umod (\<lambda>u. u\<lparr>tx_w := tx_w u + 1\<rparr>))
                uartstart))"

definition uartgetc :: "('a devst_scheme, int) kop" where
  "uartgetc =
     kbind (kget (\<lambda>s. u_rx (dev_uart s))) (\<lambda>rx.
     case rx of
       c # cs \<Rightarrow> kthen (umod (\<lambda>u. u\<lparr>u_rx := cs\<rparr>)) (kret (uint c))
     | [] \<Rightarrow> kret (-1))"

section \<open>The console\<close>

definition BACKSPACE :: int where "BACKSPACE = 0x100"

definition consputc :: "int \<Rightarrow> ('a devst_scheme, unit) kop" where
  "consputc c =
     (if c = BACKSPACE
      then kthen (uartputc_sync 8) (kthen (uartputc_sync 32) (uartputc_sync 8))
      else uartputc_sync (word_of_int c))"

definition printf :: "uchar list \<Rightarrow> farg list \<Rightarrow> ('a devst_scheme, unit) kop" where
  "printf fmt as = kfor (kformat fmt as) (\<lambda>c. consputc (uint c))"

text \<open>\<open>panic\<close> prints its message and stops the machine.\<close>

definition panic :: "uchar list \<Rightarrow> string \<Rightarrow> ('a devst_scheme, unit) kop" where
  "panic text s =
     kthen (printf (map (\<lambda>c. of_nat c) [112,97,110,105,99,58,32]) [])
     (kthen (printf text [])
     (kthen (printf [10] [])
            (kpanic s)))"

definition ascii :: "string \<Rightarrow> uchar list" where
  "ascii s = map (\<lambda>c. of_nat (of_char c)) s"

text \<open>The names of \<open>states[]\<close>; there is none for \<open>USED\<close>.\<close>

definition state_name :: "procstate \<Rightarrow> uchar list" where
  "state_name st = ascii (case st of UNUSED \<Rightarrow> ''unused'' | SLEEPING \<Rightarrow> ''sleep '' | RUNNABLE \<Rightarrow> ''runble''
     | RUNNING \<Rightarrow> ''run   '' | ZOMBIE \<Rightarrow> ''zombie'' | USED \<Rightarrow> ''???'')"

definition procdump :: "('a devst_scheme, unit) kop" where
  "procdump =
     kthen (printf [10] [])
     (kfor [0..<NPROC] (\<lambda>i.
        kbind (pget i (\<lambda>p. p)) (\<lambda>p.
        kwhen (p_state p \<noteq> UNUSED)
          (kthen (printf (ascii ''%d %s %s'')
                    [Num (word_of_int (p_pid p)), Str (Some (state_name (p_state p))),
                     Str (Some (takeWhile (\<lambda>c. c \<noteq> 0) (p_name p)))])
                 (printf [10] [])))))"

text \<open>
  The effect of a key on the input buffer: the buffer, the characters echoed, and whether a
  reader is woken. \<open>erase\<close> is the loop that deletes the current line.
\<close>

primrec erase :: "nat \<Rightarrow> cons \<Rightarrow> cons \<times> int list" where
  "erase 0 k = (k, [])"
| "erase (Suc n) k =
     (if c_e k \<noteq> c_w k \<and> c_buf k ! unat ((c_e k - 1) mod of_nat INPUT_BUF) \<noteq> 10
      then let (k', out) = erase n (k\<lparr>c_e := c_e k - 1\<rparr>) in (k', BACKSPACE # out)
      else (k, []))"

definition cons_key :: "int \<Rightarrow> cons \<Rightarrow> cons \<times> int list \<times> bool" where
  "cons_key c k =
     (if c = 21 then (let (k', out) = erase (unat (c_e k - c_w k)) k in (k', out, False))
      else if c = 8 \<or> c = 127
      then if c_e k \<noteq> c_w k then (k\<lparr>c_e := c_e k - 1\<rparr>, [BACKSPACE], False) else (k, [], False)
      else if c \<noteq> 0 \<and> unat (c_e k - c_r k) < INPUT_BUF
      then let c = (if c = 13 then 10 else c);
               k' = k\<lparr>c_buf := (c_buf k)[unat (c_e k mod of_nat INPUT_BUF) := word_of_int c], c_e := c_e k + 1\<rparr> in
           if c = 10 \<or> c = 4 \<or> c_e k' = c_r k' + of_nat INPUT_BUF
           then (k'\<lparr>c_w := c_e k'\<rparr>, [c], True)
           else (k', [c], False)
      else (k, [], False))"

definition consoleintr :: "int \<Rightarrow> ('a devst_scheme, unit) kop" where
  "consoleintr c =
     (if c = 16 then procdump
      else kbind (kget dev_cons) (\<lambda>k.
        let (k', out, wake) = cons_key c k in
        kthen (kfor out consputc)
        (kthen (kmod (\<lambda>s. s\<lparr>dev_cons := k'\<rparr>))
               (kwhen wake (wakeup ChConsR)))))"

definition consolewrite :: "src \<Rightarrow> int \<Rightarrow> ('a devst_scheme, int) kop" where
  "consolewrite src n =
     kbind (kfind [0..<nat n] (\<lambda>i.
       kbind (either_copyin (src_plus src i) 1) (\<lambda>(r, bs).
       if r = -1 then kret (Some (int i))
       else kthen (uartputc (hd bs)) (kret None))))
     (\<lambda>r. kret (case r of Some i \<Rightarrow> i | None \<Rightarrow> max n 0))"

text \<open>\<open>consoleread\<close> returns with its status what it has stored in a kernel buffer.\<close>

primrec consoleread_loop :: "nat \<Rightarrow> uint64 option \<Rightarrow> nat \<Rightarrow> ('a devst_scheme, int) kop" where
  "consoleread_loop 0 dst target = kret (int target)"
| "consoleread_loop (Suc n) dst target =
     kbind (kget dev_cons) (\<lambda>k.
     if c_r k = c_w k
     then kbind myproc (\<lambda>p. kbind (pget p p_killed) (\<lambda>kd. if kd \<noteq> 0 then kret (-1) else kblock ChConsR))
     else let c = c_buf k ! unat (c_r k mod of_nat INPUT_BUF) in
       kthen (kmod (\<lambda>s. s\<lparr>dev_cons := (dev_cons s)\<lparr>c_r := c_r (dev_cons s) + 1\<rparr>\<rparr>))
       (if c = 4
        then kthen (kwhen (Suc n < target)
               (kmod (\<lambda>s. s\<lparr>dev_cons := (dev_cons s)\<lparr>c_r := c_r (dev_cons s) - 1\<rparr>\<rparr>)))
             (kret (int (target - Suc n)))
        else kbind (either_copyout dst [c]) (\<lambda>r.
          if r = -1 then kret (int (target - Suc n))
          else if c = 10 then kret (int (target - n))
          else consoleread_loop n (map_option (\<lambda>a. a + 1) dst) target)))"

definition consoleread :: "uint64 option \<Rightarrow> int \<Rightarrow> ('a devst_scheme, int) kop" where
  "consoleread dst n = consoleread_loop (nat n) dst (nat n)"

text \<open>\<open>uartintr\<close> hands every byte that has arrived to the message queue or to the console.\<close>

definition uartintr :: "('a devst_scheme, unit) kop" where
  "uartintr =
     kthen (kbind (kget (\<lambda>s. length (u_rx (dev_uart s)))) (\<lambda>n. kfor [0..<n] (\<lambda>_.
       kbind uartgetc (\<lambda>c.
       kwhen (c \<noteq> -1)
        (kbind (kget (\<lambda>s. listening (dev_msgs s))) (\<lambda>l.
         if l = 1 then kmod (\<lambda>s. s\<lparr>dev_msgs := putmsg (word_of_int c) (dev_msgs s)\<rparr>)
         else consoleintr c))))))
     uartstart"

definition consoleinit :: "('a devst_scheme, unit) kop" where
  "consoleinit = uartinit"

section \<open>The line discipline\<close>

text \<open>
  What the ring buffer stands for: the bytes ready for readers and the line being edited.
\<close>

definition ready :: "cons \<Rightarrow> uchar list" where
  "ready k = ring (c_buf k) (unat (c_r k)) (unat (c_w k - c_r k))"

definition edit :: "cons \<Rightarrow> uchar list" where
  "edit k = ring (c_buf k) (unat (c_w k)) (unat (c_e k - c_w k))"

definition cons_inv :: "cons \<Rightarrow> bool" where
  "cons_inv k \<longleftrightarrow> length (c_buf k) = INPUT_BUF \<and>
     unat (c_w k - c_r k) + unat (c_e k - c_w k) \<le> INPUT_BUF \<and> 10 \<notin> set (edit k)"

lemma cons_total: "cons_inv k \<Longrightarrow> unat (c_e k - c_r k) = unat (c_w k - c_r k) + unat (c_e k - c_w k)"
proof -
  assume k: "cons_inv k"
  have "unat (x + y) = unat x + unat y" if "unat x + unat y \<le> INPUT_BUF" for x y :: uint32
    using that by (simp add: INPUT_BUF_def unat_plus_if')
  from this [of "c_w k - c_r k" "c_e k - c_w k"] k show ?thesis by (simp add: cons_inv_def)
qed

lemma cons_slot: "unat ((a :: uint32) mod of_nat INPUT_BUF) = unat a mod INPUT_BUF"
  by (simp add: INPUT_BUF_def unat_mod)

lemma cons_ring:
  "length b = INPUT_BUF \<Longrightarrow> ring b (unat (x :: uint32) + unat (y - x)) n = ring b (unat y) n"
  using ring_word [of b x "unat (y - x)" n] by (simp add: INPUT_BUF_def)

lemma cons_pos: "(unat (x :: uint32) + unat (y - x)) mod INPUT_BUF = unat y mod INPUT_BUF"
  using unat_add_mod [of INPUT_BUF x "unat (y - x)"] by (simp add: INPUT_BUF_def)

lemma ready_edit:
  "cons_inv k \<Longrightarrow> ring (c_buf k) (unat (c_r k)) (unat (c_e k - c_r k)) = ready k @ edit k"
  by (simp add: cons_total ring_add ready_def edit_def cons_ring cons_inv_def)

text \<open>Storing a byte behind the edited line.\<close>

lemma cons_store:
  assumes "unat (c_e k - a) < INPUT_BUF" and "length (c_buf k) = INPUT_BUF"
    and "c_buf k' = (c_buf k)[unat (c_e k mod of_nat INPUT_BUF) := c]"
  shows "ring (c_buf k') (unat a) (Suc (unat (c_e k - a))) = ring (c_buf k) (unat a) (unat (c_e k - a)) @ [c]"
  using ring_store [of "unat (c_e k - a)" "c_buf k" "unat a" c] assms by (simp add: cons_slot cons_pos)

lemma ring_next: "unat (x - y) < INPUT_BUF \<Longrightarrow> unat (x + 1 - y :: uint32) = Suc (unat (x - y))"
  by (rule count_Suc) (auto simp: INPUT_BUF_def)

text \<open>
  The line editor that the console implements: what is ready to be read, and the line under
  construction.
\<close>

definition line_key :: "int \<Rightarrow> uchar list \<times> uchar list \<Rightarrow> uchar list \<times> uchar list" where
  "line_key c st = (case st of (rdy, ln) \<Rightarrow>
     if c = 21 then (rdy, [])
     else if c = 8 \<or> c = 127 then (rdy, butlast ln)
     else if c = 0 \<or> length rdy + length ln = INPUT_BUF then (rdy, ln)
     else let b = (if c = 13 then 10 else word_of_int c) in
       if b = 10 \<or> b = 4 \<or> length rdy + length ln + 1 = INPUT_BUF then (rdy @ ln @ [b], [])
       else (rdy, ln @ [b]))"

lemma edit_back:
  assumes "cons_inv k" and "c_e k \<noteq> c_w k"
  defines "k' \<equiv> k\<lparr>c_e := c_e k - 1\<rparr>"
  shows "cons_inv k'" and "ready k' = ready k" and "edit k' = butlast (edit k)"
    and "c_buf k ! unat ((c_e k - 1) mod of_nat INPUT_BUF) = last (edit k)"
    and "unat (c_e k - c_w k) = Suc (unat (c_e k' - c_w k'))"
proof -
  have "unat (c_e k - c_w k) = Suc (unat (c_e k - c_w k - 1))"
    using assms(2) by (simp add: unat_minus_one unat_gt_0)
  then show u: "unat (c_e k - c_w k) = Suc (unat (c_e k' - c_w k'))" by (simp add: k'_def diff_diff_eq add.commute)
  have L: "length (c_buf k) = INPUT_BUF" using assms(1) by (simp add: cons_inv_def)
  have "edit k = ring (c_buf k) (unat (c_w k)) (Suc (unat (c_e k' - c_w k')))" using u by (simp add: edit_def)
  then have e: "edit k = edit k' @ [c_buf k ! (unat (c_e k - 1) mod INPUT_BUF)]"
    using cons_pos [of "c_w k" "c_e k - 1"] L unfolding ring_Suc by (simp add: edit_def k'_def)
  then show b: "edit k' = butlast (edit k)" by simp
  show "ready k' = ready k" by (simp add: ready_def k'_def)
  show "c_buf k ! unat ((c_e k - 1) mod of_nat INPUT_BUF) = last (edit k)"
    unfolding e cons_slot by simp
  have "set (edit k') \<subseteq> set (edit k)" using e by auto
  then show "cons_inv k'" using assms(1) u by (auto simp: cons_inv_def k'_def)
qed

lemma erase_all:
  assumes "cons_inv k" and "n = unat (c_e k - c_w k)"
  shows "cons_inv (fst (erase n k)) \<and> ready (fst (erase n k)) = ready k \<and> edit (fst (erase n k)) = [] \<and>
    snd (erase n k) = replicate n BACKSPACE"
  using assms
proof (induction n arbitrary: k)
  case 0
  then show ?case by (simp add: edit_def)
next
  case (Suc n)
  then have ne: "c_e k \<noteq> c_w k" by auto
  note b = edit_back [OF Suc.prems(1) ne]
  have "edit k \<noteq> []" using Suc.prems(2) by (metis Zero_not_Suc edit_def length_ring list.size(3))
  then have "last (edit k) \<in> set (edit k)" by simp
  then have "last (edit k) \<noteq> 10" using Suc.prems(1) by (auto simp: cons_inv_def)
  then show ?case
    using Suc.IH [OF b(1)] b ne Suc.prems(2) by (simp add: case_prod_beta)
qed

lemma word_int_eq: "0 \<le> c \<Longrightarrow> c < 256 \<Longrightarrow> (word_of_int c :: uchar) = word_of_int d \<longleftrightarrow> c = d" if "0 \<le> d" "d < 256"
  using that by (auto simp: word_of_int_eq_iff take_bit_int_eq_self)



end
