(* ===== verification/File.thy ===== *)
theory File
  imports Console
begin

text \<open>
  Pipes (\<^verbatim>\<open>kernel/pipe.c\<close>) and open files (\<^verbatim>\<open>kernel/file.c\<close>). A pipe lives in a page from the
  allocator and is found by the address of that page; the locks of the pipe and of the file
  table make the accesses atomic. \<open>pipewrite\<close> may sleep in the middle of its work, so its loop
  returns how far it came.
\<close>

section \<open>Pipes\<close>

definition PIPESIZE :: nat where "PIPESIZE = 512"

record pipe =
  pi_data :: "uchar list"
  pi_nread :: uint32
  pi_nwrite :: uint32
  pi_readopen :: int
  pi_writeopen :: int

datatype ftype = FD_NONE | FD_PIPE | FD_INODE | FD_DEVICE

record kfile =
  f_type :: ftype
  f_ref :: int
  f_readable :: bool
  f_writable :: bool
  f_pipe :: uint64
  f_ip :: nat
  f_off :: uint32
  f_major :: ushort

record filest = devst +
  ftable :: "nat \<Rightarrow> kfile"
  pipes :: "uint64 \<Rightarrow> pipe"

definition NFILE :: nat where "NFILE = 100"
definition NDEV :: nat where "NDEV = 10"
definition CONSOLE :: nat where "CONSOLE = 1"

definition upd_pipe :: "uint64 \<Rightarrow> (pipe \<Rightarrow> pipe) \<Rightarrow> 'a filest_scheme \<Rightarrow> 'a filest_scheme" where
  "upd_pipe pi f s = s\<lparr>pipes := (pipes s)(pi := f (pipes s pi))\<rparr>"

abbreviation ch_nread :: "uint64 \<Rightarrow> chan" where "ch_nread pi \<equiv> ChPipeRead (unat pi)"
abbreviation ch_nwrite :: "uint64 \<Rightarrow> chan" where "ch_nwrite pi \<equiv> ChPipeWrite (unat pi)"

text \<open>\<open>pi->data[pi->nwrite++ % PIPESIZE] = ch\<close> and \<open>ch = pi->data[pi->nread++ % PIPESIZE]\<close>\<close>

definition pipe_put :: "uchar \<Rightarrow> pipe \<Rightarrow> pipe" where
  "pipe_put ch q = q\<lparr>pi_data := (pi_data q)[unat (pi_nwrite q mod of_nat PIPESIZE) := ch],
     pi_nwrite := pi_nwrite q + 1\<rparr>"

definition pipe_get :: "pipe \<Rightarrow> uchar \<times> pipe" where
  "pipe_get q = (pi_data q ! unat (pi_nread q mod of_nat PIPESIZE), q\<lparr>pi_nread := pi_nread q + 1\<rparr>)"

definition pipeclose :: "uint64 \<Rightarrow> bool \<Rightarrow> ('a filest_scheme, unit) kop" where
  "pipeclose pi writable =
     kthen (if writable
            then kthen (kmod (upd_pipe pi (\<lambda>q. q\<lparr>pi_writeopen := 0\<rparr>))) (wakeup (ch_nread pi))
            else kthen (kmod (upd_pipe pi (\<lambda>q. q\<lparr>pi_readopen := 0\<rparr>))) (wakeup (ch_nwrite pi)))
     (kbind (kget (\<lambda>s. pipes s pi)) (\<lambda>q.
      kwhen (pi_readopen q = 0 \<and> pi_writeopen q = 0) (kfree pi)))"

text \<open>
  The loop of \<open>pipewrite\<close> with \<open>n\<close> bytes left after \<open>i\<close>: it returns a value, or goes to sleep
  with \<open>i\<close> bytes written, to continue from there when it is woken.
\<close>

datatype progress = Done int | Asleep nat

primrec pipewrite_from :: "nat \<Rightarrow> uint64 \<Rightarrow> uint64 \<Rightarrow> nat \<Rightarrow> ('a filest_scheme, progress) kop" where
  "pipewrite_from 0 pi addr i = kthen (wakeup (ch_nread pi)) (kret (Done (int i)))"
| "pipewrite_from (Suc n) pi addr i =
     kbind myproc (\<lambda>pr. kbind (pget pr (\<lambda>p. p)) (\<lambda>p. kbind (kget (\<lambda>s. pipes s pi)) (\<lambda>q.
     if pi_readopen q = 0 \<or> p_killed p \<noteq> 0 then kret (Done (-1))
     else if pi_nwrite q = pi_nread q + of_nat PIPESIZE
     then kthen (wakeup (ch_nread pi)) (kret (Asleep i))
     else kbind (copyin (p_pagetable p) (addr + of_nat i) 1) (\<lambda>(r, bs).
       if r = -1 then kthen (wakeup (ch_nread pi)) (kret (Done (int i)))
       else kthen (kmod (upd_pipe pi (pipe_put (hd bs))))
                  (pipewrite_from n pi addr (Suc i))))))"

definition pipewrite :: "uint64 \<Rightarrow> uint64 \<Rightarrow> int \<Rightarrow> ('a filest_scheme, int) kop" where
  "pipewrite pi addr n =
     kbind (pipewrite_from (nat n) pi addr 0) (\<lambda>r.
     case r of Done v \<Rightarrow> kret v | Asleep _ \<Rightarrow> kblock (ch_nwrite pi))"

primrec piperead_loop :: "nat \<Rightarrow> uint64 \<Rightarrow> uint64 \<Rightarrow> nat \<Rightarrow> ('a filest_scheme, int) kop" where
  "piperead_loop 0 pi addr i = kret (int i)"
| "piperead_loop (Suc n) pi addr i =
     kbind (kget (\<lambda>s. pipes s pi)) (\<lambda>q.
     if pi_nread q = pi_nwrite q then kret (int i)
     else let (ch, q') = pipe_get q in
       kthen (kmod (upd_pipe pi (\<lambda>_. q')))
       (kbind myproc (\<lambda>pr. kbind (pget pr p_pagetable) (\<lambda>pt.
        kbind (copyout pt (addr + of_nat i) [ch]) (\<lambda>r.
        if r = -1 then kret (int i) else piperead_loop n pi addr (Suc i))))))"

definition piperead :: "uint64 \<Rightarrow> uint64 \<Rightarrow> int \<Rightarrow> ('a filest_scheme, int) kop" where
  "piperead pi addr n =
     kbind myproc (\<lambda>pr. kbind (pget pr p_killed) (\<lambda>killed. kbind (kget (\<lambda>s. pipes s pi)) (\<lambda>q.
     if pi_nread q = pi_nwrite q \<and> pi_writeopen q \<noteq> 0
     then if killed \<noteq> 0 then kret (-1) else kblock (ch_nread pi)
     else kbind (piperead_loop (nat n) pi addr 0) (\<lambda>i.
       kthen (wakeup (ch_nwrite pi)) (kret i)))))"

section \<open>Open files\<close>

definition upd_file :: "nat \<Rightarrow> (kfile \<Rightarrow> kfile) \<Rightarrow> 'a filest_scheme \<Rightarrow> 'a filest_scheme" where
  "upd_file f g s = s\<lparr>ftable := (ftable s)(f := g (ftable s f))\<rparr>"

abbreviation fmod :: "nat \<Rightarrow> (kfile \<Rightarrow> kfile) \<Rightarrow> ('a filest_scheme, unit) kop" where
  "fmod f g \<equiv> kmod (upd_file f g)"

abbreviation fget :: "nat \<Rightarrow> (kfile \<Rightarrow> 'b) \<Rightarrow> ('a filest_scheme, 'b) kop" where
  "fget f g \<equiv> kget (\<lambda>s. g (ftable s f))"

definition filealloc :: "('a filest_scheme, nat option) kop" where
  "filealloc =
     kbind (kget ftable) (\<lambda>tbl.
     case find (\<lambda>f. f_ref (tbl f) = 0) [0..<NFILE] of
       Some f \<Rightarrow> kthen (fmod f (\<lambda>x. x\<lparr>f_ref := 1\<rparr>)) (kret (Some f))
     | None \<Rightarrow> kret None)"

definition filedup :: "nat \<Rightarrow> ('a filest_scheme, nat) kop" where
  "filedup f =
     kbind (fget f f_ref) (\<lambda>r.
     kthen (kwhen (r < 1) (kpanic ''filedup''))
     (kthen (fmod f (\<lambda>x. x\<lparr>f_ref := f_ref x + 1\<rparr>))
            (kret f)))"

definition fileclose :: "nat \<Rightarrow> ('a filest_scheme, unit) kop" where
  "fileclose f =
     kbind (fget f f_ref) (\<lambda>r.
     kthen (kwhen (r < 1) (kpanic ''fileclose''))
     (kthen (fmod f (\<lambda>x. x\<lparr>f_ref := f_ref x - 1\<rparr>))
     (if r - 1 > 0 then kret ()
      else kbind (fget f (\<lambda>x. x)) (\<lambda>ff.
        kthen (fmod f (\<lambda>x. x\<lparr>f_ref := 0\<rparr>))
        (kthen (fmod f (\<lambda>x. x\<lparr>f_type := FD_NONE\<rparr>))
        (if f_type ff = FD_PIPE then pipeclose (f_pipe ff) (f_writable ff)
         else kwhen (f_type ff = FD_INODE \<or> f_type ff = FD_DEVICE)
           (kthen begin_op (kthen (iput (f_ip ff)) end_op))))))))"

text \<open>The bytes of a \<^verbatim>\<open>struct stat\<close>. The four bytes of padding, indeterminate in C, are taken as 0.\<close>

definition bytes_of_stat :: "stat \<Rightarrow> uchar list" where
  "bytes_of_stat st = le_bytes 4 (st_dev st) @ le_bytes 4 (st_ino st) @ le_bytes 2 (st_type st) @
     le_bytes 2 (st_nlink st) @ replicate 4 0 @ le_bytes 8 (st_size st)"

definition filestat :: "nat \<Rightarrow> uint64 \<Rightarrow> ('a filest_scheme, int) kop" where
  "filestat f addr =
     kbind myproc (\<lambda>p. kbind (fget f (\<lambda>x. x)) (\<lambda>ff.
     if f_type ff = FD_INODE \<or> f_type ff = FD_DEVICE
     then kthen (ilock (f_ip ff))
         (kbind (stati (f_ip ff)) (\<lambda>st.
          kthen (iunlock (f_ip ff))
          (kbind (pget p p_pagetable) (\<lambda>pt.
           kbind (copyout pt addr (bytes_of_stat st)) (\<lambda>r.
           kret (if r < 0 then -1 else 0))))))
     else kret (-1)))"

text \<open>Of \<^verbatim>\<open>devsw\<close> only the entry \<open>CONSOLE\<close> is ever filled in, by \<^verbatim>\<open>consoleinit\<close>.\<close>

definition dev_ok :: "ushort \<Rightarrow> bool" where
  "dev_ok major \<longleftrightarrow> \<not> (sint major < 0 \<or> sint major \<ge> int NDEV \<or> sint major \<noteq> int CONSOLE)"

definition fileread :: "nat \<Rightarrow> uint64 \<Rightarrow> int \<Rightarrow> ('a filest_scheme, int) kop" where
  "fileread f addr n =
     kbind (fget f (\<lambda>x. x)) (\<lambda>ff.
     if \<not> f_readable ff then kret (-1)
     else case f_type ff of
       FD_PIPE \<Rightarrow> piperead (f_pipe ff) addr n
     | FD_DEVICE \<Rightarrow> if \<not> dev_ok (f_major ff) then kret (-1) else consoleread (Some addr) n
     | FD_INODE \<Rightarrow>
         kthen (ilock (f_ip ff))
         (kbind (readi (f_ip ff) (Some addr) (f_off ff) (word_of_int n)) (\<lambda>(r, _).
          kthen (kwhen (r > 0) (fmod f (\<lambda>x. x\<lparr>f_off := f_off x + word_of_int r\<rparr>)))
          (kthen (iunlock (f_ip ff))
                 (kret r))))
     | FD_NONE \<Rightarrow> kpanic ''fileread'')"

text \<open>
  The loop of \<open>filewrite\<close> writes at most \<open>max\<close> bytes in a transaction; it returns \<open>i\<close>. An
  iteration that goes on has written all of its \<open>n1 > 0\<close> bytes.
\<close>

definition write_max :: int where
  "write_max = ((MAXOPBLOCKS - 1 - 1 - 2) div 2) * int BSIZE"

function filewrite_loop :: "nat \<Rightarrow> uint64 \<Rightarrow> int \<Rightarrow> int \<Rightarrow> ('a filest_scheme, int) kop" where
  "filewrite_loop f addr n i =
     (if i < n
      then let n1 = min (n - i) write_max in
        kbind (fget f f_ip) (\<lambda>ip. kbind (fget f f_off) (\<lambda>off.
        kthen begin_op
        (kthen (ilock ip)
        (kbind (writei ip (User_src (addr + word_of_int i)) off (word_of_int n1)) (\<lambda>r.
         kthen (kwhen (r > 0) (fmod f (\<lambda>x. x\<lparr>f_off := f_off x + word_of_int r\<rparr>)))
         (kthen (iunlock ip)
         (kthen end_op
         (if r \<noteq> n1 then kret i else filewrite_loop f addr n (i + n1)))))))))
      else kret i)"
  by pat_completeness auto
termination
proof (relation "measure (\<lambda>(f, addr, n, i). nat (n - i))", goal_cases)
  case (2 f addr n i)
  then show ?case by (simp add: write_max_def MAXOPBLOCKS_def BSIZE_def)
qed simp

declare filewrite_loop.simps [simp del]

definition filewrite :: "nat \<Rightarrow> uint64 \<Rightarrow> int \<Rightarrow> ('a filest_scheme, int) kop" where
  "filewrite f addr n =
     kbind (fget f (\<lambda>x. x)) (\<lambda>ff.
     if \<not> f_writable ff then kret (-1)
     else case f_type ff of
       FD_PIPE \<Rightarrow> pipewrite (f_pipe ff) addr n
     | FD_DEVICE \<Rightarrow> if \<not> dev_ok (f_major ff) then kret (-1) else consolewrite (User_src addr) n
     | FD_INODE \<Rightarrow> kbind (filewrite_loop f addr n 0) (\<lambda>i. kret (if i = n then n else -1))
     | FD_NONE \<Rightarrow> kpanic ''filewrite'')"

text \<open>\<open>pipealloc\<close> returns the two files, or \<open>None\<close> for -1.\<close>

definition pipealloc :: "('a filest_scheme, (nat \<times> nat) option) kop" where
  "pipealloc =
     kbind filealloc (\<lambda>f0.
     case f0 of
       None \<Rightarrow> kret None
     | Some f0 \<Rightarrow>
         kbind filealloc (\<lambda>f1.
         case f1 of
           None \<Rightarrow> kthen (fileclose f0) (kret None)
         | Some f1 \<Rightarrow>
             kbind kalloc (\<lambda>pi.
             if pi = 0 then kthen (fileclose f0) (kthen (fileclose f1) (kret None))
             else
               kthen (kmod (\<lambda>s. upd_pipe pi (\<lambda>_. \<lparr>pi_data = bytes (mem s) (pi + 24) PIPESIZE, pi_nread = 0,
                        pi_nwrite = 0, pi_readopen = 1, pi_writeopen = 1\<rparr>) s))
               (kthen (fmod f0 (\<lambda>x. x\<lparr>f_type := FD_PIPE, f_readable := True, f_writable := False, f_pipe := pi\<rparr>))
               (kthen (fmod f1 (\<lambda>x. x\<lparr>f_type := FD_PIPE, f_readable := False, f_writable := True, f_pipe := pi\<rparr>))
                      (kret (Some (f0, f1))))))))"

section \<open>The queue a pipe implements\<close>

definition pipe_list :: "pipe \<Rightarrow> uchar list" where
  "pipe_list q = ring (pi_data q) (unat (pi_nread q)) (unat (pi_nwrite q - pi_nread q))"

definition pipe_inv :: "pipe \<Rightarrow> bool" where
  "pipe_inv q \<longleftrightarrow> length (pi_data q) = PIPESIZE \<and> unat (pi_nwrite q - pi_nread q) \<le> PIPESIZE"

lemma pipe_slot: "unat ((a :: uint32) mod of_nat PIPESIZE) = unat a mod PIPESIZE"
  by (simp add: PIPESIZE_def unat_mod)

lemma pipe_put_list:
  assumes "pipe_inv q" and "length (pipe_list q) < PIPESIZE"
  shows "pipe_inv (pipe_put x q) \<and> pipe_list (pipe_put x q) = pipe_list q @ [x]"
proof -
  let ?n = "unat (pi_nwrite q - pi_nread q)"
  have n: "?n < PIPESIZE" and L: "length (pi_data q) = PIPESIZE"
    using assms by (simp_all add: pipe_list_def pipe_inv_def)
  have s: "unat (pi_nwrite q + 1 - pi_nread q) = Suc ?n" using n by (intro count_Suc) (auto simp: PIPESIZE_def)
  have "(unat (pi_nread q) + ?n) mod PIPESIZE = unat (pi_nwrite q) mod PIPESIZE"
    using unat_add_mod [of PIPESIZE "pi_nread q" ?n] by (simp add: PIPESIZE_def)
  then show ?thesis
    using ring_store [of ?n "pi_data q" "unat (pi_nread q)" x] n L s
    by (simp add: pipe_inv_def pipe_list_def pipe_put_def pipe_slot)
qed

lemma pipe_get_list:
  assumes "pipe_inv q" and "pipe_list q \<noteq> []"
  shows "fst (pipe_get q) = hd (pipe_list q) \<and> pipe_inv (snd (pipe_get q)) \<and> pipe_list (snd (pipe_get q)) = tl (pipe_list q)"
proof -
  let ?n = "unat (pi_nwrite q - (pi_nread q + 1))"
  have L: "length (pi_data q) = PIPESIZE" using assms(1) by (simp add: pipe_inv_def)
  have "pi_nwrite q \<noteq> pi_nread q" using assms(2) by (auto simp: pipe_list_def)
  then have u: "unat (pi_nwrite q - pi_nread q) = Suc ?n" by (rule count_pred)
  have w: "ring (pi_data q) (Suc (unat (pi_nread q))) ?n = ring (pi_data q) (unat (pi_nread q + 1)) ?n"
    using ring_word [of "pi_data q" "pi_nread q" 1 ?n] L by (simp add: PIPESIZE_def)
  have "pipe_list q = pi_data q ! (unat (pi_nread q) mod PIPESIZE) # ring (pi_data q) (unat (pi_nread q + 1)) ?n"
    using ring_Cons [of "pi_data q" "unat (pi_nread q)" ?n] u w L by (simp add: pipe_list_def)
  then show ?thesis using assms(1) u by (simp add: pipe_get_def pipe_slot) (simp add: pipe_list_def pipe_inv_def)
qed

interpretation pq: bounded_queue pipe_list pipe_put pipe_get pipe_inv PIPESIZE
  by unfold_locales (use pipe_put_list pipe_get_list in auto)

text \<open>The tests for a full and for an empty pipe.\<close>

lemma pipe_full_iff: "pipe_inv q \<Longrightarrow> pi_nwrite q = pi_nread q + of_nat PIPESIZE \<longleftrightarrow> length (pipe_list q) = PIPESIZE"
proof -
  have "pi_nwrite q = pi_nread q + of_nat PIPESIZE \<longleftrightarrow> pi_nwrite q - pi_nread q = of_nat PIPESIZE"
    by (auto simp: algebra_simps)
  then show ?thesis by (simp add: pipe_list_def word_unat_eq_iff [of "pi_nwrite q - pi_nread q"] PIPESIZE_def)
qed

lemma pipe_empty_iff: "pi_nread q = pi_nwrite q \<longleftrightarrow> pipe_list q = []"
proof -
  have "pi_nread q = pi_nwrite q \<longleftrightarrow> pi_nwrite q - pi_nread q = 0" by auto
  also have "\<dots> \<longleftrightarrow> unat (pi_nwrite q - pi_nread q) = 0" by (simp only: unat_eq_0)
  also have "\<dots> \<longleftrightarrow> pipe_list q = []" by (metis length_0_conv length_ring pipe_list_def)
  finally show ?thesis .
qed

end
