(* ===== verification/Proc.thy ===== *)
theory Proc
  imports File
begin

text \<open>
  The life of a process (the rest of \<^verbatim>\<open>kernel/proc.c\<close>): allocating and freeing an entry with its
  trap frame and page table, the first process, \<open>growproc\<close>, \<open>fork\<close>, \<open>exit\<close> and \<open>wait\<close>. The trap
  frame is a page of physical memory, its fields at the offsets of \<^verbatim>\<open>struct trapframe\<close>. The
  addresses the linker chooses are a component of the state that no operation changes.
\<close>

section \<open>Trap frames\<close>

datatype tfield =
    TF_kernel_satp | TF_kernel_sp | TF_kernel_trap | TF_epc | TF_kernel_hartid | TF_ra | TF_sp | TF_gp | TF_tp
  | TF_t0 | TF_t1 | TF_t2 | TF_s0 | TF_s1 | TF_a0 | TF_a1 | TF_a2 | TF_a3
  | TF_a4 | TF_a5 | TF_a6 | TF_a7 | TF_s2 | TF_s3 | TF_s4 | TF_s5 | TF_s6
  | TF_s7 | TF_s8 | TF_s9 | TF_s10 | TF_s11 | TF_t3 | TF_t4 | TF_t5 | TF_t6

fun tf_off :: "tfield \<Rightarrow> uint64" where
  "tf_off TF_kernel_satp = 0"
| "tf_off TF_kernel_sp = 8"
| "tf_off TF_kernel_trap = 16"
| "tf_off TF_epc = 24"
| "tf_off TF_kernel_hartid = 32"
| "tf_off TF_ra = 40"
| "tf_off TF_sp = 48"
| "tf_off TF_gp = 56"
| "tf_off TF_tp = 64"
| "tf_off TF_t0 = 72"
| "tf_off TF_t1 = 80"
| "tf_off TF_t2 = 88"
| "tf_off TF_s0 = 96"
| "tf_off TF_s1 = 104"
| "tf_off TF_a0 = 112"
| "tf_off TF_a1 = 120"
| "tf_off TF_a2 = 128"
| "tf_off TF_a3 = 136"
| "tf_off TF_a4 = 144"
| "tf_off TF_a5 = 152"
| "tf_off TF_a6 = 160"
| "tf_off TF_a7 = 168"
| "tf_off TF_s2 = 176"
| "tf_off TF_s3 = 184"
| "tf_off TF_s4 = 192"
| "tf_off TF_s5 = 200"
| "tf_off TF_s6 = 208"
| "tf_off TF_s7 = 216"
| "tf_off TF_s8 = 224"
| "tf_off TF_s9 = 232"
| "tf_off TF_s10 = 240"
| "tf_off TF_s11 = 248"
| "tf_off TF_t3 = 256"
| "tf_off TF_t4 = 264"
| "tf_off TF_t5 = 272"
| "tf_off TF_t6 = 280"

definition tf_get :: "nat \<Rightarrow> tfield \<Rightarrow> ('a ptab_scheme, uint64) kop" where
  "tf_get p r = kbind (pget p p_trapframe) (\<lambda>tf. ld64 (tf + tf_off r))"

definition tf_set :: "nat \<Rightarrow> tfield \<Rightarrow> uint64 \<Rightarrow> ('a ptab_scheme, unit) kop" where
  "tf_set p r v = kbind (pget p p_trapframe) (\<lambda>tf. st64 (tf + tf_off r) v)"

record syms =
  sym_trampoline :: uint64
  sym_uservec :: uint64
  sym_userret :: uint64
  sym_forkret :: uint64
  sym_usertrap :: uint64
  sym_kernelvec :: uint64

record kst = filest +
  syms :: syms
  forkret_first :: int

section \<open>Allocating and freeing\<close>

definition proc_pagetable :: "nat \<Rightarrow> ('a kst_scheme, uint64) kop" where
  "proc_pagetable p =
     kbind uvmcreate (\<lambda>pagetable.
     if pagetable = 0 then kret 0
     else kbind (kget (\<lambda>s. sym_trampoline (syms s))) (\<lambda>tr.
       kbind (mappages pagetable TRAMPOLINE PGSIZE tr (PTE_R OR PTE_X)) (\<lambda>r.
       if r < 0 then kthen (uvmfree pagetable 0) (kret 0)
       else kbind (pget p p_trapframe) (\<lambda>tf.
         kbind (mappages pagetable TRAPFRAME PGSIZE tf (PTE_R OR PTE_W)) (\<lambda>r.
         if r < 0
         then kthen (uvmunmap pagetable TRAMPOLINE 1 False) (kthen (uvmfree pagetable 0) (kret 0))
         else kret pagetable)))))"

definition proc_freepagetable :: "uint64 \<Rightarrow> uint64 \<Rightarrow> ('a kmem_scheme, unit) kop" where
  "proc_freepagetable pagetable sz =
     kthen (uvmunmap pagetable TRAMPOLINE 1 False)
     (kthen (uvmunmap pagetable TRAPFRAME 1 False)
            (uvmfree pagetable sz))"

definition freeproc :: "nat \<Rightarrow> ('a kst_scheme, unit) kop" where
  "freeproc p =
     kbind (pget p p_trapframe) (\<lambda>tf.
     kthen (kwhen (tf \<noteq> 0) (kfree tf))
     (kthen (pmod p (\<lambda>q. q\<lparr>p_trapframe := 0\<rparr>))
     (kbind (pget p (\<lambda>q. q)) (\<lambda>q.
      kthen (kwhen (p_pagetable q \<noteq> 0) (proc_freepagetable (p_pagetable q) (p_sz q)))
            (pmod p (\<lambda>q. q\<lparr>p_pagetable := 0, p_sz := 0, p_pid := 0, p_parent := None,
               p_name := (p_name q)[0 := 0], p_chan := None, p_killed := 0, p_xstate := 0,
               p_state := UNUSED\<rparr>))))))"

definition allocproc :: "('a kst_scheme, nat option) kop" where
  "allocproc =
     kbind (kget (\<lambda>s. find (\<lambda>p. p_state (ptable s p) = UNUSED) [0..<NPROC])) (\<lambda>found.
     case found of
       None \<Rightarrow> kret None
     | Some p \<Rightarrow>
         kbind allocpid (\<lambda>pid.
         kthen (pmod p (\<lambda>q. q\<lparr>p_pid := pid\<rparr>))
         (kthen (pmod p (\<lambda>q. q\<lparr>p_state := USED\<rparr>))
         (kbind kalloc (\<lambda>tf.
          kthen (pmod p (\<lambda>q. q\<lparr>p_trapframe := tf\<rparr>))
          (if tf = 0 then kthen (freeproc p) (kret None)
           else kbind (proc_pagetable p) (\<lambda>pt.
             kthen (pmod p (\<lambda>q. q\<lparr>p_pagetable := pt\<rparr>))
             (if pt = 0 then kthen (freeproc p) (kret None)
              else kbind (kget (\<lambda>s. sym_forkret (syms s))) (\<lambda>fr.
                kthen (pmod p (\<lambda>q. q\<lparr>p_context := \<lparr>ctx_ra = fr, ctx_sp = p_kstack q + PGSIZE,
                         ctx_s = replicate 12 0\<rparr>\<rparr>))
                      (kret (Some p)))))))))))"

section \<open>The first process\<close>

definition initcode :: "uchar list" where
  "initcode =
    [0x17, 0x05, 0x00, 0x00, 0x13, 0x05, 0x45, 0x02,
     0x97, 0x05, 0x00, 0x00, 0x93, 0x85, 0x35, 0x02,
     0x93, 0x08, 0x70, 0x00, 0x73, 0x00, 0x00, 0x00,
     0x93, 0x08, 0x20, 0x00, 0x73, 0x00, 0x00, 0x00,
     0xef, 0xf0, 0x9f, 0xff, 0x2f, 0x69, 0x6e, 0x69,
     0x74, 0x00, 0x00, 0x24, 0x00, 0x00, 0x00, 0x00,
     0x00, 0x00, 0x00, 0x00]"

text \<open>\<^verbatim>\<open>safestrcpy\<close> on the fixed array of a name: \<open>n\<close> counts what \<^verbatim>\<open>--n\<close> leaves.\<close>

primrec lsafestrcpy :: "nat \<Rightarrow> uchar list \<Rightarrow> uchar list \<Rightarrow> uchar list" where
  "lsafestrcpy 0 t s = 0 # tl s"
| "lsafestrcpy (Suc n) t s =
     (case t of
        [] \<Rightarrow> 0 # 0 # drop 2 s
      | c # t' \<Rightarrow> if c = 0 then 0 # 0 # drop 2 s else c # lsafestrcpy n t' (tl s))"

definition userinit :: "('a kst_scheme, unit) kop" where
  "userinit =
     kbind allocproc (\<lambda>r.
     kthen (kmod (\<lambda>s. s\<lparr>initproc := r\<rparr>))
     (case r of
        None \<Rightarrow> kfault
      | Some p \<Rightarrow>
          kbind (pget p p_pagetable) (\<lambda>pt.
          kthen (uvminit pt initcode)
          (kthen (pmod p (\<lambda>q. q\<lparr>p_sz := PGSIZE\<rparr>))
          (kthen (tf_set p TF_epc 0)
          (kthen (tf_set p TF_sp PGSIZE)
          (kthen (pmod p (\<lambda>q. q\<lparr>p_name := lsafestrcpy 15 (ascii ''initcode'') (p_name q)\<rparr>))
          (kbind (namei (ascii ''/'')) (\<lambda>cwd.
           kthen (pmod p (\<lambda>q. q\<lparr>p_cwd := cwd\<rparr>))
                 (pmod p (\<lambda>q. q\<lparr>p_state := RUNNABLE\<rparr>)))))))))))"

section \<open>Memory, fork, exit and wait\<close>

text \<open>The local \<open>sz\<close> of \<open>growproc\<close> is a 32-bit \<^verbatim>\<open>uint\<close>, and so is \<open>sz + n\<close>.\<close>

definition growproc :: "uint32 \<Rightarrow> ('a kst_scheme, int) kop" where
  "growproc n =
     kbind myproc (\<lambda>p. kbind (pget p (\<lambda>q. q)) (\<lambda>q.
     let sz = (ucast (p_sz q) :: uint32) in
     if sint n > 0
     then kbind (uvmalloc (p_pagetable q) (ucast sz) (ucast (sz + n))) (\<lambda>r.
          if (ucast r :: uint32) = 0 then kret (-1)
          else kthen (pmod p (\<lambda>q. q\<lparr>p_sz := ucast (ucast r :: uint32)\<rparr>)) (kret 0))
     else if sint n < 0
     then kbind (uvmdealloc (p_pagetable q) (ucast sz) (ucast (sz + n))) (\<lambda>r.
          kthen (pmod p (\<lambda>q. q\<lparr>p_sz := ucast (ucast r :: uint32)\<rparr>)) (kret 0))
     else kthen (pmod p (\<lambda>q. q\<lparr>p_sz := ucast sz\<rparr>)) (kret 0)))"

definition fork :: "('a kst_scheme, int) kop" where
  "fork =
     kbind myproc (\<lambda>p. kbind allocproc (\<lambda>r.
     case r of
       None \<Rightarrow> kret (-1)
     | Some np \<Rightarrow>
         kbind (pget p (\<lambda>q. q)) (\<lambda>q. kbind (pget np (\<lambda>q. q)) (\<lambda>nq.
         kbind (uvmcopy (p_pagetable q) (p_pagetable nq) (p_sz q)) (\<lambda>r.
         if r < 0 then kthen (freeproc np) (kret (-1))
         else
           kthen (pmod np (\<lambda>n. n\<lparr>p_sz := p_sz q\<rparr>))
           (kthen (mmove (p_trapframe nq) (p_trapframe q) 288)
           (kthen (tf_set np TF_a0 0)
           (kthen (kfor [0..<NOFILE] (\<lambda>i.
              case p_ofile q ! i of
                None \<Rightarrow> kret ()
              | Some f \<Rightarrow> kbind (filedup f) (\<lambda>f. pmod np (\<lambda>n. n\<lparr>p_ofile := (p_ofile n)[i := Some f]\<rparr>))))
           (kbind (case p_cwd q of None \<Rightarrow> kfault | Some ip \<Rightarrow> idup ip) (\<lambda>cwd.
            kthen (pmod np (\<lambda>n. n\<lparr>p_cwd := Some cwd\<rparr>))
            (kthen (pmod np (\<lambda>n. n\<lparr>p_name := lsafestrcpy 15 (p_name q) (p_name n)\<rparr>))
            (kbind (pget np p_pid) (\<lambda>pid.
             kthen (pmod np (\<lambda>n. n\<lparr>p_parent := Some p\<rparr>))
             (kthen (pmod np (\<lambda>n. n\<lparr>p_state := RUNNABLE\<rparr>))
                    (kret pid)))))))))))))))"

text \<open>
  \<open>exit\<close> does not return: after the switch to the scheduler nothing makes the zombie
  runnable. Its model ends with that switch, and no caller goes on after it.
\<close>

definition exit :: "int \<Rightarrow> ('a kst_scheme, unit) kop" where
  "exit status =
     kbind myproc (\<lambda>p. kbind (kget initproc) (\<lambda>ip.
     kthen (kwhen (ip = Some p) (kpanic ''init exiting''))
     (kthen (kfor [0..<NOFILE] (\<lambda>fd.
        kbind (pget p (\<lambda>q. p_ofile q ! fd)) (\<lambda>ofd.
        case ofd of
          None \<Rightarrow> kret ()
        | Some f \<Rightarrow> kthen (fileclose f) (pmod p (\<lambda>q. q\<lparr>p_ofile := (p_ofile q)[fd := None]\<rparr>)))))
     (kthen begin_op
     (kbind (pget p p_cwd) (\<lambda>cwd.
      kthen (case cwd of None \<Rightarrow> kfault | Some i \<Rightarrow> iput i)
      (kthen end_op
      (kthen (pmod p (\<lambda>q. q\<lparr>p_cwd := None\<rparr>))
      (kthen (reparent p)
      (kbind (pget p p_parent) (\<lambda>par.
       kthen (case par of None \<Rightarrow> kret () | Some i \<Rightarrow> wakeup (ChProc i))
       (kthen (pmod p (\<lambda>q. q\<lparr>p_xstate := status\<rparr>))
       (kthen (pmod p (\<lambda>q. q\<lparr>p_state := ZOMBIE\<rparr>))
              sched)))))))))))))"

definition wait :: "uint64 \<Rightarrow> ('a kst_scheme, int) kop" where
  "wait addr =
     kbind myproc (\<lambda>p.
     kbind (kfind [0..<NPROC] (\<lambda>np.
       kbind (pget np (\<lambda>q. q)) (\<lambda>nq.
       if p_parent nq = Some p \<and> p_state nq = ZOMBIE
       then kbind (if addr \<noteq> 0
                   then kbind (pget p p_pagetable) (\<lambda>pt.
                     copyout pt addr (le_bytes 4 (word_of_int (p_xstate nq) :: uint32)))
                   else kret 0) (\<lambda>r.
            if r < 0 then kret (Some (-1))
            else kthen (freeproc np) (kret (Some (p_pid nq))))
       else kret None))) (\<lambda>r.
     case r of
       Some v \<Rightarrow> kret v
     | None \<Rightarrow>
         kbind (kget (\<lambda>s. list_ex (\<lambda>np. p_parent (ptable s np) = Some p) [0..<NPROC])) (\<lambda>havekids.
         kbind (pget p p_killed) (\<lambda>killed.
         if \<not> havekids \<or> killed \<noteq> 0 then kret (-1)
         else kblock (ChProc p)))))"

text \<open>\<open>forkret\<close> up to \<open>usertrapret\<close>: the first process to be scheduled initializes the file system.\<close>

definition forkret_init :: "('a kst_scheme, unit) kop" where
  "forkret_init =
     kbind (kget forkret_first) (\<lambda>first.
     kwhen (first \<noteq> 0)
       (kthen (kmod (\<lambda>s. s\<lparr>forkret_first := 0\<rparr>))
              (fsinit ROOTDEV)))"

end
