(* ===== verification/Exec.thy ===== *)
theory Exec
  imports Proc
begin

text \<open>
  Loading a program (\<^verbatim>\<open>kernel/exec.c\<close>, \<^verbatim>\<open>kernel/elf.h\<close>) and fetching system call arguments
  (the first half of \<^verbatim>\<open>kernel/syscall.c\<close>). Argument strings are in pages of the kernel, as \<open>sys_exec\<close>
  leaves them.
\<close>

section \<open>System call arguments\<close>

definition fetchaddr :: "uint64 \<Rightarrow> ('a kst_scheme, int \<times> uint64) kop" where
  "fetchaddr addr =
     kbind myproc (\<lambda>p. kbind (pget p (\<lambda>q. q)) (\<lambda>q.
     if addr \<ge> p_sz q \<or> addr + 8 > p_sz q then kret (-1, 0)
     else kbind (copyin (p_pagetable q) addr 8) (\<lambda>(r, bs).
       if r \<noteq> 0 then kret (-1, 0) else kret (0, le_word bs))))"

text \<open>\<open>fetchstr\<close> and \<open>argstr\<close> return the string with its length.\<close>

definition fetchstr :: "uint64 \<Rightarrow> nat \<Rightarrow> ('a kst_scheme, int \<times> uchar list) kop" where
  "fetchstr addr mx =
     kbind myproc (\<lambda>p. kbind (pget p p_pagetable) (\<lambda>pt.
     kbind (copyinstr pt addr mx) (\<lambda>(err, bs).
     let str = takeWhile (\<lambda>c. c \<noteq> 0) bs in
     kret (if err < 0 then err else int (length str), str))))"

fun arg_reg :: "nat \<Rightarrow> tfield option" where
  "arg_reg n = (if n < 6 then Some ([TF_a0, TF_a1, TF_a2, TF_a3, TF_a4, TF_a5] ! n) else None)"

definition argraw :: "nat \<Rightarrow> ('a kst_scheme, uint64) kop" where
  "argraw n =
     kbind myproc (\<lambda>p.
     case arg_reg n of Some r \<Rightarrow> tf_get p r | None \<Rightarrow> kpanic ''argraw'')"

definition argint :: "nat \<Rightarrow> ('a kst_scheme, uint32) kop" where
  "argint n = kbind (argraw n) (\<lambda>v. kret (ucast v))"

definition argaddr :: "nat \<Rightarrow> ('a kst_scheme, uint64) kop" where
  "argaddr n = argraw n"

definition argstr :: "nat \<Rightarrow> nat \<Rightarrow> ('a kst_scheme, int \<times> uchar list) kop" where
  "argstr n mx = kbind (argaddr n) (\<lambda>addr. fetchstr addr mx)"

section \<open>Program files\<close>

definition ELF_MAGIC :: uint32 where "ELF_MAGIC = 0x464C457F"
definition ELF_PROG_LOAD :: uint32 where "ELF_PROG_LOAD = 1"
definition MAXARG :: nat where "MAXARG = 32"
definition MAXPATH :: nat where "MAXPATH = 128"

record elfhdr =
  e_magic :: uint32
  e_entry :: uint64
  e_phoff :: uint64
  e_phnum :: ushort

definition elfhdr_of :: "uchar list \<Rightarrow> elfhdr" where
  "elfhdr_of bs = \<lparr>e_magic = le_word (slice 0 4 bs), e_entry = le_word (slice 24 8 bs),
     e_phoff = le_word (slice 32 8 bs), e_phnum = le_word (slice 56 2 bs)\<rparr>"

record proghdr =
  ph_type :: uint32
  ph_off :: uint64
  ph_vaddr :: uint64
  ph_filesz :: uint64
  ph_memsz :: uint64

definition proghdr_of :: "uchar list \<Rightarrow> proghdr" where
  "proghdr_of bs = \<lparr>ph_type = le_word (slice 0 4 bs), ph_off = le_word (slice 8 8 bs),
     ph_vaddr = le_word (slice 16 8 bs), ph_filesz = le_word (slice 32 8 bs), ph_memsz = le_word (slice 40 8 bs)\<rparr>"

text \<open>
  \<open>loadseg\<close> reads into physical pages what the file has of them, page by page. A file is far
  shorter than the size at which the loop variable would wrap around.
\<close>

definition loadseg :: "uint64 \<Rightarrow> uint64 \<Rightarrow> nat \<Rightarrow> uint32 \<Rightarrow> uint32 \<Rightarrow> ('a kst_scheme, int) kop" where
  "loadseg pagetable va ip offset sz =
     kbind (kfind (map (\<lambda>k. of_nat (4096 * k)) [0..<(unat sz + 4095) div 4096]) (\<lambda>i.
       kbind (walkaddr pagetable (va + ucast i)) (\<lambda>pa.
       kthen (kwhen (pa = 0) (kpanic ''loadseg: address should exist''))
       (let n = (if sz - i < 4096 then sz - i else 4096) in
        kbind (readi ip None (offset + i) n) (\<lambda>(r, bs).
        kthen (mstore pa bs)
              (kret (if r \<noteq> uint n then Some () else None))))))) (\<lambda>r.
     kret (case r of Some _ \<Rightarrow> -1 | None \<Rightarrow> 0))"

text \<open>
  The loop over the program headers. It returns whether all went well, and the size so far,
  which the error path needs to free the memory.
\<close>

primrec load_segments :: "nat \<Rightarrow> uint32 \<Rightarrow> nat \<Rightarrow> uint64 \<Rightarrow> uint64 \<Rightarrow> ('a kst_scheme, bool \<times> uint64) kop" where
  "load_segments 0 off ip pagetable sz = kret (True, sz)"
| "load_segments (Suc n) off ip pagetable sz =
     kbind (readi ip None off 56) (\<lambda>(r, bs).
     let ph = proghdr_of bs in
     if r \<noteq> 56 then kret (False, sz)
     else if ph_type ph \<noteq> ELF_PROG_LOAD then load_segments n (off + 56) ip pagetable sz
     else if ph_memsz ph < ph_filesz ph then kret (False, sz)
     else if ph_vaddr ph + ph_memsz ph < ph_vaddr ph then kret (False, sz)
     else kbind (uvmalloc pagetable sz (ph_vaddr ph + ph_memsz ph)) (\<lambda>sz1.
       if sz1 = 0 then kret (False, sz)
       else if ph_vaddr ph mod PGSIZE \<noteq> 0 then kret (False, sz1)
       else kbind (loadseg pagetable (ph_vaddr ph) ip (ucast (ph_off ph)) (ucast (ph_filesz ph))) (\<lambda>r.
         if r < 0 then kret (False, sz1)
         else load_segments n (off + 56) ip pagetable sz1)))"

text \<open>A string in kernel memory.\<close>

definition kstr :: "uint64 \<Rightarrow> ('a kmem_scheme, uchar list) kop" where
  "kstr a = kbind (kget (\<lambda>s. (strlen a (mem s), mem s))) (\<lambda>(n, m).
     case n of None \<Rightarrow> kfault | Some n \<Rightarrow> kret (bytes m a n))"

text \<open>Pushing the argument strings; \<open>ustack\<close> collects their addresses.\<close>

primrec push_args :: "uint64 list \<Rightarrow> uint64 \<Rightarrow> uint64 \<Rightarrow> uint64 \<Rightarrow> uint64 list \<Rightarrow>
    ('a kst_scheme, (uint64 \<times> uint64 list) option) kop" where
  "push_args [] pagetable stackbase sp ustack = kret (Some (sp, ustack))"
| "push_args (a # as) pagetable stackbase sp ustack =
     (if length ustack \<ge> MAXARG then kret None
      else kbind (kstr a) (\<lambda>str.
        let sp = sp - of_nat (length str + 1); sp = sp - sp mod 16 in
        if sp < stackbase then kret None
        else kbind (copyout pagetable sp (str @ [0])) (\<lambda>r.
          if r < 0 then kret None
          else push_args as pagetable stackbase sp (ustack @ [sp]))))"

text \<open>The name of the program: what follows the last slash of the path.\<close>

primrec last_elem :: "uchar list \<Rightarrow> uchar list \<Rightarrow> uchar list" where
  "last_elem cur [] = cur"
| "last_elem cur (c # cs) = (if c = slash then last_elem cs cs else last_elem cur cs)"

text \<open>The stack of the new image: the strings, then the array of pointers to them.\<close>

definition push_stack :: "uint64 \<Rightarrow> uint64 list \<Rightarrow> uint64 \<Rightarrow> ('a kst_scheme, (uint64 \<times> nat) option) kop" where
  "push_stack pagetable argv sz =
     (let stackbase = sz - PGSIZE in
      kbind (push_args argv pagetable stackbase sz []) (\<lambda>r.
      case r of
        None \<Rightarrow> kret None
      | Some (sp, ustack) \<Rightarrow>
          let sp = sp - of_nat ((length ustack + 1) * 8); sp = sp - sp mod 16 in
          if sp < stackbase then kret None
          else kbind (copyout pagetable sp (concat (map (le_bytes 8) (ustack @ [0])))) (\<lambda>r.
            if r < 0 then kret None else kret (Some (sp, length ustack)))))"

definition exec :: "uchar list \<Rightarrow> uint64 list \<Rightarrow> ('a kst_scheme, int) kop" where
  "exec path argv =
     kbind myproc (\<lambda>p.
     kthen begin_op
     (kbind (namei path) (\<lambda>r.
      case r of
        None \<Rightarrow> kthen end_op (kret (-1))
      | Some ip \<Rightarrow>
          kthen (ilock ip)
          (kbind (readi ip None 0 64) (\<lambda>(r, bs).
           let elf = elfhdr_of bs in
           if r \<noteq> 64 \<or> e_magic elf \<noteq> ELF_MAGIC
           then kthen (iunlockput ip) (kthen end_op (kret (-1)))
           else kbind (proc_pagetable p) (\<lambda>pagetable.
             if pagetable = 0 then kthen (iunlockput ip) (kthen end_op (kret (-1)))
             else kbind (load_segments (unat (e_phnum elf)) (ucast (e_phoff elf)) ip pagetable 0) (\<lambda>(ok, sz).
               if \<not> ok
               then kthen (proc_freepagetable pagetable sz)
                   (kthen (iunlockput ip) (kthen end_op (kret (-1))))
               else kthen (iunlockput ip)
                   (kthen end_op
                   (kbind (pget p p_sz) (\<lambda>oldsz.
                    let sz = PGROUNDUP sz in
                    kbind (uvmalloc pagetable sz (sz + 2 * PGSIZE)) (\<lambda>sz1.
                    if sz1 = 0 then kthen (proc_freepagetable pagetable sz) (kret (-1))
                    else
                      kthen (uvmclear pagetable (sz1 - 2 * PGSIZE))
                      (kbind (push_stack pagetable argv sz1) (\<lambda>r.
                       case r of
                         None \<Rightarrow> kthen (proc_freepagetable pagetable sz1) (kret (-1))
                       | Some (sp, argc) \<Rightarrow>
                           kthen (tf_set p TF_a1 sp)
                           (kthen (pmod p (\<lambda>q. q\<lparr>p_name := lsafestrcpy 15 (last_elem path path) (p_name q)\<rparr>))
                           (kbind (pget p p_pagetable) (\<lambda>oldpagetable.
                            kthen (pmod p (\<lambda>q. q\<lparr>p_pagetable := pagetable\<rparr>))
                            (kthen (pmod p (\<lambda>q. q\<lparr>p_sz := sz1\<rparr>))
                            (kthen (tf_set p TF_epc (e_entry elf))
                            (kthen (tf_set p TF_sp sp)
                            (kthen (proc_freepagetable oldpagetable oldsz)
                                   (kret (int argc))))))))))))))))))))))"

end
