(* ===== verification/Sysfile.thy ===== *)
theory Sysfile
  imports Exec
begin

text \<open>
  The file system calls (\<^verbatim>\<open>kernel/sysfile.c\<close>). A system call returns the \<^verbatim>\<open>uint64\<close> that
  goes to register \<^verbatim>\<open>a0\<close>; -1 is the error.
\<close>

definition O_RDONLY :: uint32 where "O_RDONLY = 0x000"
definition O_WRONLY :: uint32 where "O_WRONLY = 0x001"
definition O_RDWR :: uint32 where "O_RDWR = 0x002"
definition O_CREATE :: uint32 where "O_CREATE = 0x200"
definition O_TRUNC :: uint32 where "O_TRUNC = 0x400"

text \<open>An \<^verbatim>\<open>int\<close> result as the 64-bit value of the call.\<close>

abbreviation ret :: "int \<Rightarrow> ('s, uint64) kop" where
  "ret v \<equiv> kret (word_of_int v)"

definition ret_of :: "('s, int) kop \<Rightarrow> ('s, uint64) kop" where
  "ret_of f = kbind f (\<lambda>v. ret v)"

section \<open>Descriptors\<close>

definition argfd :: "nat \<Rightarrow> ('a kst_scheme, (nat \<times> nat) option) kop" where
  "argfd n =
     kbind (argint n) (\<lambda>fd.
     if sint fd < 0 \<or> sint fd \<ge> int NOFILE then kret None
     else kbind myproc (\<lambda>p. kbind (pget p (\<lambda>q. p_ofile q ! unat fd)) (\<lambda>f.
       kret (case f of None \<Rightarrow> None | Some f \<Rightarrow> Some (unat fd, f)))))"

definition fdalloc :: "nat \<Rightarrow> ('a kst_scheme, int) kop" where
  "fdalloc f =
     kbind myproc (\<lambda>p. kbind (pget p p_ofile) (\<lambda>of'.
     case find (\<lambda>fd. of' ! fd = None) [0..<NOFILE] of
       Some fd \<Rightarrow> kthen (pmod p (\<lambda>q. q\<lparr>p_ofile := (p_ofile q)[fd := Some f]\<rparr>)) (kret (int fd))
     | None \<Rightarrow> kret (-1)))"

definition clear_fd :: "nat \<Rightarrow> nat \<Rightarrow> ('a kst_scheme, unit) kop" where
  "clear_fd p fd = pmod p (\<lambda>q. q\<lparr>p_ofile := (p_ofile q)[fd := None]\<rparr>)"

definition sys_dup :: "('a kst_scheme, uint64) kop" where
  "sys_dup =
     kbind (argfd 0) (\<lambda>a.
     case a of
       None \<Rightarrow> ret (-1)
     | Some (_, f) \<Rightarrow>
         kbind (fdalloc f) (\<lambda>fd.
         if fd < 0 then ret (-1)
         else kbind (filedup f) (\<lambda>_. ret fd)))"

definition sys_read :: "('a kst_scheme, uint64) kop" where
  "sys_read =
     kbind (argfd 0) (\<lambda>a.
     case a of
       None \<Rightarrow> ret (-1)
     | Some (_, f) \<Rightarrow>
         kbind (argint 2) (\<lambda>n. kbind (argaddr 1) (\<lambda>p. ret_of (fileread f p (sint n)))))"

definition sys_write :: "('a kst_scheme, uint64) kop" where
  "sys_write =
     kbind (argfd 0) (\<lambda>a.
     case a of
       None \<Rightarrow> ret (-1)
     | Some (_, f) \<Rightarrow>
         kbind (argint 2) (\<lambda>n. kbind (argaddr 1) (\<lambda>p. ret_of (filewrite f p (sint n)))))"

definition sys_close :: "('a kst_scheme, uint64) kop" where
  "sys_close =
     kbind (argfd 0) (\<lambda>a.
     case a of
       None \<Rightarrow> ret (-1)
     | Some (fd, f) \<Rightarrow>
         kbind myproc (\<lambda>p.
         kthen (clear_fd p fd)
         (kthen (fileclose f)
                (ret 0))))"

definition sys_fstat :: "('a kst_scheme, uint64) kop" where
  "sys_fstat =
     kbind (argfd 0) (\<lambda>a.
     case a of
       None \<Rightarrow> ret (-1)
     | Some (_, f) \<Rightarrow> kbind (argaddr 1) (\<lambda>st. ret_of (filestat f st)))"

section \<open>Links\<close>

definition link_bad :: "nat \<Rightarrow> ('a kst_scheme, uint64) kop" where
  "link_bad ip =
     kthen (ilock ip)
     (kthen (imod ip (\<lambda>x. x\<lparr>i_nlink := i_nlink x - 1\<rparr>))
     (kthen (iupdate ip)
     (kthen (iunlockput ip)
     (kthen end_op
            (ret (-1))))))"

definition sys_link :: "('a kst_scheme, uint64) kop" where
  "sys_link =
     kbind (argstr 0 MAXPATH) (\<lambda>(r0, old).
     if r0 < 0 then ret (-1)
     else kbind (argstr 1 MAXPATH) (\<lambda>(r1, new).
     if r1 < 0 then ret (-1)
     else
       kthen begin_op
       (kbind (namei old) (\<lambda>r.
        case r of
          None \<Rightarrow> kthen end_op (ret (-1))
        | Some ip \<Rightarrow>
            kthen (ilock ip)
            (kbind (iread ip i_type) (\<lambda>ty.
             if ty = T_DIR then kthen (iunlockput ip) (kthen end_op (ret (-1)))
             else
               kthen (imod ip (\<lambda>x. x\<lparr>i_nlink := i_nlink x + 1\<rparr>))
               (kthen (iupdate ip)
               (kthen (iunlock ip)
               (kbind (nameiparent new) (\<lambda>r.
                case r of
                  None \<Rightarrow> link_bad ip
                | Some (dp, name) \<Rightarrow>
                    kthen (ilock dp)
                    (kbind (iread dp i_dev) (\<lambda>dev. kbind (iread ip (\<lambda>x. x)) (\<lambda>x.
                     kbind (if dev \<noteq> i_dev x then kret (-1) else dirlink dp name (i_inum x)) (\<lambda>r.
                     if r < 0 then kthen (iunlockput dp) (link_bad ip)
                     else
                       kthen (iunlockput dp)
                       (kthen (iput ip)
                       (kthen end_op
                              (ret 0)))))))))))))))))"

text \<open>\<open>isdirempty\<close> looks at the entries after the first two.\<close>

definition isdirempty :: "nat \<Rightarrow> ('a kst_scheme, bool) kop" where
  "isdirempty dp =
     kbind (iread dp i_size) (\<lambda>sz.
     kbind (kfind (drop 2 (dir_offs sz)) (\<lambda>off.
       kbind (readi dp None (of_nat off) 16) (\<lambda>(r, bs).
       kthen (kwhen (r \<noteq> 16) (kpanic ''isdirempty: readi''))
             (kret (if de_inum (dirent_of bs) \<noteq> 0 then Some () else None))))) (\<lambda>r.
     kret (r = None)))"

definition unlink_bad :: "nat \<Rightarrow> ('a kst_scheme, uint64) kop" where
  "unlink_bad dp = kthen (iunlockput dp) (kthen end_op (ret (-1)))"

definition sys_unlink :: "('a kst_scheme, uint64) kop" where
  "sys_unlink =
     kbind (argstr 0 MAXPATH) (\<lambda>(r, path).
     if r < 0 then ret (-1)
     else
       kthen begin_op
       (kbind (nameiparent path) (\<lambda>r.
        case r of
          None \<Rightarrow> kthen end_op (ret (-1))
        | Some (dp, name) \<Rightarrow>
            kthen (ilock dp)
            (if namecmp name (ascii ''.'') = 0 \<or> namecmp name (ascii ''..'') = 0 then unlink_bad dp
             else kbind (dirlookup dp name) (\<lambda>r.
               case r of
                 None \<Rightarrow> unlink_bad dp
               | Some (ip, off) \<Rightarrow>
                   kthen (ilock ip)
                   (kbind (iread ip (\<lambda>x. x)) (\<lambda>x.
                    kthen (kwhen (sint (i_nlink x) < 1) (kpanic ''unlink: nlink < 1''))
                    (kbind (if i_type x = T_DIR then kbind (isdirempty ip) (\<lambda>e. kret (\<not> e)) else kret False) (\<lambda>full.
                     if full then kthen (iunlockput ip) (unlink_bad dp)
                     else
                       kbind (writei dp (Kern_src (replicate 16 0)) off 16) (\<lambda>r.
                       kthen (kwhen (r \<noteq> 16) (kpanic ''unlink: writei''))
                       (kthen (kwhen (i_type x = T_DIR)
                          (kthen (imod dp (\<lambda>d. d\<lparr>i_nlink := i_nlink d - 1\<rparr>)) (iupdate dp)))
                       (kthen (iunlockput dp)
                       (kthen (imod ip (\<lambda>x. x\<lparr>i_nlink := i_nlink x - 1\<rparr>))
                       (kthen (iupdate ip)
                       (kthen (iunlockput ip)
                       (kthen end_op
                              (ret 0)))))))))))))))))"

section \<open>Creating and opening\<close>

definition create :: "uchar list \<Rightarrow> ushort \<Rightarrow> ushort \<Rightarrow> ushort \<Rightarrow> ('a kst_scheme, nat option) kop" where
  "create path type major minor =
     kbind (nameiparent path) (\<lambda>r.
     case r of
       None \<Rightarrow> kret None
     | Some (dp, name) \<Rightarrow>
         kthen (ilock dp)
         (kbind (dirlookup dp name) (\<lambda>r.
          case r of
            Some (ip, _) \<Rightarrow>
              kthen (iunlockput dp)
              (kthen (ilock ip)
              (kbind (iread ip i_type) (\<lambda>ty.
               if type = T_FILE \<and> (ty = T_FILE \<or> ty = T_DEVICE) then kret (Some ip)
               else kthen (iunlockput ip) (kret None))))
          | None \<Rightarrow>
              kbind (iread dp i_dev) (\<lambda>dev.
              kbind (ialloc dev type) (\<lambda>ip.
              kthen (ilock ip)
              (kthen (imod ip (\<lambda>x. x\<lparr>i_major := major, i_minor := minor, i_nlink := 1\<rparr>))
              (kthen (iupdate ip)
              (kbind (iread ip i_inum) (\<lambda>inum. kbind (iread dp i_inum) (\<lambda>dnum.
               kthen (kwhen (type = T_DIR)
                 (kthen (imod dp (\<lambda>d. d\<lparr>i_nlink := i_nlink d + 1\<rparr>))
                 (kthen (iupdate dp)
                 (kbind (dirlink ip (ascii ''.'') inum) (\<lambda>r.
                  kthen (kwhen (r < 0) (kpanic ''create dots''))
                  (kbind (dirlink ip (ascii ''..'') dnum) (\<lambda>r.
                   kwhen (r < 0) (kpanic ''create dots''))))))))
               (kbind (dirlink dp name inum) (\<lambda>r.
                kthen (kwhen (r < 0) (kpanic ''create: dirlink''))
                (kthen (iunlockput dp)
                       (kret (Some ip)))))))))))))))"

definition open_ip :: "uchar list \<Rightarrow> uint32 \<Rightarrow> ('a kst_scheme, nat option) kop" where
  "open_ip path omode =
     (if omode AND O_CREATE \<noteq> 0 then create path T_FILE 0 0
      else kbind (namei path) (\<lambda>r.
        case r of
          None \<Rightarrow> kret None
        | Some ip \<Rightarrow>
            kthen (ilock ip)
            (kbind (iread ip i_type) (\<lambda>ty.
             if ty = T_DIR \<and> omode \<noteq> O_RDONLY then kthen (iunlockput ip) (kret None)
             else kret (Some ip)))))"

definition open_fail :: "nat \<Rightarrow> ('a kst_scheme, uint64) kop" where
  "open_fail ip = kthen (iunlockput ip) (kthen end_op (ret (-1)))"

definition sys_open :: "('a kst_scheme, uint64) kop" where
  "sys_open =
     kbind (argstr 0 MAXPATH) (\<lambda>(n, path).
     if n < 0 then ret (-1)
     else kbind (argint 1) (\<lambda>omode.
       kthen begin_op
       (kbind (open_ip path omode) (\<lambda>r.
        case r of
          None \<Rightarrow> kthen end_op (ret (-1))
        | Some ip \<Rightarrow>
            kbind (iread ip (\<lambda>x. x)) (\<lambda>x.
            if i_type x = T_DEVICE \<and> (sint (i_major x) < 0 \<or> sint (i_major x) \<ge> int NDEV) then open_fail ip
            else kbind filealloc (\<lambda>r.
              case r of
                None \<Rightarrow> open_fail ip
              | Some f \<Rightarrow>
                  kbind (fdalloc f) (\<lambda>fd.
                  if fd < 0 then kthen (fileclose f) (open_fail ip)
                  else
                    kthen (if i_type x = T_DEVICE
                           then fmod f (\<lambda>y. y\<lparr>f_type := FD_DEVICE, f_major := i_major x\<rparr>)
                           else fmod f (\<lambda>y. y\<lparr>f_type := FD_INODE, f_off := 0\<rparr>))
                    (kthen (fmod f (\<lambda>y. y\<lparr>f_ip := ip, f_readable := omode AND O_WRONLY = 0,
                              f_writable := omode AND O_WRONLY \<noteq> 0 \<or> omode AND O_RDWR \<noteq> 0\<rparr>))
                    (kthen (kwhen (omode AND O_TRUNC \<noteq> 0 \<and> i_type x = T_FILE) (itrunc ip))
                    (kthen (iunlock ip)
                    (kthen end_op
                           (ret fd))))))))))))"

definition sys_mkdir :: "('a kst_scheme, uint64) kop" where
  "sys_mkdir =
     kthen begin_op
     (kbind (argstr 0 MAXPATH) (\<lambda>(r, path).
      kbind (if r < 0 then kret None else create path T_DIR 0 0) (\<lambda>r.
      case r of
        None \<Rightarrow> kthen end_op (ret (-1))
      | Some ip \<Rightarrow> kthen (iunlockput ip) (kthen end_op (ret 0)))))"

definition sys_mknod :: "('a kst_scheme, uint64) kop" where
  "sys_mknod =
     kthen begin_op
     (kbind (argstr 0 MAXPATH) (\<lambda>(r, path).
      kbind (if r < 0 then kret None
             else kbind (argint 1) (\<lambda>major. kbind (argint 2) (\<lambda>minor.
               create path T_DEVICE (ucast major) (ucast minor)))) (\<lambda>r.
      case r of
        None \<Rightarrow> kthen end_op (ret (-1))
      | Some ip \<Rightarrow> kthen (iunlockput ip) (kthen end_op (ret 0)))))"

definition sys_chdir :: "('a kst_scheme, uint64) kop" where
  "sys_chdir =
     kbind myproc (\<lambda>p.
     kthen begin_op
     (kbind (argstr 0 MAXPATH) (\<lambda>(r, path).
      kbind (if r < 0 then kret None else namei path) (\<lambda>r.
      case r of
        None \<Rightarrow> kthen end_op (ret (-1))
      | Some ip \<Rightarrow>
          kthen (ilock ip)
          (kbind (iread ip i_type) (\<lambda>ty.
           if ty \<noteq> T_DIR then kthen (iunlockput ip) (kthen end_op (ret (-1)))
           else
             kthen (iunlock ip)
             (kbind (pget p p_cwd) (\<lambda>cwd.
              kthen (case cwd of None \<Rightarrow> kfault | Some c \<Rightarrow> iput c)
              (kthen end_op
              (kthen (pmod p (\<lambda>q. q\<lparr>p_cwd := Some ip\<rparr>))
                     (ret 0)))))))))))"

section \<open>Exec and pipe\<close>

text \<open>
  The loop of \<open>sys_exec\<close> from argument \<open>i\<close> on, with the pages allocated so far; a page is in
  \<open>argv\<close> before its string is fetched.
\<close>

primrec exec_args :: "nat \<Rightarrow> uint64 \<Rightarrow> uint64 list \<Rightarrow> ('a kst_scheme, bool \<times> uint64 list) kop" where
  "exec_args 0 uargv argv = kret (False, argv)"
| "exec_args (Suc n) uargv argv =
     kbind (fetchaddr (uargv + 8 * of_nat (length argv))) (\<lambda>(r, uarg).
     if r < 0 then kret (False, argv)
     else if uarg = 0 then kret (True, argv)
     else kbind kalloc (\<lambda>pg.
       if pg = 0 then kret (False, argv)
       else kbind myproc (\<lambda>p. kbind (pget p p_pagetable) (\<lambda>pt.
         kbind (copyinstr pt uarg 4096) (\<lambda>(err, bs).
         kthen (mstore pg bs)
         (if err < 0 then kret (False, argv @ [pg]) else exec_args n uargv (argv @ [pg])))))))"

definition sys_exec :: "('a kst_scheme, uint64) kop" where
  "sys_exec =
     kbind (argstr 0 MAXPATH) (\<lambda>(r, path).
     if r < 0 then ret (-1)
     else kbind (argaddr 1) (\<lambda>uargv.
       kbind (exec_args MAXARG uargv []) (\<lambda>(ok, argv).
       if \<not> ok then kthen (kfor argv kfree) (ret (-1))
       else kbind (exec path argv) (\<lambda>v.
         kthen (kfor argv kfree)
               (ret v)))))"

definition sys_pipe :: "('a kst_scheme, uint64) kop" where
  "sys_pipe =
     kbind myproc (\<lambda>p.
     kbind (argaddr 0) (\<lambda>fdarray.
     kbind pipealloc (\<lambda>r.
     case r of
       None \<Rightarrow> ret (-1)
     | Some (fr, fw) \<Rightarrow>
         kbind (fdalloc fr) (\<lambda>fd0.
         kbind (if fd0 < 0 then kret (-1) else fdalloc fw) (\<lambda>fd1.
         if fd1 < 0
         then kthen (kwhen (fd0 \<ge> 0) (clear_fd p (nat fd0)))
             (kthen (fileclose fr) (kthen (fileclose fw) (ret (-1))))
         else kbind (pget p p_pagetable) (\<lambda>pt.
           kbind (copyout pt fdarray (le_bytes 4 (word_of_int fd0 :: uint32))) (\<lambda>r0.
           kbind (if r0 < 0 then kret (-1) else copyout pt (fdarray + 4) (le_bytes 4 (word_of_int fd1 :: uint32))) (\<lambda>r1.
           if r1 < 0
           then kthen (clear_fd p (nat fd0))
               (kthen (clear_fd p (nat fd1))
               (kthen (fileclose fr) (kthen (fileclose fw) (ret (-1)))))
           else ret 0))))))))"

end
