(* ===== verification/Virtio.thy ===== *)
theory Virtio
  imports Proc
begin

text \<open>
  The driver of the disk (\<^verbatim>\<open>kernel/virtio_disk.c\<close>, \<^verbatim>\<open>kernel/virtio.h\<close>): the descriptor table, the
  ring of requests made available to the device and the ring of requests it has used. A
  descriptor holds the address of one of three kinds of object, which the model keeps
  symbolic. \<open>virtio_disk_rw\<close> sleeps until the interrupt for its request; it is split there.
\<close>

section \<open>Queues\<close>

definition NUM :: nat where "NUM = 8"
definition VRING_DESC_F_NEXT :: ushort where "VRING_DESC_F_NEXT = 1"
definition VRING_DESC_F_WRITE :: ushort where "VRING_DESC_F_WRITE = 2"
definition VIRTIO_BLK_T_IN :: uint32 where "VIRTIO_BLK_T_IN = 0"
definition VIRTIO_BLK_T_OUT :: uint32 where "VIRTIO_BLK_T_OUT = 1"

text \<open>The address in a descriptor: a command header, the data of a buffer, a status byte.\<close>

datatype vaddr = NoAddr | ReqAt nat | DataAt nat | StatusAt nat

record virtq_desc =
  d_addr :: vaddr
  d_len :: uint32
  d_flags :: ushort
  d_next :: ushort

record virtio_blk_req =
  r_type :: uint32
  r_reserved :: uint32
  r_sector :: uint64

record disk =
  desc :: "nat \<Rightarrow> virtq_desc"
  avail_idx :: ushort
  avail_ring :: "nat \<Rightarrow> ushort"
  used_idx_dev :: ushort
  used_ring :: "nat \<Rightarrow> uint32"
  d_free :: "nat \<Rightarrow> bool"
  used_idx :: ushort
  info_b :: "nat \<Rightarrow> nat option"
  info_status :: "nat \<Rightarrow> uchar"
  d_ops :: "nat \<Rightarrow> virtio_blk_req"
  b_disk :: "nat \<Rightarrow> bool"
  d_regs :: "(nat \<times> uint32) list"

record vdst = kst +
  vd :: disk

abbreviation dget :: "(disk \<Rightarrow> 'b) \<Rightarrow> ('a vdst_scheme, 'b) kop" where
  "dget f \<equiv> kget (\<lambda>s. f (vd s))"

abbreviation dmod :: "(disk \<Rightarrow> disk) \<Rightarrow> ('a vdst_scheme, unit) kop" where
  "dmod f \<equiv> kmod (\<lambda>s. s\<lparr>vd := f (vd s)\<rparr>)"

definition upd_desc :: "nat \<Rightarrow> (virtq_desc \<Rightarrow> virtq_desc) \<Rightarrow> disk \<Rightarrow> disk" where
  "upd_desc i f d = d\<lparr>desc := (desc d)(i := f (desc d i))\<rparr>"

section \<open>Descriptors\<close>

definition alloc_desc :: "('a vdst_scheme, nat option) kop" where
  "alloc_desc =
     kbind (dget d_free) (\<lambda>fr.
     case find fr [0..<NUM] of
       Some i \<Rightarrow> kthen (dmod (\<lambda>d. d\<lparr>d_free := (d_free d)(i := False)\<rparr>)) (kret (Some i))
     | None \<Rightarrow> kret None)"

definition free_desc :: "nat \<Rightarrow> ('a vdst_scheme, unit) kop" where
  "free_desc i =
     kthen (kwhen (i \<ge> NUM) (kpanic ''free_desc 1''))
     (kbind (dget d_free) (\<lambda>fr.
      kthen (kwhen (fr i) (kpanic ''free_desc 2''))
      (kthen (dmod (upd_desc i (\<lambda>_. \<lparr>d_addr = NoAddr, d_len = 0, d_flags = 0, d_next = 0\<rparr>)))
      (kthen (dmod (\<lambda>d. d\<lparr>d_free := (d_free d)(i := True)\<rparr>))
             (wakeup ChDisk)))))"

text \<open>
  The loop of \<open>free_chain\<close>. The first argument bounds the number of steps: every step frees a
  descriptor, and \<open>free_desc\<close> panics on one that is free, so \<open>NUM + 1\<close> steps are enough.
\<close>

primrec free_chain_loop :: "nat \<Rightarrow> nat \<Rightarrow> ('a vdst_scheme, unit) kop" where
  "free_chain_loop 0 i = kfault"
| "free_chain_loop (Suc n) i =
     kbind (dget (\<lambda>d. desc d i)) (\<lambda>c.
     kthen (free_desc i)
     (if d_flags c AND VRING_DESC_F_NEXT \<noteq> 0 then free_chain_loop n (unat (d_next c)) else kret ()))"

definition free_chain :: "nat \<Rightarrow> ('a vdst_scheme, unit) kop" where
  "free_chain i = free_chain_loop (NUM + 1) i"

text \<open>\<open>alloc3_desc\<close> with the descriptors it has so far.\<close>

primrec alloc_descs :: "nat \<Rightarrow> nat list \<Rightarrow> ('a vdst_scheme, nat list option) kop" where
  "alloc_descs 0 idx = kret (Some idx)"
| "alloc_descs (Suc n) idx =
     kbind alloc_desc (\<lambda>i.
     case i of
       None \<Rightarrow> kthen (kfor idx free_desc) (kret None)
     | Some i \<Rightarrow> alloc_descs n (idx @ [i]))"

definition alloc3_desc :: "('a vdst_scheme, nat list option) kop" where
  "alloc3_desc = alloc_descs 3 []"

section \<open>Requests\<close>

text \<open>The three descriptors of a request for buffer \<open>b\<close>, linked in order.\<close>

definition format_req :: "nat \<Rightarrow> bool \<Rightarrow> uint64 \<Rightarrow> nat \<Rightarrow> nat \<Rightarrow> nat \<Rightarrow> disk \<Rightarrow> disk" where
  "format_req b write sector i0 i1 i2 d =
     (let d = d\<lparr>d_ops := (d_ops d)(i0 := \<lparr>r_type = (if write then VIRTIO_BLK_T_OUT else VIRTIO_BLK_T_IN),
                 r_reserved = 0, r_sector = sector\<rparr>)\<rparr>;
          d = upd_desc i0 (\<lambda>_. \<lparr>d_addr = ReqAt i0, d_len = 16, d_flags = VRING_DESC_F_NEXT, d_next = of_nat i1\<rparr>) d;
          d = upd_desc i1 (\<lambda>_. \<lparr>d_addr = DataAt b, d_len = of_nat BSIZE,
                 d_flags = (if write then 0 else VRING_DESC_F_WRITE) OR VRING_DESC_F_NEXT, d_next = of_nat i2\<rparr>) d;
          d = d\<lparr>info_status := (info_status d)(i0 := 0xff)\<rparr>;
          d = upd_desc i2 (\<lambda>_. \<lparr>d_addr = StatusAt i0, d_len = 1, d_flags = VRING_DESC_F_WRITE, d_next = 0\<rparr>) d;
          d = d\<lparr>b_disk := (b_disk d)(b := True)\<rparr>
      in d\<lparr>info_b := (info_b d)(i0 := Some b)\<rparr>)"

text \<open>
  \<open>virtio_disk_rw\<close> up to the wait: the head of its chain, or sleep when there are too few
  descriptors; and from the wait on, which ends only when the interrupt has cleared \<open>b->disk\<close>.
\<close>

definition virtio_submit :: "nat \<Rightarrow> bool \<Rightarrow> ('a vdst_scheme, nat) kop" where
  "virtio_submit b write =
     kbind (bufget b b_blockno) (\<lambda>blockno.
     let sector = ucast (blockno * 2) in
     kbind alloc3_desc (\<lambda>r.
     case r of
       Some [i0, i1, i2] \<Rightarrow>
         kthen (dmod (format_req b write sector i0 i1 i2))
         (kthen (dmod (\<lambda>d. d\<lparr>avail_ring := (avail_ring d)(unat (avail_idx d mod of_nat NUM) := of_nat i0)\<rparr>))
         (kthen (dmod (\<lambda>d. d\<lparr>avail_idx := avail_idx d + 1\<rparr>))
         (kthen (dmod (\<lambda>d. d\<lparr>d_regs := d_regs d @ [(0x050, 0)]\<rparr>))
                (kret i0))))
     | _ \<Rightarrow> kblock ChDisk))"

definition virtio_finish :: "nat \<Rightarrow> nat \<Rightarrow> ('a vdst_scheme, unit) kop" where
  "virtio_finish b i0 =
     kbind (dget b_disk) (\<lambda>bd.
     if bd b then kblock (ChBuf b)
     else kthen (dmod (\<lambda>d. d\<lparr>info_b := (info_b d)(i0 := None)\<rparr>))
                (free_chain i0))"

text \<open>
  The interrupt: every used entry since the last one ends a request. The number of entries is
  the distance of the two 16-bit indices.
\<close>

primrec virtio_intr_loop :: "nat \<Rightarrow> ('a vdst_scheme, unit) kop" where
  "virtio_intr_loop 0 = kret ()"
| "virtio_intr_loop (Suc n) =
     kbind (dget (\<lambda>d. d)) (\<lambda>d.
     let id = unat (used_ring d (unat (used_idx d mod of_nat NUM))) in
     kthen (kcheck (id < NUM))
     (kthen (kwhen (info_status d id \<noteq> 0) (kpanic ''virtio_disk_intr status''))
     (case info_b d id of
        None \<Rightarrow> kfault
      | Some b \<Rightarrow>
          kthen (dmod (\<lambda>d. d\<lparr>b_disk := (b_disk d)(b := False)\<rparr>))
          (kthen (wakeup (ChBuf b))
          (kthen (dmod (\<lambda>d. d\<lparr>used_idx := used_idx d + 1\<rparr>))
                 (virtio_intr_loop n))))))"

definition virtio_disk_intr :: "uint32 \<Rightarrow> ('a vdst_scheme, unit) kop" where
  "virtio_disk_intr intr_status =
     kthen (dmod (\<lambda>d. d\<lparr>d_regs := d_regs d @ [(0x064, intr_status AND 3)]\<rparr>))
     (kbind (dget (\<lambda>d. unat (used_idx_dev d - used_idx d))) virtio_intr_loop)"

section \<open>Initialization\<close>

text \<open>
  The registers of the device are a function \<open>rd\<close> of the register's offset; what the driver
  writes is recorded in order. \<open>pages\<close> is the address of \<^verbatim>\<open>disk.pages\<close>.
\<close>

abbreviation wreg :: "nat \<Rightarrow> uint32 \<Rightarrow> ('a vdst_scheme, unit) kop" where
  "wreg r v \<equiv> dmod (\<lambda>d. d\<lparr>d_regs := d_regs d @ [(r, v)]\<rparr>)"

definition driver_features :: "uint32 \<Rightarrow> uint32" where
  "driver_features f = fold (\<lambda>b f. f AND NOT (push_bit b 1)) [5, 7, 11, 12, 27, 29, 28] f"

definition virtio_disk_init :: "(nat \<Rightarrow> uint32) \<Rightarrow> uint64 \<Rightarrow> ('a vdst_scheme, unit) kop" where
  "virtio_disk_init rd pages =
     kthen (kwhen (rd 0x000 \<noteq> 0x74726976 \<or> rd 0x004 \<noteq> 1 \<or> rd 0x008 \<noteq> 2 \<or> rd 0x00c \<noteq> 0x554d4551)
              (kpanic ''could not find virtio disk''))
     (kthen (wreg 0x070 1)
     (kthen (wreg 0x070 (1 OR 2))
     (kthen (wreg 0x020 (driver_features (rd 0x010)))
     (kthen (wreg 0x070 (1 OR 2 OR 8))
     (kthen (wreg 0x070 (1 OR 2 OR 8 OR 4))
     (kthen (wreg 0x028 4096)
     (kthen (wreg 0x030 0)
     (kthen (kwhen (rd 0x034 = 0) (kpanic ''virtio disk has no queue 0''))
     (kthen (kwhen (rd 0x034 < of_nat NUM) (kpanic ''virtio disk max queue too short''))
     (kthen (wreg 0x038 (of_nat NUM))
     (kthen (dmod (\<lambda>d. d\<lparr>desc := (\<lambda>_. \<lparr>d_addr = NoAddr, d_len = 0, d_flags = 0, d_next = 0\<rparr>),
               avail_idx := 0, avail_ring := (\<lambda>_. 0), used_idx_dev := 0, used_ring := (\<lambda>_. 0)\<rparr>))
     (kthen (wreg 0x040 (ucast (drop_bit PGSHIFT pages)))
            (dmod (\<lambda>d. d\<lparr>d_free := (\<lambda>i. i < NUM \<or> d_free d i)\<rparr>))))))))))))))"

end
