(* ===== verification/Sysproc.thy ===== *)
theory Sysproc
  imports Sysfile Virtio
begin

text \<open>
  The process and device system calls (\<^verbatim>\<open>kernel/sysproc.c\<close>) and the dispatcher
  (\<^verbatim>\<open>kernel/syscall.c\<close>). A call that ends in \<open>exit\<close> never returns; it is \<open>None\<close>.
\<close>

section \<open>System calls\<close>

text \<open>Division and remainder of C, which round towards zero.\<close>

definition c_div :: "int \<Rightarrow> int \<Rightarrow> int" where
  "c_div a b = sgn a * sgn b * (\<bar>a\<bar> div \<bar>b\<bar>)"

definition c_mod :: "int \<Rightarrow> int \<Rightarrow> int" where
  "c_mod a b = a - c_div a b * b"

definition WIDTH :: int where "WIDTH = 320"
definition HEIGHT :: int where "HEIGHT = 200"

definition sys_exit :: "('a kst_scheme, uint64 option) kop" where
  "sys_exit = kbind (argint 0) (\<lambda>n. kthen (exit (sint n)) (kret None))"

definition sys_getpid :: "('a kst_scheme, uint64) kop" where
  "sys_getpid = kbind myproc (\<lambda>p. kbind (pget p p_pid) (\<lambda>pid. ret pid))"

definition sys_fork :: "('a kst_scheme, uint64) kop" where
  "sys_fork = ret_of fork"

definition sys_wait :: "('a kst_scheme, uint64) kop" where
  "sys_wait = kbind (argaddr 0) (\<lambda>p. ret_of (wait p))"

text \<open>The old size goes through an \<^verbatim>\<open>int\<close>.\<close>

definition sys_sbrk :: "('a kst_scheme, uint64) kop" where
  "sys_sbrk =
     kbind (argint 0) (\<lambda>n. kbind myproc (\<lambda>p. kbind (pget p p_sz) (\<lambda>sz.
     let addr = sint (ucast sz :: uint32) in
     kbind (growproc n) (\<lambda>r.
     if r < 0 then ret (-1) else ret addr))))"

text \<open>
  The loop of \<open>sys_sleep\<close>, with the value of \<open>ticks\<close> at the call: it compares unsigned numbers,
  and sleeps between two looks at the clock.
\<close>

definition sys_sleep_from :: "uint32 \<Rightarrow> uint32 \<Rightarrow> ('a kst_scheme, progress) kop" where
  "sys_sleep_from ticks0 n =
     kbind (kget ticks) (\<lambda>t.
     if t - ticks0 < n
     then kbind myproc (\<lambda>p. kbind (pget p p_killed) (\<lambda>k.
            kret (if k \<noteq> 0 then Done (-1) else Asleep 0)))
     else kret (Done 0))"

definition sys_sleep :: "('a kst_scheme, uint64) kop" where
  "sys_sleep =
     kbind (argint 0) (\<lambda>n. kbind (kget ticks) (\<lambda>ticks0.
     kbind (sys_sleep_from ticks0 n) (\<lambda>r.
     case r of Done v \<Rightarrow> ret v | Asleep _ \<Rightarrow> kblock ChTicks)))"

definition sys_kill :: "('a kst_scheme, uint64) kop" where
  "sys_kill = kbind (argint 0) (\<lambda>pid. ret_of (kill (sint pid)))"

definition sys_uptime :: "('a kst_scheme, uint64) kop" where
  "sys_uptime = kbind (kget ticks) (\<lambda>t. kret (ucast t))"

text \<open>The color index \<open>sys_setpixel\<close> computes; the \<^verbatim>\<open>char\<close> store keeps its low byte.\<close>

definition color_index :: "int \<Rightarrow> int \<Rightarrow> int \<Rightarrow> uchar" where
  "color_index r g b =
     (let r = r - c_mod r 64; g = c_div g 8; g = g - c_mod g 4; b = c_div b 64 in
      word_of_int (r + g + b))"

definition sys_setpixel :: "('a kst_scheme, uint64 option) kop" where
  "sys_setpixel =
     kbind (argint 0) (\<lambda>x. kbind (argint 1) (\<lambda>y.
     if sint x < 0 \<or> sint y < 0 \<or> sint x \<ge> WIDTH \<or> sint y \<ge> HEIGHT
     then kthen (printf (ascii ''setpixel error'') []) (kthen (exit 0) (kret None))
     else
       kbind (argint 2) (\<lambda>r. kbind (argint 3) (\<lambda>g. kbind (argint 4) (\<lambda>b.
       kthen (mstore (FRAMEBUFFER + word_of_int (WIDTH * sint y + sint x)) [color_index (sint r) (sint g) (sint b)])
             (kret (Some 0)))))))"

definition k_getmsg :: "('a kst_scheme, uint64) kop" where
  "k_getmsg =
     kbind (kget dev_msgs) (\<lambda>q.
     let (c, q') = sys_getmsg q in
     kthen (kmod (\<lambda>s. s\<lparr>dev_msgs := q'\<rparr>)) (kret c))"

definition k_listenmsgs :: "('a kst_scheme, uint64) kop" where
  "k_listenmsgs =
     kbind (argint 0) (\<lambda>n. kbind (kget dev_msgs) (\<lambda>q.
     let (c, q') = sys_listenmsgs (sint n) q in
     kthen (kmod (\<lambda>s. s\<lparr>dev_msgs := q'\<rparr>)) (kret c)))"

section \<open>The dispatcher\<close>

definition SYS_fork :: int where "SYS_fork = 1"
definition SYS_exit :: int where "SYS_exit = 2"
definition SYS_wait :: int where "SYS_wait = 3"
definition SYS_pipe :: int where "SYS_pipe = 4"
definition SYS_read :: int where "SYS_read = 5"
definition SYS_kill :: int where "SYS_kill = 6"
definition SYS_exec :: int where "SYS_exec = 7"
definition SYS_fstat :: int where "SYS_fstat = 8"
definition SYS_chdir :: int where "SYS_chdir = 9"
definition SYS_dup :: int where "SYS_dup = 10"
definition SYS_getpid :: int where "SYS_getpid = 11"
definition SYS_sbrk :: int where "SYS_sbrk = 12"
definition SYS_sleep :: int where "SYS_sleep = 13"
definition SYS_uptime :: int where "SYS_uptime = 14"
definition SYS_open :: int where "SYS_open = 15"
definition SYS_write :: int where "SYS_write = 16"
definition SYS_mknod :: int where "SYS_mknod = 17"
definition SYS_unlink :: int where "SYS_unlink = 18"
definition SYS_link :: int where "SYS_link = 19"
definition SYS_mkdir :: int where "SYS_mkdir = 20"
definition SYS_close :: int where "SYS_close = 21"
definition SYS_setpixel :: int where "SYS_setpixel = 22"
definition SYS_getmsg :: int where "SYS_getmsg = 23"
definition SYS_listenmsgs :: int where "SYS_listenmsgs = 24"

definition returns :: "('s, uint64) kop \<Rightarrow> ('s, uint64 option) kop" where
  "returns f = kbind f (\<lambda>v. kret (Some v))"

definition syscalls :: "int \<Rightarrow> ('a kst_scheme, uint64 option) kop option" where
  "syscalls num = map_of
     [(SYS_fork, returns sys_fork),
      (SYS_exit, sys_exit),
      (SYS_wait, returns sys_wait),
      (SYS_pipe, returns sys_pipe),
      (SYS_read, returns sys_read),
      (SYS_kill, returns sys_kill),
      (SYS_exec, returns sys_exec),
      (SYS_fstat, returns sys_fstat),
      (SYS_chdir, returns sys_chdir),
      (SYS_dup, returns sys_dup),
      (SYS_getpid, returns sys_getpid),
      (SYS_sbrk, returns sys_sbrk),
      (SYS_sleep, returns sys_sleep),
      (SYS_uptime, returns sys_uptime),
      (SYS_open, returns sys_open),
      (SYS_write, returns sys_write),
      (SYS_mknod, returns sys_mknod),
      (SYS_unlink, returns sys_unlink),
      (SYS_link, returns sys_link),
      (SYS_mkdir, returns sys_mkdir),
      (SYS_close, returns sys_close),
      (SYS_setpixel, sys_setpixel),
      (SYS_getmsg, returns k_getmsg),
      (SYS_listenmsgs, returns k_listenmsgs)] num"

text \<open>\<open>syscall\<close> returns whether the process goes on.\<close>

definition syscall :: "('a kst_scheme, bool) kop" where
  "syscall =
     kbind myproc (\<lambda>p. kbind (tf_get p TF_a7) (\<lambda>a7.
     let num = sint (ucast a7 :: uint32) in
     case syscalls num of
       Some f \<Rightarrow>
         kbind f (\<lambda>v.
         case v of
           Some v \<Rightarrow> kthen (tf_set p TF_a0 v) (kret True)
         | None \<Rightarrow> kret False)
     | None \<Rightarrow>
         kbind (pget p (\<lambda>q. q)) (\<lambda>q.
         kthen (printf (ascii ''%d %s: unknown sys call %d'' @ [10])
                  [Num (word_of_int (p_pid q)), Str (Some (takeWhile (\<lambda>c. c \<noteq> 0) (p_name q))), Num (word_of_int num)])
         (kthen (tf_set p TF_a0 (- 1))
                (kret True)))))"

end
