(* ===== verification/Vga.thy ===== *)
theory Vga
  imports Sysproc
begin

text \<open>
  The display (\<^verbatim>\<open>kernel/vga.c\<close>, \<^verbatim>\<open>kernel/pci.c\<close>): programming the 320x200 mode with 256 colors and
  its palette. A driver of write-only ports is modelled by the sequence of its writes; the one
  port that is read gives an argument of the model. \<open>dac\<close> is what the palette unit of a VGA makes
  of the writes to its two ports.
\<close>

section \<open>The mode\<close>

definition g_320x200x256 :: "uchar list" where
  "g_320x200x256 =
    [0x63,
     0x03, 0x01, 0x0F, 0x00, 0x0E,
     0x5F, 0x4F, 0x50, 0x82, 0x54, 0x80, 0xBF, 0x1F,
     0x00, 0x41, 0x00, 0x00, 0x00, 0x00, 0x00, 0x00,
     0x9C, 0x0E, 0x8F, 0x28, 0x40, 0x96, 0xB9, 0xA3,
     0xFF,
     0x00, 0x00, 0x00, 0x00, 0x00, 0x40, 0x05, 0x0F,
     0xFF,
     0x00, 0x01, 0x02, 0x03, 0x04, 0x05, 0x06, 0x07,
     0x08, 0x09, 0x0A, 0x0B, 0x0C, 0x0D, 0x0E, 0x0F,
     0x41, 0x00, 0x0F, 0x00, 0x00]"

definition VGA_NUM_SEQ_REGS :: nat where "VGA_NUM_SEQ_REGS = 5"
definition VGA_NUM_CRTC_REGS :: nat where "VGA_NUM_CRTC_REGS = 25"
definition VGA_NUM_GC_REGS :: nat where "VGA_NUM_GC_REGS = 9"
definition VGA_NUM_AC_REGS :: nat where "VGA_NUM_AC_REGS = 21"

text \<open>The writes of an indexed group of registers: the index, then the value.\<close>

definition indexed :: "nat \<Rightarrow> nat \<Rightarrow> uchar list \<Rightarrow> (nat \<times> uchar) list" where
  "indexed ix dt regs = concat (map (\<lambda>i. [(ix, of_nat i), (dt, regs ! i)]) [0..<length regs])"

text \<open>\<open>rd i\<close> is the value of CRTC register \<open>i\<close> when it is read.\<close>

definition write_regs :: "(nat \<Rightarrow> uchar) \<Rightarrow> uchar list \<Rightarrow> (nat \<times> uchar) list" where
  "write_regs rd regs =
     (let seqr = take VGA_NUM_SEQ_REGS (drop 1 regs);
          rest = drop (1 + VGA_NUM_SEQ_REGS) regs;
          rest = rest[0x03 := rest ! 0x03 OR 0x80];
          rest = rest[0x11 := rest ! 0x11 AND NOT 0x80];
          crtc = take VGA_NUM_CRTC_REGS rest;
          gc = take VGA_NUM_GC_REGS (drop VGA_NUM_CRTC_REGS rest);
          ac = take VGA_NUM_AC_REGS (drop (VGA_NUM_CRTC_REGS + VGA_NUM_GC_REGS) rest) in
      [(0x3C2, hd regs)] @ indexed 0x3C4 0x3C5 seqr @
      [(0x3D4, 0x03), (0x3D5, rd 0x03 OR 0x80), (0x3D4, 0x11), (0x3D5, rd 0x11 AND NOT 0x80)] @
      indexed 0x3D4 0x3D5 crtc @ indexed 0x3CE 0x3CF gc @ indexed 0x3C0 0x3C0 ac @
      [(0x3C0, 0x20)])"

text \<open>The colors in the order of the three loops, with six bits for a component.\<close>

definition palette_writes :: "(nat \<times> uchar) list" where
  "palette_writes = concat (map (\<lambda>r. concat (map (\<lambda>g. concat (map (\<lambda>b.
     [(0x3c9, of_nat (8 * r)), (0x3c9, of_nat (8 * g)), (0x3c9, of_nat (16 * b))])
     [0..<4])) [0..<8])) [0..<8])"

definition vgainit :: "(nat \<Rightarrow> uchar) \<Rightarrow> (nat \<times> uchar) list" where
  "vgainit rd = write_regs rd g_320x200x256 @ [(0x3c8, 0)] @ palette_writes"

text \<open>
  \<open>pciinit\<close>: the writes to the configuration space of the devices on bus 0, as word offsets from
  \<open>ecam\<close>, and to the VGA ports when the display is found. \<open>cfg\<close> is what the space reads.
\<close>

datatype io = Cfg nat uint32 | Vga nat uchar

definition pci_dev :: "(nat \<Rightarrow> uint32) \<Rightarrow> (nat \<Rightarrow> uchar) \<Rightarrow> nat \<Rightarrow> io list" where
  "pci_dev cfg rd dev =
     (let base = dev * 2 ^ 11 in
      if cfg base = 0x11111234
      then [Cfg (base + 1) 7] @
        concat (map (\<lambda>i. [Cfg (base + 4 + i) 0xffffffff, Cfg (base + 4 + i) (cfg (base + 4 + i))]) [0..<6]) @
        [Cfg (base + 4) (ucast FRAMEBUFFER)] @ map (\<lambda>(p, v). Vga p v) (vgainit rd)
      else [])"

definition pciinit :: "(nat \<Rightarrow> uint32) \<Rightarrow> (nat \<Rightarrow> uchar) \<Rightarrow> io list" where
  "pciinit cfg rd = concat (map (pci_dev cfg rd) [0..<32])"

section \<open>The palette\<close>

text \<open>
  The palette unit: port 3C8 selects an entry, and every third byte written to port 3C9
  completes it and goes to the next.
\<close>

fun dac :: "(nat \<Rightarrow> uchar list) \<Rightarrow> nat \<Rightarrow> uchar list \<Rightarrow> (nat \<times> uchar) list \<Rightarrow> nat \<Rightarrow> uchar list" where
  "dac pal i part [] = pal"
| "dac pal i part ((p, v) # ws) =
     (if p = 0x3c8 then dac pal (unat v) [] ws
      else if p = 0x3c9
      then if length part = 2 then dac (pal(i := part @ [v])) (Suc i mod 256) [] ws else dac pal i (part @ [v]) ws
      else dac pal i part ws)"

lemma dac_other: "list_all (\<lambda>(p, v). p \<noteq> 0x3c8 \<and> p \<noteq> 0x3c9) ws \<Longrightarrow> dac pal i part (ws @ vs) = dac pal i part vs"
  by (induction ws) auto

lemma indexed_ports: "P ix \<Longrightarrow> P dt \<Longrightarrow> list_all (\<lambda>(p, v). P p) (indexed ix dt regs)"
  by (auto simp: indexed_def list_all_iff)

definition triples :: "(nat \<Rightarrow> uchar list) \<Rightarrow> nat list \<Rightarrow> (nat \<times> uchar) list" where
  "triples c is = concat (map (\<lambda>k. map (\<lambda>v. (0x3c9, v)) (c k)) is)"

lemma triples_Cons: "triples c (i # is) = map (\<lambda>v. (0x3c9, v)) (c i) @ triples c is"
  by (simp add: triples_def)

lemma dac_color: "length c = 3 \<Longrightarrow> dac pal i [] (map (\<lambda>v. (0x3c9, v)) c @ ws) = dac (pal(i := c)) (Suc i mod 256) [] ws"
  by (auto simp: length_Suc_conv numeral_3_eq_3)

lemma dac_triples:
  "(\<And>k. length (c k) = 3) \<Longrightarrow> i + m \<le> 256 \<Longrightarrow>
   dac pal i [] (triples c [i..<i + m]) k = (if i \<le> k \<and> k < i + m then c k else pal k)"
proof (induction m arbitrary: i pal)
  case 0
  then show ?case by (auto simp: triples_def)
next
  case (Suc m)
  let ?pal = "pal(i := c i)"
  have "[i..<i + Suc m] = i # [Suc i..<Suc i + m]" by (simp add: upt_rec)
  then have "dac pal i [] (triples c [i..<i + Suc m]) k = dac ?pal (Suc i mod 256) [] (triples c [Suc i..<Suc i + m]) k"
    by (simp only: triples_Cons dac_color [OF Suc.prems(1)])
  also have "\<dots> = (if Suc i \<le> k \<and> k < Suc i + m then c k else ?pal k)"
  proof (cases "m = 0")
    case True
    then show ?thesis by (auto simp: triples_def)
  next
    case False
    then have e: "Suc i mod 256 = Suc i" and l: "Suc i + m \<le> 256" using Suc.prems(2) by simp_all
    show ?thesis unfolding e by (rule Suc.IH [OF Suc.prems(1) l])
  qed
  finally show ?case by auto
qed

definition color :: "nat \<Rightarrow> uchar list" where
  "color k = [of_nat (8 * (k div 32)), of_nat (8 * (k div 4 mod 8)), of_nat (16 * (k mod 4))]"

lemma length_color: "length (color k) = 3"
  by (simp add: color_def)

text \<open>Two nested loops as one.\<close>

lemma nested_loops:
  "concat (map (\<lambda>i. concat (map (f i) [0..<n])) [0..<m]) = concat (map (\<lambda>k. f (k div n) (k mod n)) [0..<m * n])"
proof (induction m)
  case (Suc m)
  let ?g = "\<lambda>k. f (k div n) (k mod n)"
  have e: "[0..<Suc m * n] = [0..<m * n] @ map (\<lambda>j. j + m * n) [0..<n]"
    using upt_add_eq_append [of 0 "m * n" n] by (simp add: map_add_upt add.commute)
  have c: "map (?g \<circ> (\<lambda>j. j + m * n)) [0..<n] = map (f m) [0..<n]"
    by (rule map_cong) auto
  have "concat (map ?g [0..<Suc m * n]) = concat (map ?g [0..<m * n]) @ concat (map (f m) [0..<n])"
    unfolding e by (simp only: map_append concat_append map_map c)
  then show ?case by (simp only: Suc [symmetric]) simp
qed simp

lemma palette_triples: "palette_writes = triples color [0..<256]"
proof -
  let ?f = "\<lambda>r g b. [(0x3c9 :: nat, of_nat (8 * r) :: uchar), (0x3c9, of_nat (8 * g)), (0x3c9, of_nat (16 * b))]"
  have "palette_writes = concat (map (\<lambda>r. concat (map (\<lambda>k. ?f r (k div 4) (k mod 4)) [0..<8 * 4])) [0..<8])"
    unfolding palette_writes_def by (simp only: nested_loops)
  also have "\<dots> = concat (map (\<lambda>k. ?f (k div (8 * 4)) (k mod (8 * 4) div 4) (k mod (8 * 4) mod 4)) [0..<8 * (8 * 4)])"
    by (simp only: nested_loops)
  also have "\<dots> = triples color [0..<256]"
  proof -
    have e: "k mod 32 div 4 = k div 4 mod 8" for k :: nat
      using mod_mult2_eq [of k 4 8] by simp
    show ?thesis by (simp add: triples_def color_def e mod_mod_cancel)
  qed
  finally show ?thesis .
qed

lemma vgainit_palette: "k < 256 \<Longrightarrow> dac pal i [] (vgainit rd) k = color k"
proof -
  assume k: "k < 256"
  have "list_all (\<lambda>(p, v). p \<noteq> 0x3c8 \<and> p \<noteq> 0x3c9) (write_regs rd g_320x200x256)"
    by (simp add: write_regs_def Let_def indexed_ports)
  then have "dac pal i [] (vgainit rd) = dac pal 0 [] palette_writes"
    by (simp add: vgainit_def dac_other)
  then show ?thesis using k dac_triples [of color 0 256 pal k] by (simp add: palette_triples length_color)
qed

end
