(* ===== verification/Trap.thy ===== *)
theory Trap
  imports Vga
begin

text \<open>
  Traps (\<^verbatim>\<open>kernel/trap.c\<close>), the interrupt controller (\<^verbatim>\<open>kernel/plic.c\<close>) and the way the machine starts
  (\<^verbatim>\<open>kernel/start.c\<close>, \<^verbatim>\<open>kernel/main.c\<close>). The control registers are those of the executing CPU. The
  interrupt controller is the list of the interrupts it will hand out, and a record of what the
  kernel writes to it.
\<close>

section \<open>Control registers\<close>

definition SSTATUS_SPP :: uint64 where "SSTATUS_SPP = push_bit 8 1"
definition SSTATUS_SPIE :: uint64 where "SSTATUS_SPIE = push_bit 5 1"
definition SSTATUS_SIE :: uint64 where "SSTATUS_SIE = push_bit 1 1"
definition MSTATUS_MPP_MASK :: uint64 where "MSTATUS_MPP_MASK = push_bit 11 3"
definition MSTATUS_MPP_S :: uint64 where "MSTATUS_MPP_S = push_bit 11 1"
definition MSTATUS_MIE :: uint64 where "MSTATUS_MIE = push_bit 3 1"
definition SIE_SEIE :: uint64 where "SIE_SEIE = push_bit 9 1"
definition SIE_STIE :: uint64 where "SIE_STIE = push_bit 5 1"
definition SIE_SSIE :: uint64 where "SIE_SSIE = push_bit 1 1"
definition MIE_MTIE :: uint64 where "MIE_MTIE = push_bit 7 1"

record csr =
  r_sstatus :: uint64
  r_sepc :: uint64
  r_scause :: uint64
  r_stval :: uint64
  r_stvec :: uint64
  r_sip :: uint64

record trapst = vdst +
  csrs :: csr
  irqs :: "uint32 list"
  plic_out :: "(uint64 \<times> uint32) list"
  virtio_isr :: uint32

abbreviation rget :: "(csr \<Rightarrow> 'b) \<Rightarrow> ('a trapst_scheme, 'b) kop" where
  "rget f \<equiv> kget (\<lambda>s. f (csrs s))"

abbreviation rmod :: "(csr \<Rightarrow> csr) \<Rightarrow> ('a trapst_scheme, unit) kop" where
  "rmod f \<equiv> kmod (\<lambda>s. s\<lparr>csrs := f (csrs s)\<rparr>)"

definition csr_intr_on :: "('a trapst_scheme, unit) kop" where
  "csr_intr_on = rmod (\<lambda>c. c\<lparr>r_sstatus := r_sstatus c OR SSTATUS_SIE\<rparr>)"

definition csr_intr_off :: "('a trapst_scheme, unit) kop" where
  "csr_intr_off = rmod (\<lambda>c. c\<lparr>r_sstatus := r_sstatus c AND NOT SSTATUS_SIE\<rparr>)"

definition csr_intr_get :: "('a trapst_scheme, bool) kop" where
  "csr_intr_get = rget (\<lambda>c. r_sstatus c AND SSTATUS_SIE \<noteq> 0)"

section \<open>The interrupt controller\<close>

definition UART0_IRQ :: uint32 where "UART0_IRQ = 10"
definition VIRTIO0_IRQ :: uint32 where "VIRTIO0_IRQ = 1"

definition PLIC_SENABLE :: "uint64 \<Rightarrow> uint64" where "PLIC_SENABLE h = PLIC + 0x2080 + h * 0x100"
definition PLIC_SPRIORITY :: "uint64 \<Rightarrow> uint64" where "PLIC_SPRIORITY h = PLIC + 0x201000 + h * 0x2000"
definition PLIC_SCLAIM :: "uint64 \<Rightarrow> uint64" where "PLIC_SCLAIM h = PLIC + 0x201004 + h * 0x2000"

definition wplic :: "uint64 \<Rightarrow> uint32 \<Rightarrow> ('a trapst_scheme, unit) kop" where
  "wplic a v = kmod (\<lambda>s. s\<lparr>plic_out := plic_out s @ [(a, v)]\<rparr>)"

definition plicinit :: "('a trapst_scheme, unit) kop" where
  "plicinit =
     kthen (wplic (PLIC + ucast (UART0_IRQ * 4)) 1)
           (wplic (PLIC + ucast (VIRTIO0_IRQ * 4)) 1)"

definition plicinithart :: "('a trapst_scheme, unit) kop" where
  "plicinithart =
     kbind cpuid (\<lambda>h.
     kthen (wplic (PLIC_SENABLE (of_nat h)) (push_bit (unat UART0_IRQ) 1 OR push_bit (unat VIRTIO0_IRQ) 1))
           (wplic (PLIC_SPRIORITY (of_nat h)) 0))"

text \<open>Reading the claim register takes the next pending interrupt; it reads 0 if there is none.\<close>

definition plic_claim :: "('a trapst_scheme, uint32) kop" where
  "plic_claim =
     kbind (kget irqs) (\<lambda>q.
     case q of
       [] \<Rightarrow> kret 0
     | irq # rest \<Rightarrow> kthen (kmod (\<lambda>s. s\<lparr>irqs := rest\<rparr>)) (kret irq))"

definition plic_complete :: "uint32 \<Rightarrow> ('a trapst_scheme, unit) kop" where
  "plic_complete irq = kbind cpuid (\<lambda>h. wplic (PLIC_SCLAIM (of_nat h)) irq)"

section \<open>Interrupts\<close>

definition clockintr :: "('a trapst_scheme, unit) kop" where
  "clockintr = kthen (kmod (\<lambda>s. s\<lparr>ticks := ticks s + 1\<rparr>)) (wakeup ChTicks)"

definition devintr :: "('a trapst_scheme, nat) kop" where
  "devintr =
     kbind (rget r_scause) (\<lambda>scause.
     if scause AND 0x8000000000000000 \<noteq> 0 \<and> scause AND 0xff = 9
     then kbind plic_claim (\<lambda>irq.
       kthen (if irq = UART0_IRQ then uartintr
              else if irq = VIRTIO0_IRQ then kbind (kget virtio_isr) virtio_disk_intr
              else if irq = 6969 then kret ()
              else kwhen (irq \<noteq> 0)
                (printf (ascii ''unexpected interrupt irq=%d'' @ [10]) [Num (ucast irq)]))
       (kthen (kwhen (irq \<noteq> 0) (plic_complete irq))
              (kret 1)))
     else if scause = 0x8000000000000001
     then kbind cpuid (\<lambda>c.
       kthen (kwhen (c = 0) clockintr)
       (kthen (rmod (\<lambda>c. c\<lparr>r_sip := r_sip c AND NOT 2\<rparr>))
              (kret 2)))
     else kret 0)"

section \<open>Traps from user space\<close>

text \<open>
  How a trap ends: back in user space, with the value of \<^verbatim>\<open>satp\<close> that \<^verbatim>\<open>userret\<close> installs; with the
  process gone; or with the CPU given up, to go on with \<open>usertrapret\<close> when it is scheduled.
\<close>

datatype trap_end = To_user uint64 | Gone | Yielded

definition usertrapret :: "('a trapst_scheme, trap_end) kop" where
  "usertrapret =
     kbind myproc (\<lambda>p.
     kthen csr_intr_off
     (kbind (kget syms) (\<lambda>y.
      kthen (rmod (\<lambda>c. c\<lparr>r_stvec := TRAMPOLINE + (sym_uservec y - sym_trampoline y)\<rparr>))
      (kbind (kget satp) (\<lambda>satp.
       kthen (tf_set p TF_kernel_satp satp)
       (kbind (pget p p_kstack) (\<lambda>ks.
        kthen (tf_set p TF_kernel_sp (ks + PGSIZE))
        (kthen (tf_set p TF_kernel_trap (sym_usertrap y))
        (kbind cpuid (\<lambda>h.
         kthen (tf_set p TF_kernel_hartid (of_nat h))
         (kthen (rmod (\<lambda>c. c\<lparr>r_sstatus := (r_sstatus c AND NOT SSTATUS_SPP) OR SSTATUS_SPIE\<rparr>))
         (kbind (tf_get p TF_epc) (\<lambda>epc.
          kthen (rmod (\<lambda>c. c\<lparr>r_sepc := epc\<rparr>))
          (kbind (pget p p_pagetable) (\<lambda>pt.
           kret (To_user (MAKE_SATP pt)))))))))))))))))"

definition usertrap :: "('a trapst_scheme, trap_end) kop" where
  "usertrap =
     kbind (rget (\<lambda>c. c)) (\<lambda>c.
     kthen (kwhen (r_sstatus c AND SSTATUS_SPP \<noteq> 0) (kpanic ''usertrap: not from user mode''))
     (kbind (kget syms) (\<lambda>y.
      kthen (rmod (\<lambda>c. c\<lparr>r_stvec := sym_kernelvec y\<rparr>))
      (kbind myproc (\<lambda>p.
       kthen (tf_set p TF_epc (r_sepc c))
       (kbind
         (if r_scause c = 8
          then kbind (pget p p_killed) (\<lambda>k.
            if k \<noteq> 0 then kthen (exit (-1)) (kret None)
            else kbind (tf_get p TF_epc) (\<lambda>epc.
              kthen (tf_set p TF_epc (epc + 4))
              (kthen csr_intr_on
              (kbind syscall (\<lambda>goes_on. kret (if goes_on then Some 0 else None))))))
          else kbind devintr (\<lambda>which.
            if which \<noteq> 0 then kret (Some which)
            else
              kbind (pget p p_pid) (\<lambda>pid.
              kthen (printf (ascii ''usertrap(): unexpected scause %p pid=%d'' @ [10]) [Num (r_scause c), Num (word_of_int pid)])
              (kthen (printf (ascii ''            sepc=%p stval=%p'' @ [10]) [Num (r_sepc c), Num (r_stval c)])
              (kthen (pmod p (\<lambda>q. q\<lparr>p_killed := 1\<rparr>))
                     (kret (Some 0)))))))
         (\<lambda>r.
          case r of
            None \<Rightarrow> kret Gone
          | Some which_dev \<Rightarrow>
              kbind (pget p p_killed) (\<lambda>k.
              if k \<noteq> 0 then kthen (exit (-1)) (kret Gone)
              else if which_dev = 2 then kthen yield (kret Yielded)
              else usertrapret))))))))"

definition forkret :: "('a trapst_scheme, trap_end) kop" where
  "forkret = kthen forkret_init usertrapret"

section \<open>Traps from the kernel\<close>

text \<open>
  \<open>kerneltrap\<close> returns whether it gave up the CPU; \<open>kerneltrap_return\<close> is what it does before it
  returns to the interrupted code.
\<close>

definition kerneltrap_return :: "uint64 \<Rightarrow> uint64 \<Rightarrow> ('a trapst_scheme, unit) kop" where
  "kerneltrap_return sepc sstatus = rmod (\<lambda>c. c\<lparr>r_sepc := sepc, r_sstatus := sstatus\<rparr>)"

definition kerneltrap :: "('a trapst_scheme, bool) kop" where
  "kerneltrap =
     kbind (rget (\<lambda>c. c)) (\<lambda>c.
     kthen (kwhen (r_sstatus c AND SSTATUS_SPP = 0) (kpanic ''kerneltrap: not from supervisor mode''))
     (kbind csr_intr_get (\<lambda>on.
      kthen (kwhen on (kpanic ''kerneltrap: interrupts enabled''))
      (kbind devintr (\<lambda>which_dev.
       kthen (kwhen (which_dev = 0)
         (kthen (printf (ascii ''scause %p'' @ [10]) [Num (r_scause c)])
         (kthen (printf (ascii ''sepc=%p stval=%p'' @ [10]) [Num (r_sepc c), Num (r_stval c)])
                (panic (ascii ''kerneltrap'') ''kerneltrap''))))
       (kbind cpuid (\<lambda>h. kbind (kget (\<lambda>s. cpu_proc s h)) (\<lambda>cp.
        kbind (case cp of None \<Rightarrow> kret False | Some p \<Rightarrow> pget p (\<lambda>q. p_state q = RUNNING)) (\<lambda>running.
        if which_dev = 2 \<and> running then kthen yield (kret True)
        else kthen (kerneltrap_return (r_sepc c) (r_sstatus c)) (kret False))))))))))"

definition trapinithart :: "('a trapst_scheme, unit) kop" where
  "trapinithart = kbind (kget syms) (\<lambda>y. rmod (\<lambda>c. c\<lparr>r_stvec := sym_kernelvec y\<rparr>))"

section \<open>Starting the machine\<close>

text \<open>
  What \<open>start\<close> leaves in the machine-mode registers of a CPU, and \<open>timerinit\<close> in the timer's
  registers and its scratch area. \<open>mtime\<close> is the clock when it is read.
\<close>

definition CLINT :: uint64 where "CLINT = 0x2000000"
definition CLINT_MTIMECMP :: "uint64 \<Rightarrow> uint64" where "CLINT_MTIMECMP h = CLINT + 0x4000 + 8 * h"

record mregs =
  m_mstatus :: uint64
  m_mepc :: uint64
  m_satp :: uint64
  m_medeleg :: uint64
  m_mideleg :: uint64
  m_sie :: uint64
  m_pmpaddr0 :: uint64
  m_pmpcfg0 :: uint64
  m_mscratch :: uint64
  m_mtvec :: uint64
  m_mie :: uint64
  m_tp :: uint64
  m_mtimecmp :: uint64
  m_scratch :: "uint64 list"

definition timerinit :: "uint64 \<Rightarrow> uint64 \<Rightarrow> uint64 \<Rightarrow> uint64 \<Rightarrow> mregs \<Rightarrow> mregs" where
  "timerinit hartid mtime scratch timervec m =
     (let interval = 1000000;
          m = m\<lparr>m_mtimecmp := mtime + interval\<rparr>;
          m = m\<lparr>m_scratch := (m_scratch m)[3 := CLINT_MTIMECMP hartid]\<rparr>;
          m = m\<lparr>m_scratch := (m_scratch m)[4 := interval]\<rparr>;
          m = m\<lparr>m_mscratch := scratch\<rparr>;
          m = m\<lparr>m_mtvec := timervec\<rparr>;
          m = m\<lparr>m_mstatus := m_mstatus m OR MSTATUS_MIE\<rparr>
      in m\<lparr>m_mie := m_mie m OR MIE_MTIE\<rparr>)"

definition start :: "uint64 \<Rightarrow> uint64 \<Rightarrow> uint64 \<Rightarrow> uint64 \<Rightarrow> uint64 \<Rightarrow> mregs \<Rightarrow> mregs" where
  "start hartid kmain mtime scratch timervec m =
     (let m = m\<lparr>m_mstatus := (m_mstatus m AND NOT MSTATUS_MPP_MASK) OR MSTATUS_MPP_S\<rparr>;
          m = m\<lparr>m_mepc := kmain\<rparr>;
          m = m\<lparr>m_satp := 0\<rparr>;
          m = m\<lparr>m_medeleg := 0xffff, m_mideleg := 0xffff\<rparr>;
          m = m\<lparr>m_sie := m_sie m OR SIE_SEIE OR SIE_STIE OR SIE_SSIE\<rparr>;
          m = m\<lparr>m_pmpaddr0 := 0x3fffffffffffff, m_pmpcfg0 := 0xf\<rparr>;
          m = timerinit hartid mtime scratch timervec m
      in m\<lparr>m_tp := hartid\<rparr>)"

text \<open>
  \<open>main\<close> on the first CPU, up to the scheduler. The display's writes do not touch the state
  and are given by \<open>pciinit\<close>.
\<close>

definition main0 :: "uint64 \<Rightarrow> (nat \<Rightarrow> uint32) \<Rightarrow> uint64 \<Rightarrow> ('a trapst_scheme, unit) kop" where
  "main0 etext vreg vpages =
     kthen consoleinit
     (kthen (printf [10] [])
     (kthen (printf (ascii ''xv6 kernel is booting'' @ [10]) [])
     (kthen (printf [10] [])
     (kthen kinit
     (kthen (kbind (kget (\<lambda>s. sym_trampoline (syms s))) (kvminit etext))
     (kthen kvminithart
     (kthen procinit
     (kthen trapinithart
     (kthen plicinit
     (kthen plicinithart
     (kthen binit
     (kthen iinit
     (kthen (virtio_disk_init vreg vpages)
            userinit)))))))))))))"

definition main_other :: "('a trapst_scheme, unit) kop" where
  "main_other =
     kbind cpuid (\<lambda>h.
     kthen (printf (ascii ''hart %d starting'' @ [10]) [Num (of_nat h)])
     (kthen kvminithart
     (kthen trapinithart
            plicinithart)))"

end
