(* ===== verification/Page_Table.thy ===== *)
theory Page_Table
  imports Vm
begin

text \<open>
  What the operations of \<^verbatim>\<open>kernel/vm.c\<close> do to a page table. A table is represented by the
  tree of its pages (\<open>ptab_ok\<close>), which gives an entry \<open>pte_of\<close> for every virtual page; each
  operation is specified by its effect on the entries, with the pages it takes from the
  allocator and the bytes it may change.
\<close>

section \<open>Pages and the slots of a table\<close>

lemma aligned_bound: "pg_aligned p \<Longrightarrow> unat p + 4095 < 2 ^ 64"
proof -
  assume "pg_aligned p"
  then obtain i where i: "unat p = 4096 * i" by (auto simp: pg_aligned_iff elim: dvdE)
  then have "4096 * i < 4096 * 2 ^ 52" using unsigned_less [of p, where ?'a = nat] by simp
  then have "i < 2 ^ 52" by (simp only: mult_less_cancel1)
  then show ?thesis using i by simp
qed

lemma in_page_iff: "pg_aligned p \<Longrightarrow> in_page p a \<longleftrightarrow> PGROUNDDOWN a = p"
proof
  assume p: "pg_aligned p" and a: "in_page p a"
  have "unat a = unat (p + (a - p))" by simp
  also have "\<dots> = unat p + unat (a - p)"
    using aligned_bound [OF p] a by (subst unat_plus_if') (auto simp: in_page_def)
  finally have "unat a div 4096 * 4096 = unat p"
    using p a by (auto simp: pg_aligned_iff in_page_def elim!: dvdE)
  then show "PGROUNDDOWN a = p" by (simp add: word_unat_eq_iff unat_PGROUNDDOWN)
next
  assume "PGROUNDDOWN a = p"
  then show "in_page p a" using page_offset [of a] by (auto simp: in_page_def)
qed

lemma in_page_unique: "pg_aligned p \<Longrightarrow> pg_aligned q \<Longrightarrow> in_page p a \<Longrightarrow> in_page q a \<Longrightarrow> p = q"
  by (simp add: in_page_iff)

definition slot :: "uint64 \<Rightarrow> nat \<Rightarrow> uint64" where
  "slot t i = t + 8 * of_nat i"

lemma unat_slot_off: "i < 512 \<Longrightarrow> j < 8 \<Longrightarrow> unat (8 * of_nat i + of_nat j :: uint64) = 8 * i + j"
proof -
  assume "i < 512" "j < 8"
  then have "unat (of_nat (8 * i + j) :: uint64) = 8 * i + j" by (subst unat_of_nat) simp
  then show ?thesis by simp
qed

lemma slot_in_page: "i < 512 \<Longrightarrow> j < 8 \<Longrightarrow> in_page t (slot t i + of_nat j)"
  using unat_slot_off [of i j] by (simp add: in_page_def slot_def algebra_simps)

lemma wr64_slot_frame:
  assumes "i < 512" and "\<not> in_page t b"
  shows "wr64 m (slot t i) v b = m b"
  unfolding wr64_def
proof (rule wr_le_frame, rule ccontr)
  let ?j = "unat (b - slot t i)"
  assume "\<not> 8 \<le> ?j"
  then have "in_page t (slot t i + of_nat ?j)" using assms(1) by (intro slot_in_page) auto
  then show False using assms(2) by simp
qed

lemma rd64_slot_cong:
  assumes "i < 512" and "\<And>a. in_page t a \<Longrightarrow> m' a = m a"
  shows "rd64 m' (slot t i) = rd64 m (slot t i)"
  unfolding rd64_def by (rule rd_le_cong) (simp add: assms slot_in_page)

lemma slot_diff: "i < 512 \<Longrightarrow> j < i \<Longrightarrow> unat (slot t i - slot t j) = 8 * (i - j)"
proof -
  assume i: "i < 512" "j < i"
  have "slot t i - slot t j = of_nat (8 * (i - j))" using i by (simp add: slot_def of_nat_diff)
  then show ?thesis using i by (simp only: unat_of_nat) simp
qed

lemma rd64_wr64_word:
  assumes "i < 512" and "j < 512"
  shows "rd64 (wr64 m (slot u i) v) (slot u j) = (if i = j then v else rd64 m (slot u j))"
proof -
  have *: "8 \<le> unat (slot u k - slot u l) \<and> 8 \<le> unat (slot u l - slot u k)" if "k < 512" "l < k" for k l
  proof -
    have d: "unat (slot u k - slot u l) = 8 * (k - l)" using that by (rule slot_diff)
    have "unat (slot u l - slot u k) = 2 ^ 64 - unat (slot u k - slot u l)"
      using d that unat_sub_if' [of 0 "slot u k - slot u l"] by (auto simp: unat_gt_0)
    then show ?thesis using d that by auto
  qed
  have "8 \<le> unat (slot u i - slot u j) \<and> 8 \<le> unat (slot u j - slot u i)" if "i \<noteq> j"
    using * [of i j] * [of j i] that assms by (cases "i < j") auto
  then show ?thesis using rd64_wr64_other by auto
qed

lemma rd64_wr64_slot:
  assumes "pg_aligned t" and "pg_aligned u" and "i < 512" and "j < 512"
  shows "rd64 (wr64 m (slot t i) v) (slot u j) = (if t = u \<and> i = j then v else rd64 m (slot u j))"
proof (cases "t = u")
  case True
  then show ?thesis using rd64_wr64_word assms by simp
next
  case False
  then have "rd64 (wr64 m (slot t i) v) (slot u j) = rd64 m (slot u j)"
    using assms in_page_unique [of t u] by (intro rd64_slot_cong wr64_slot_frame) auto
  with False show ?thesis by simp
qed

lemma rd64_zero_page: "i < 512 \<Longrightarrow> (\<And>a. in_page t a \<Longrightarrow> m a = 0) \<Longrightarrow> rd64 m (slot t i) = 0"
  using rd64_slot_cong [of i t "m" "\<lambda>_. 0"] by (simp add: rd64_def)

section \<open>The indices of a virtual page\<close>

text \<open>Virtual page number \<open>n\<close> and its index in the table of a level.\<close>

definition idx :: "nat \<Rightarrow> nat \<Rightarrow> nat" where
  "idx l n = n div 512 ^ l mod 512"

definition vpn :: "uint64 \<Rightarrow> nat" where
  "vpn va = unat va div 4096"

lemma idx_less [simp]: "idx l n < 512"
  by (simp add: idx_def)

lemma PX_idx: "PX l va = of_nat (idx l (vpn va))"
proof -
  have m: "(0x1FF :: uint64) = mask 9" by (simp add: mask_eq_exp_minus_1)
  have "unat (drop_bit (12 + 9 * l) va) = unat va div (4096 * 512 ^ l)"
    by (simp only: unat_drop_bit_eq) (simp add: drop_bit_eq_div power_add power_mult)
  then have "unat (PX l va) = idx l (vpn va)"
    unfolding PX_def PXMASK_def PXSHIFT_def PGSHIFT_def m
    by (simp add: idx_def vpn_def unat_mod take_bit_eq_mod div_mult2_eq flip: take_bit_eq_mask)
  then show ?thesis by (metis of_nat_unat ucast_id)
qed

lemma pte_slot: "t + 8 * PX l va = slot t (idx l (vpn va))"
  by (simp add: slot_def PX_idx)

text \<open>Pages below \<open>MAXVA\<close> are determined by their three indices.\<close>

lemma idx_inj:
  assumes "n < 2 ^ 27" and "k < 2 ^ 27" and "idx 2 n = idx 2 k" and "idx 1 n = idx 1 k" and "idx 0 n = idx 0 k"
  shows "n = k"
proof -
  have d: "x = (x div 512 div 512 mod 512) * 262144 + (x div 512 mod 512) * 512 + x mod 512" if "x < 2 ^ 27" for x :: nat
  proof -
    have "x div 512 div 512 mod 512 = x div 512 div 512" using that by simp
    then show ?thesis
      using div_mult_mod_eq [of x 512] div_mult_mod_eq [of "x div 512" 512] by linarith
  qed
  have "x div 512 ^ 2 = x div 512 div 512" for x :: nat by (simp add: div_mult2_eq [symmetric] power2_eq_square)
  then show ?thesis
    using d [OF assms(1)] d [OF assms(2)] assms(3-5) by (simp add: idx_def)
qed

section \<open>The tree of a page table\<close>

text \<open>
  \<open>tab p\<close> is the page of the table reached from the root along the indices \<open>p\<close>: \<open>tab []\<close> is
  the root, and \<open>tab [i, j]\<close> holds the leaf entries of the pages whose indices of level 2 and
  1 are \<open>i\<close> and \<open>j\<close>.
\<close>

type_synonym ptree = "nat list \<Rightarrow> uint64 option"

definition link_ok :: "uint64 \<Rightarrow> uint64 option \<Rightarrow> bool" where
  "link_ok e c \<longleftrightarrow> (case c of None \<Rightarrow> e AND PTE_V = 0 | Some u \<Rightarrow> e = PA2PTE u OR PTE_V)"

definition ptab_ok :: "uint64 \<Rightarrow> memory \<Rightarrow> uint64 \<Rightarrow> ptree \<Rightarrow> bool" where
  "ptab_ok e m root tab \<longleftrightarrow>
     0 < e \<and> tab [] = Some root \<and> inj_on tab (dom tab) \<and>
     (\<forall>p i. tab (p @ [i]) \<noteq> None \<longrightarrow> tab p \<noteq> None \<and> i < 512 \<and> length p < 2) \<and>
     (\<forall>p t. tab p = Some t \<longrightarrow> vpage e t) \<and>
     (\<forall>p t i. tab p = Some t \<longrightarrow> length p < 2 \<longrightarrow> i < 512 \<longrightarrow> link_ok (rd64 m (slot t i)) (tab (p @ [i])))"

definition path :: "nat \<Rightarrow> nat list" where
  "path n = [idx 2 n, idx 1 n]"

text \<open>The leaf entry of virtual page \<open>n\<close>; 0 if there is no table for it.\<close>

definition pte_of :: "memory \<Rightarrow> ptree \<Rightarrow> nat \<Rightarrow> uint64" where
  "pte_of m tab n = (case tab (path n) of None \<Rightarrow> 0 | Some t \<Rightarrow> rd64 m (slot t (idx 0 n)))"

lemma ptab_okD:
  assumes "ptab_ok e m root tab"
  shows "0 < e" "tab [] = Some root" "tab p = Some t \<Longrightarrow> tab q = Some t \<Longrightarrow> p = q"
    "tab (p @ [i]) = Some t \<Longrightarrow> tab p \<noteq> None" "tab p = Some t \<Longrightarrow> vpage e t"
    "tab p = Some t \<Longrightarrow> length p < 2 \<Longrightarrow> i < 512 \<Longrightarrow> link_ok (rd64 m (slot t i)) (tab (p @ [i]))"
proof -
  note ok = assms [unfolded ptab_ok_def]
  show "0 < e" "tab [] = Some root" "tab p = Some t \<Longrightarrow> vpage e t"
    "tab p = Some t \<Longrightarrow> length p < 2 \<Longrightarrow> i < 512 \<Longrightarrow> link_ok (rd64 m (slot t i)) (tab (p @ [i]))"
    using ok by simp_all
  show "tab p = Some t \<Longrightarrow> tab q = Some t \<Longrightarrow> p = q"
    using ok by (auto simp: inj_on_def dom_def)
  show "tab (p @ [i]) = Some t \<Longrightarrow> tab p \<noteq> None" using ok by (metis option.distinct(1))
qed

lemma vpageD: "vpage e p \<Longrightarrow> pg_aligned p" "vpage e p \<Longrightarrow> p < 2 ^ 56" "0 < e \<Longrightarrow> vpage e p \<Longrightarrow> p \<noteq> 0"
proof -
  show "pg_aligned p" if "vpage e p" using that by (simp add: vpage_def)
  show "p < 2 ^ 56" if "vpage e p"
  proof -
    have "p < PHYSTOP" using that by (simp add: vpage_def)
    also have "PHYSTOP < 2 ^ 56" by (simp add: PHYSTOP_def KERNBASE_def)
    finally show ?thesis .
  qed
qed (rule vpage_nonzero)

lemma link_fields:
  assumes "vpage e u"
  shows "PTE2PA (PA2PTE u OR PTE_V) = u" "(PA2PTE u OR PTE_V) AND PTE_V \<noteq> 0"
proof -
  show "PTE2PA (PA2PTE u OR PTE_V) = u" using pte_fields [of u 0] vpageD(1,2) [OF assms] by simp
  have "bit ((PA2PTE u OR PTE_V) AND PTE_V) 0" by (simp add: PTE_V_def bit_simps)
  then show "(PA2PTE u OR PTE_V) AND PTE_V \<noteq> 0" by (metis bit_0_eq bot_apply bot_bool_def)
qed

text \<open>The bytes that may differ lie in the pages \<open>P\<close>.\<close>

definition only_in :: "uint64 set \<Rightarrow> memory \<Rightarrow> memory \<Rightarrow> bool" where
  "only_in P m m' \<longleftrightarrow> (\<forall>a. (\<forall>p \<in> P. \<not> in_page p a) \<longrightarrow> m' a = m a)"

lemma only_in_refl [simp]: "only_in P m m"
  by (simp add: only_in_def)

lemma only_in_trans: "only_in P m m' \<Longrightarrow> only_in Q m' m'' \<Longrightarrow> P \<union> Q \<subseteq> R \<Longrightarrow> only_in R m m''"
  unfolding only_in_def by (metis UnCI subset_iff)

lemma only_in_mono: "only_in P m m' \<Longrightarrow> P \<subseteq> R \<Longrightarrow> only_in R m m'"
  by (auto simp: only_in_def)

lemma only_in_page:
  "only_in P m m' \<Longrightarrow> pg_aligned q \<Longrightarrow> q \<notin> P \<Longrightarrow> \<forall>p \<in> P. pg_aligned p \<Longrightarrow> in_page q a \<Longrightarrow> m' a = m a"
  unfolding only_in_def using in_page_unique by metis

text \<open>A table is unaffected by changes outside its pages.\<close>

lemma ptab_frame:
  assumes ok: "ptab_ok e m root tab" and fr: "\<And>p t a. tab p = Some t \<Longrightarrow> in_page t a \<Longrightarrow> m' a = m a"
  shows "ptab_ok e m' root tab" and "pte_of m' tab = pte_of m tab"
proof -
  have rd: "rd64 m' (slot t i) = rd64 m (slot t i)" if "tab p = Some t" "i < 512" for p t i
    using fr [OF that(1)] by (intro rd64_slot_cong that(2)) auto
  show "ptab_ok e m' root tab"
    using ok rd unfolding ptab_ok_def by (metis (no_types, lifting))
  show "pte_of m' tab = pte_of m tab"
    using rd by (auto simp: pte_of_def fun_eq_iff split: option.splits)
qed

lemma length_path: "length (path n) = 2"
  by (simp add: path_def)

text \<open>Storing a leaf entry changes that entry alone.\<close>

lemma ptab_store:
  assumes ok: "ptab_ok e m root tab" and t: "tab (path n) = Some t" and n: "n < 2 ^ 27"
  shows "ptab_ok e (wr64 m (slot t (idx 0 n)) v) root tab"
    and "k < 2 ^ 27 \<Longrightarrow> pte_of (wr64 m (slot t (idx 0 n)) v) tab k = (if k = n then v else pte_of m tab k)"
proof -
  let ?m = "wr64 m (slot t (idx 0 n)) v"
  note al = vpageD(1) [OF ptab_okD(5) [OF ok]]
  have "rd64 ?m (slot u i) = rd64 m (slot u i)" if "tab p = Some u" "length p < 2" "i < 512" for p u i
  proof -
    have "u \<noteq> t" using ptab_okD(3) [OF ok that(1), of "path n"] t that(2) by (auto simp: length_path)
    then show ?thesis using rd64_wr64_slot [OF al [OF t] al [OF that(1)]] that(3) by simp
  qed
  then show "ptab_ok e ?m root tab" using ok unfolding ptab_ok_def by (metis (no_types, lifting))
  show "pte_of ?m tab k = (if k = n then v else pte_of m tab k)" if k: "k < 2 ^ 27"
  proof (cases "tab (path k)")
    case None
    then show ?thesis using t by (auto simp: pte_of_def)
  next
    case (Some u)
    have "t = u \<and> idx 0 n = idx 0 k \<longleftrightarrow> k = n"
      using ptab_okD(3) [OF ok t, of "path k"] Some t idx_inj [OF n k] by (auto simp: path_def)
    then show ?thesis using Some t rd64_wr64_slot [OF al [OF t] al [OF Some]] by (auto simp: pte_of_def)
  qed
qed

section \<open>Page tables and the allocator\<close>

text \<open>A page table whose pages the allocator does not own, with the free pages \<open>ps\<close>.\<close>

definition vm :: "'a kmem_scheme \<Rightarrow> uint64 \<Rightarrow> ptree \<Rightarrow> uint64 list \<Rightarrow> bool" where
  "vm s root tab ps \<longleftrightarrow> free_pages s ps \<and> ptab_ok (kend s) (mem s) root tab \<and> ran tab \<inter> set ps = {}"

definition kmem_rest :: "'a kmem_scheme \<Rightarrow> 'a kmem_scheme \<Rightarrow> bool" where
  "kmem_rest s t \<longleftrightarrow> kend t = kend s \<and> kmem.more t = kmem.more s"

lemma kmem_rest_refl [simp]: "kmem_rest s s"
  by (simp add: kmem_rest_def)

lemma kmem_rest_trans: "kmem_rest s t \<Longrightarrow> kmem_rest t u \<Longrightarrow> kmem_rest s u"
  by (simp add: kmem_rest_def)

lemma kmem_rest_mem [simp]: "kmem_rest s (t\<lparr>mem := m\<rparr>) = kmem_rest s t"
  by (simp add: kmem_rest_def)

lemma chain_cong: "(\<And>q. q \<in> set qs \<Longrightarrow> rd64 m' q = rd64 m q) \<Longrightarrow> chain m' x qs = chain m x qs"
  by (induction qs arbitrary: x) auto

lemma free_pages_frame:
  assumes "free_pages s ps" and "only_in P (mem s) m'" and "P \<inter> set ps = {}" and "\<forall>p \<in> P. pg_aligned p"
  shows "free_pages (s\<lparr>mem := m'\<rparr>) ps"
proof -
  have "rd64 m' q = rd64 (mem s) q" if "q \<in> set ps" for q
  proof -
    have "pg_aligned q" using assms(1) that by (auto simp: free_pages_def list_all_iff vpage_def)
    moreover have "q \<notin> P" using assms(3) that by blast
    ultimately show ?thesis
      using rd64_slot_cong [of 0 q m' "mem s"] only_in_page [OF assms(2) _ _ assms(4)] by (simp add: slot_def)
  qed
  then show ?thesis using assms(1) chain_cong [of ps m' "mem s"] by (simp add: free_pages_def)
qed

lemma vm_aligned: "vm s root tab ps \<Longrightarrow> \<forall>p \<in> ran tab. pg_aligned p"
  unfolding vm_def ran_def by (blast dest: ptab_okD(5) vpageD(1))

lemma free_vpage: "free_pages s ps \<Longrightarrow> p \<in> set ps \<Longrightarrow> vpage (kend s) p"
  by (auto simp: free_pages_def list_all_iff)

text \<open>Hooking a fresh zeroed page into the tree leaves every entry as it was.\<close>

lemma ptab_add:
  assumes ok: "ptab_ok e m root tab" and pt: "tab p = Some pt" and l: "length p < 2" and i: "i < 512"
    and none: "tab (p @ [i]) = None" and pg: "vpage e pg" "pg \<notin> ran tab"
    and out: "\<And>a. \<not> in_page pg a \<Longrightarrow> m1 a = m a" and zero: "\<And>a. in_page pg a \<Longrightarrow> m1 a = 0"
  shows "ptab_ok e (wr64 m1 (slot pt i) (PA2PTE pg OR PTE_V)) root (tab(p @ [i] \<mapsto> pg))"
    and "pte_of (wr64 m1 (slot pt i) (PA2PTE pg OR PTE_V)) (tab(p @ [i] \<mapsto> pg)) = pte_of m tab"
proof -
  let ?m = "wr64 m1 (slot pt i) (PA2PTE pg OR PTE_V)" and ?tab = "tab(p @ [i] \<mapsto> pg)"
  note al = vpageD(1) [OF ptab_okD(5) [OF ok]] and pg_al = vpageD(1) [OF pg(1)]
  have npg: "u \<noteq> pg" if "tab q = Some u" for q u using pg(2) that by (auto simp: ran_def)
  have rd1: "rd64 m1 (slot u j) = rd64 m (slot u j)" if "tab q = Some u" "j < 512" for q u j
    using that npg [OF that(1)] out in_page_unique [OF pg_al al [OF that(1)]] by (intro rd64_slot_cong) auto
  have rd: "rd64 ?m (slot u j) = (if q = p \<and> j = i then PA2PTE pg OR PTE_V else rd64 m (slot u j))"
    if "tab q = Some u" "j < 512" for q u j
    using rd64_wr64_slot [OF al [OF pt] al [OF that(1)] i that(2)] rd1 [OF that] pt that ptab_okD(3) [OF ok pt, of q]
    by auto
  have rdpg: "rd64 ?m (slot pg j) = 0" if "j < 512" for j
    using rd64_wr64_slot [OF al [OF pt] pg_al i that] npg [OF pt] rd64_zero_page [OF that zero] by simp
  have deep: "tab ((p @ [i]) @ [j]) = None" for j
    using ok none unfolding ptab_ok_def by blast
  have "link_ok (rd64 ?m (slot u j)) (?tab (q @ [j]))" if q: "?tab q = Some u" "length q < 2" "j < 512" for q u j
  proof (cases "q = p @ [i]")
    case True
    then show ?thesis using q rdpg [OF q(3)] deep [of j] by (auto simp: link_ok_def)
  next
    case False
    then have "tab q = Some u" using q by simp
    then show ?thesis using rd [OF _ q(3)] ptab_okD(6) [OF ok _ q(2,3)] by (auto simp: link_ok_def)
  qed
  moreover have "inj_on ?tab (dom ?tab)"
  proof (rule inj_onI)
    fix x y assume "x \<in> dom ?tab" and eq: "?tab x = ?tab y"
    then obtain t where t: "?tab x = Some t" "?tab y = Some t" by (metis domD)
    show "x = y"
    proof (cases "x = p @ [i] \<or> y = p @ [i]")
      case True
      then show ?thesis using t npg by (auto split: if_splits)
    next
      case False
      then show ?thesis using t ptab_okD(3) [OF ok, of x t y] by simp
    qed
  qed
  moreover have "?tab (q @ [j]) \<noteq> None \<longrightarrow> ?tab q \<noteq> None \<and> j < 512 \<and> length q < 2" for q j
  proof (cases "q @ [j] = p @ [i]")
    case False
    then show ?thesis using ok [unfolded ptab_ok_def] by (metis fun_upd_apply option.distinct(1))
  qed (use pt l i in auto)
  moreover have "?tab q = Some t \<longrightarrow> vpage e t" for q t using ptab_okD(5) [OF ok] pg by auto
  ultimately show "ptab_ok e ?m root ?tab"
    using ptab_okD(1,2) [OF ok] unfolding ptab_ok_def by simp
  show "pte_of ?m ?tab = pte_of m tab"
  proof
    fix k
    show "pte_of ?m ?tab k = pte_of m tab k"
    proof (cases "path k = p @ [i]")
      case True
      then show ?thesis using none rdpg by (simp add: pte_of_def)
    next
      case False
      have "path k \<noteq> p" using l by (auto simp: path_def)
      then show ?thesis using False rd by (auto simp: pte_of_def split: option.splits)
    qed
  qed
qed

text \<open>
  A table grown by the pages \<open>qs\<close>, the only ones taken from the allocator, with no change
  outside its own pages.
\<close>

definition grown :: "'a kmem_scheme \<Rightarrow> ptree \<Rightarrow> 'a kmem_scheme \<Rightarrow> ptree \<Rightarrow> uint64 list \<Rightarrow> bool" where
  "grown s tab t tab' qs \<longleftrightarrow> tab \<subseteq>\<^sub>m tab' \<and> ran tab' = ran tab \<union> set qs \<and>
     only_in (ran tab') (mem s) (mem t) \<and> kmem_rest s t"

lemma grown_refl [simp]: "grown s tab s tab []"
  by (simp add: grown_def)

lemma grown_trans: "grown s tab t tab' qs \<Longrightarrow> grown t tab' u tab'' rs \<Longrightarrow> grown s tab u tab'' (qs @ rs)"
  unfolding grown_def
  by (auto intro: map_le_trans kmem_rest_trans only_in_trans)

lemma add_table:
  assumes v: "vm s root tab (pg # ps)" and pt: "tab p = Some pt" and l: "length p < 2" and i: "i < 512"
    and none: "tab (p @ [i]) = None"
  obtains u where "kalloc s = Ok (pg, u)" and "pg \<noteq> 0"
    and "vm (u\<lparr>mem := wr64 (memset pg 0 4096 (mem u)) (slot pt i) (PA2PTE pg OR PTE_V)\<rparr>) root (tab(p @ [i] \<mapsto> pg)) ps"
    and "pte_of (wr64 (memset pg 0 4096 (mem u)) (slot pt i) (PA2PTE pg OR PTE_V)) (tab(p @ [i] \<mapsto> pg)) = pte_of (mem s) tab"
    and "grown s tab (u\<lparr>mem := wr64 (memset pg 0 4096 (mem u)) (slot pt i) (PA2PTE pg OR PTE_V)\<rparr>) (tab(p @ [i] \<mapsto> pg)) [pg]"
proof -
  have fp: "free_pages s (pg # ps)" and ok: "ptab_ok (kend s) (mem s) root tab" and dj: "ran tab \<inter> set (pg # ps) = {}"
    using v by (auto simp: vm_def)
  obtain u where u: "kalloc s = Ok (pg, u)" "free_pages u ps" "\<And>a. mem u a = (if in_page pg a then 5 else mem s a)"
      "kend u = kend s" "kmem.more u = kmem.more s"
    using kalloc_some [OF fp] by blast
  have vpg: "vpage (kend s) pg" using free_vpage [OF fp] by simp
  have d: "pg \<notin> set ps" using fp by (simp add: free_pages_def)
  let ?m1 = "memset pg 0 4096 (mem u)"
  have out: "?m1 a = mem s a" if "\<not> in_page pg a" for a using that u(3) by (simp add: memset_page)
  have zero: "?m1 a = 0" if "in_page pg a" for a using that by (simp add: memset_page_in)
  note add = ptab_add [OF ok pt l i none vpg _ out zero]
  let ?m = "wr64 ?m1 (slot pt i) (PA2PTE pg OR PTE_V)" and ?tab = "tab(p @ [i] \<mapsto> pg)"
  have oi: "only_in {pt, pg} (mem s) ?m" "only_in {pt, pg} (mem u) ?m"
    using i out u(3) by (auto simp: only_in_def wr64_slot_frame memset_page)
  have al: "\<forall>p \<in> {pt, pg}. pg_aligned p" using vpageD(1) ptab_okD(5) [OF ok pt] vpg by blast
  have pt_ps: "pt \<notin> set (pg # ps)" using dj pt by (auto simp: ran_def)
  have "free_pages (u\<lparr>mem := ?m\<rparr>) ps"
    using free_pages_frame [OF u(2) oi(2) _ al] d pt_ps by simp
  moreover have rn: "ran ?tab = ran tab \<union> {pg}" using none by (auto simp: ran_map_upd)
  ultimately have "vm (u\<lparr>mem := ?m\<rparr>) root ?tab ps"
    using add(1) dj u(4) d by (auto simp: vm_def)
  moreover have "grown s tab (u\<lparr>mem := ?m\<rparr>) ?tab [pg]"
    using oi(1) rn u(4,5) none pt unfolding grown_def
    by (auto simp: kmem_rest_def map_le_def ran_def elim!: only_in_mono)
  ultimately show ?thesis
    using that [OF u(1)] add(2) dj vpageD(3) [OF _ vpg] ptab_okD(1) [OF ok] by auto
qed

text \<open>\<open>walk\<close> without allocation is a lookup.\<close>

lemma walk_from_step:
  assumes "ptab_ok e m root tab" and "tab p = Some pt" and "length p < 2"
  shows "case tab (p @ [idx l (vpn va)]) of
      None \<Rightarrow> rd64 m (pt + 8 * PX l va) AND PTE_V = 0
    | Some u \<Rightarrow> rd64 m (pt + 8 * PX l va) AND PTE_V \<noteq> 0 \<and> PTE2PA (rd64 m (pt + 8 * PX l va)) = u"
proof (cases "tab (p @ [idx l (vpn va)])")
  case None
  then show ?thesis using ptab_okD(6) [OF assms, of "idx l (vpn va)"] by (simp add: link_ok_def pte_slot)
next
  case (Some u)
  then show ?thesis
    using ptab_okD(6) [OF assms, of "idx l (vpn va)"] link_fields [OF ptab_okD(5) [OF assms(1) Some]]
    by (simp add: link_ok_def pte_slot)
qed

lemma walk_lookup:
  assumes "ptab_ok (kend s) (mem s) root tab" and "va < MAXVA"
  shows "walk root va False s = Ok (case tab (path (vpn va)) of None \<Rightarrow> 0 | Some t \<Rightarrow> slot t (idx 0 (vpn va)), s)"
proof -
  let ?m = "mem s" and ?i = "idx 2 (vpn va)" and ?j = "idx 1 (vpn va)"
  have root: "tab [] = Some root" using ptab_okD(2) [OF assms(1)] .
  note st2 = walk_from_step [OF assms(1) root, of 2 va]
  show ?thesis
  proof (cases "tab [?i]")
    case None
    moreover have "tab ([?i] @ [?j]) = None" using ptab_okD(4) [OF assms(1), of "[?i]" ?j] None by (cases "tab ([?i] @ [?j])") auto
    ultimately show ?thesis
      using st2 assms(2) by (simp add: walk_def krun ld64_def path_def not_le numeral_2_eq_2 Let_def)
  next
    case (Some t)
    then show ?thesis
      using st2 walk_from_step [OF assms(1) Some, of 1 va] assms(2)
      by (auto simp: walk_def krun ld64_def path_def not_le numeral_2_eq_2 pte_slot Let_def split: option.splits)
  qed
qed

text \<open>One level of \<open>walk\<close> with allocation.\<close>

lemma walk_level:
  assumes v: "vm s root tab ps" and pt: "tab p = Some pt" and l: "length p < 2"
    and down: "\<And>t tab' qs ps' u. vm t root tab' ps' \<Longrightarrow> ps = qs @ ps' \<Longrightarrow> grown s tab t tab' qs \<Longrightarrow>
      pte_of (mem t) tab' = pte_of (mem s) tab \<Longrightarrow> tab' (p @ [idx (Suc level) (vpn va)]) = Some u \<Longrightarrow>
      wp (walk_from level u va True) Q t"
    and full: "ps = [] \<Longrightarrow> tab (p @ [idx (Suc level) (vpn va)]) = None \<Longrightarrow> Q 0 s"
  shows "wp (walk_from (Suc level) pt va True) Q s"
proof -
  let ?i = "idx (Suc level) (vpn va)" and ?pte = "pt + 8 * PX (Suc level) va"
  have ok: "ptab_ok (kend s) (mem s) root tab" using v by (simp add: vm_def)
  note step = walk_from_step [OF ok pt l, of "Suc level" va]
  show ?thesis
  proof (cases "tab (p @ [?i])")
    case (Some u)
    then show ?thesis
      using step down [OF v, of "[]" u] by (simp add: ld64_def Let_def wp_simps)
  next
    case None
    show ?thesis
    proof (cases ps)
      case Nil
      then have "kalloc s = Ok (0, s)" using v kalloc_none by (auto simp: vm_def)
      then show ?thesis
        using None Nil step full by (simp add: ld64_def Let_def wp_simps wp_def [of kalloc])
    next
      case (Cons pg rest)
      let ?t = "\<lambda>u. u\<lparr>mem := wr64 (memset pg 0 4096 (mem u)) ?pte (PA2PTE pg OR PTE_V)\<rparr>"
      obtain u where u: "kalloc s = Ok (pg, u)" "pg \<noteq> 0" "vm (?t u) root (tab(p @ [?i] \<mapsto> pg)) rest"
          "pte_of (mem (?t u)) (tab(p @ [?i] \<mapsto> pg)) = pte_of (mem s) tab"
          "grown s tab (?t u) (tab(p @ [?i] \<mapsto> pg)) [pg]"
        using add_table [of s root tab pg rest p pt ?i] v Cons pt l None by (auto simp: pte_slot)
      then have "wp (walk_from level pg va True) Q (?t u)"
        using down [OF u(3), of "[pg]" pg] Cons by simp
      then show ?thesis
        using None step u(1,2) by (simp add: ld64_def mset_def st64_def Let_def wp_simps wp_def [of kalloc])
    qed
  qed
qed

text \<open>
  \<open>walk\<close> with allocation: the entry exists afterwards and no entry has changed, or the
  allocator is empty.
\<close>

definition walked :: "'a kmem_scheme \<Rightarrow> uint64 \<Rightarrow> ptree \<Rightarrow> uint64 list \<Rightarrow> nat \<Rightarrow> uint64 \<Rightarrow> 'a kmem_scheme \<Rightarrow> bool" where
  "walked s root tab ps n r t \<longleftrightarrow> (\<exists>tab' qs ps'. vm t root tab' ps' \<and> ps = qs @ ps' \<and> grown s tab t tab' qs \<and>
     pte_of (mem t) tab' = pte_of (mem s) tab \<and>
     (case tab' (path n) of None \<Rightarrow> r = 0 \<and> ps' = [] | Some u \<Rightarrow> r = slot u (idx 0 n) \<and> r \<noteq> 0))"

lemma slot_nonzero: "0 < e \<Longrightarrow> vpage e t \<Longrightarrow> i < 512 \<Longrightarrow> slot t i \<noteq> 0"
proof
  assume t: "0 < e" "vpage e t" "i < 512" "slot t i = 0"
  have "unat (8 * of_nat i :: uint64) = 8 * i" using unat_slot_off [OF t(3), of 0] by simp
  then have "unat (slot t i) = unat t + 8 * i"
    using aligned_bound [OF vpageD(1) [OF t(2)]] t(3) by (simp add: slot_def unat_plus_if')
  then show False using t(4) vpageD(3) [OF t(1,2)] by (simp add: unat_eq_0)
qed

lemma walk_alloc:
  assumes v: "vm s root tab ps" and va: "va < MAXVA"
  shows "wp (walk root va True) (walked s root tab ps (vpn va)) s"
proof -
  let ?n = "vpn va"
  have root: "tab [] = Some root" using v ptab_okD(2) by (auto simp: vm_def)
  have "wp (walk_from (Suc 1) root va True) (walked s root tab ps ?n) s"
  proof (rule walk_level [OF v root])
    fix t tab1 qs1 ps1 u1
    assume 1: "vm t root tab1 ps1" "ps = qs1 @ ps1" "grown s tab t tab1 qs1"
      "pte_of (mem t) tab1 = pte_of (mem s) tab" "tab1 ([] @ [idx (Suc 1) ?n]) = Some u1"
    show "wp (walk_from 1 u1 va True) (walked s root tab ps ?n) t"
      unfolding One_nat_def
    proof (rule walk_level [OF 1(1,5)])
      fix t2 tab2 qs2 ps2 u2
      assume 2: "vm t2 root tab2 ps2" "ps1 = qs2 @ ps2" "grown t tab1 t2 tab2 qs2"
        "pte_of (mem t2) tab2 = pte_of (mem t) tab1" "tab2 (([] @ [idx (Suc 1) ?n]) @ [idx (Suc 0) ?n]) = Some u2"
      have p: "tab2 (path ?n) = Some u2" using 2(5) by (simp add: path_def numeral_2_eq_2)
      have "vpage (kend t2) u2" "0 < kend t2" using 2(1) p ptab_okD(1,5) by (auto simp: vm_def)
      then have "slot u2 (idx 0 ?n) \<noteq> 0" by (intro slot_nonzero) auto
      then show "wp (walk_from 0 u2 va True) (walked s root tab ps ?n) t2"
        using 1 2 p grown_trans [OF 1(3) 2(3)] unfolding walked_def walk_from.simps wp_ret
        by (intro exI [of _ tab2] exI [of _ "qs1 @ qs2"] exI [of _ ps2]) (simp add: pte_slot)
    next
      assume "ps1 = []" "tab1 (([] @ [idx (Suc 1) ?n]) @ [idx (Suc 0) ?n]) = None"
      then show "walked s root tab ps ?n 0 t"
        using 1 unfolding walked_def
        by (intro exI [of _ tab1] exI [of _ qs1] exI [of _ "[]"]) (simp add: path_def numeral_2_eq_2)
    qed simp
  next
    assume n: "ps = []" "tab ([] @ [idx (Suc 1) ?n]) = None"
    then have "tab ([idx (Suc 1) ?n] @ [idx 1 ?n]) = None"
      using v ptab_okD(4) [of "kend s" "mem s" root tab "[idx (Suc 1) ?n]" "idx 1 ?n"]
      by (cases "tab ([idx (Suc 1) ?n] @ [idx 1 ?n])") (auto simp: vm_def)
    then show "walked s root tab ps ?n 0 s"
      using v n unfolding walked_def
      by (intro exI [of _ tab] exI [of _ "[]"]) (simp add: path_def numeral_2_eq_2)
  qed simp
  then show ?thesis using va by (simp add: walk_def wp_simps not_le numeral_2_eq_2)
qed

section \<open>Mapping\<close>

lemma vm_store:
  fixes x :: uint64
  assumes v: "vm s root tab ps" and t: "tab (path n) = Some t" and n: "n < 2 ^ 27"
  defines "s' \<equiv> s\<lparr>mem := wr64 (mem s) (slot t (idx 0 n)) x\<rparr>"
  shows "vm s' root tab ps" and "grown s tab s' tab []"
    and "k < 2 ^ 27 \<Longrightarrow> pte_of (mem s') tab k = (if k = n then x else pte_of (mem s) tab k)"
proof -
  have ok: "ptab_ok (kend s) (mem s) root tab" and fp: "free_pages s ps" and dj: "ran tab \<inter> set ps = {}"
    using v by (simp_all add: vm_def)
  have oi: "only_in {t} (mem s) (mem s')" by (simp add: only_in_def s'_def wr64_slot_frame)
  have tr: "t \<in> ran tab" using t by (rule ranI)
  have "free_pages s' ps" unfolding s'_def
    using free_pages_frame [OF fp oi] dj tr vpageD(1) [OF ptab_okD(5) [OF ok t]] by (auto simp: s'_def)
  then show "vm s' root tab ps" using ptab_store(1) [OF ok t n] dj by (simp add: vm_def s'_def)
  show "grown s tab s' tab []" using only_in_mono [OF oi] tr by (simp add: grown_def s'_def)
  show "k < 2 ^ 27 \<Longrightarrow> pte_of (mem s') tab k = (if k = n then x else pte_of (mem s) tab k)"
    using ptab_store(2) [OF ok t n] by (simp add: s'_def)
qed

lemma unat_MAXVA: "unat MAXVA = 2 ^ 38"
  by (simp add: MAXVA_def)

lemma vpn_less: "va < MAXVA \<Longrightarrow> vpn va < 2 ^ 26"
  unfolding vpn_def word_less_nat_alt unat_MAXVA by (simp add: less_mult_imp_div_less)

lemma vpn_next:
  assumes "pg_aligned a" and "a < MAXVA"
  shows "vpn (a + PGSIZE) = Suc (vpn a)" "pg_aligned (a + PGSIZE)" "unat (a + PGSIZE) = unat a + 4096"
proof -
  show u: "unat (a + PGSIZE) = unat a + 4096"
    using assms(2) unfolding word_less_nat_alt unat_MAXVA by (simp add: PGSIZE_def unat_plus_if')
  then show "vpn (a + PGSIZE) = Suc (vpn a)" "pg_aligned (a + PGSIZE)"
    using assms(1) by (simp_all add: vpn_def pg_aligned_iff)
qed

lemma vpn_less_iff: "pg_aligned a \<Longrightarrow> pg_aligned b \<Longrightarrow> vpn a < vpn b \<longleftrightarrow> a < b"
  and vpn_eq_iff: "pg_aligned a \<Longrightarrow> pg_aligned b \<Longrightarrow> vpn a = vpn b \<longleftrightarrow> a = b"
  by (auto simp: vpn_def pg_aligned_iff word_less_nat_alt word_unat_eq_iff elim!: dvdE)

text \<open>The entries after the pages from \<open>a\<close> up to \<open>j\<close> have been mapped to those from \<open>pa\<close>.\<close>

definition map_run :: "uint64 \<Rightarrow> uint64 \<Rightarrow> nat \<Rightarrow> nat \<Rightarrow> (nat \<Rightarrow> uint64) \<Rightarrow> nat \<Rightarrow> uint64" where
  "map_run pa perm a j f k =
     (if a \<le> k \<and> k < j then PA2PTE (pa + of_nat (k - a) * PGSIZE) OR perm OR PTE_V else f k)"

lemma map_run_step:
  "k < 2 ^ 27 \<Longrightarrow> a < j \<Longrightarrow> (\<And>k. k < 2 ^ 27 \<Longrightarrow> g k = (if k = a then PA2PTE pa OR perm OR PTE_V else f k)) \<Longrightarrow>
   map_run (pa + PGSIZE) perm (Suc a) j g k = map_run pa perm a j f k"
  by (cases "k = a") (auto simp: map_run_def of_nat_diff algebra_simps)

definition mapped :: "'a kmem_scheme \<Rightarrow> uint64 \<Rightarrow> ptree \<Rightarrow> uint64 list \<Rightarrow> uint64 \<Rightarrow> uint64 \<Rightarrow> nat \<Rightarrow> nat \<Rightarrow> int \<Rightarrow> 'a kmem_scheme \<Rightarrow> bool" where
  "mapped s root tab ps pa perm a b r t \<longleftrightarrow> (\<exists>tab' qs ps' j. vm t root tab' ps' \<and> ps = qs @ ps' \<and> grown s tab t tab' qs \<and>
     (r = 0 \<and> j = Suc b \<or> r = -1 \<and> ps' = [] \<and> a \<le> j \<and> j \<le> b) \<and>
     (\<forall>k < 2 ^ 27. pte_of (mem t) tab' k = map_run pa perm a j (pte_of (mem s) tab) k))"

lemma mappedI:
  assumes "vm t root tab' ps'" and "ps = qs @ ps'" and "grown s tab t tab' qs"
    and "r = 0 \<and> j = Suc b \<or> r = -1 \<and> ps' = [] \<and> a \<le> j \<and> j \<le> b"
    and "\<And>k. k < 2 ^ 27 \<Longrightarrow> pte_of (mem t) tab' k = map_run pa perm a j (pte_of (mem s) tab) k"
  shows "mapped s root tab ps pa perm a b r t"
  using assms unfolding mapped_def by blast

lemma mappages_loop_wp:
  assumes "vm s root tab ps" and "pg_aligned a" and "pg_aligned e" and "a \<le> e" and "e < MAXVA"
    and "\<And>k. vpn a \<le> k \<Longrightarrow> k \<le> vpn e \<Longrightarrow> pte_of (mem s) tab k AND PTE_V = 0"
  shows "wp (mappages_loop root a e pa perm) (mapped s root tab ps pa perm (vpn a) (vpn e)) s"
  using assms
proof (induction root a e pa perm arbitrary: s tab ps rule: mappages_loop.induct)
  case (1 root a e pa perm)
  note v = "1.prems"(1) and al = "1.prems"(2,3)
  have aM: "a < MAXVA" using "1.prems"(4,5) by simp
  then have n: "vpn a < 2 ^ 27" using vpn_less [of a] by simp
  have le: "vpn a \<le> vpn e" using "1.prems"(4) by (simp add: vpn_def word_le_nat_alt div_le_mono)
  have "wp (kbind (walk root a True) (\<lambda>pte.
        if pte = 0 then kret (-1)
        else kbind (ld64 pte) (\<lambda>x. kthen (kwhen (x AND PTE_V \<noteq> 0) (kpanic ''mappages: remap''))
          (kthen (st64 pte (PA2PTE pa OR perm OR PTE_V))
          (if a = e then kret 0 else mappages_loop root (a + PGSIZE) e (pa + PGSIZE) perm)))))
        (mapped s root tab ps pa perm (vpn a) (vpn e)) s"
    unfolding wp_bind
  proof (rule wp_mono [OF walk_alloc [OF v aM]])
    fix r t
    assume "walked s root tab ps (vpn a) r t"
    then obtain tab' qs ps' where w: "vm t root tab' ps'" "ps = qs @ ps'" "grown s tab t tab' qs"
        "pte_of (mem t) tab' = pte_of (mem s) tab"
        "case tab' (path (vpn a)) of None \<Rightarrow> r = 0 \<and> ps' = [] | Some u \<Rightarrow> r = slot u (idx 0 (vpn a)) \<and> r \<noteq> 0"
      by (auto simp: walked_def)
    show "wp (if r = 0 then kret (-1)
        else kbind (ld64 r) (\<lambda>x. kthen (kwhen (x AND PTE_V \<noteq> 0) (kpanic ''mappages: remap''))
          (kthen (st64 r (PA2PTE pa OR perm OR PTE_V))
          (if a = e then kret 0 else mappages_loop root (a + PGSIZE) e (pa + PGSIZE) perm))))
        (mapped s root tab ps pa perm (vpn a) (vpn e)) t"
    proof (cases "tab' (path (vpn a))")
      case None
      then show ?thesis
        using w(4,5) le by (auto simp: wp_simps map_run_def intro!: mappedI [OF w(1-3), of _ "vpn a"])
    next
      case (Some u)
      let ?x = "PA2PTE pa OR perm OR PTE_V" and ?pte = "slot u (idx 0 (vpn a))"
      let ?t = "t\<lparr>mem := wr64 (mem t) ?pte ?x\<rparr>"
      have r: "r = ?pte \<and> r \<noteq> 0" using w(5) unfolding Some option.case(2) .
      have clear: "rd64 (mem t) ?pte AND PTE_V = 0"
        using "1.prems"(6) [of "vpn a"] le w(4) Some by (simp add: pte_of_def fun_eq_iff) (metis option.simps(5))
      note st = vm_store [OF w(1) Some n, where x = ?x]
      have g: "grown s tab ?t tab' qs" using grown_trans [OF w(3) st(2)] by simp
      have pte: "pte_of (mem ?t) tab' k = (if k = vpn a then ?x else pte_of (mem s) tab k)" if "k < 2 ^ 27" for k
        using st(3) [OF that] w(4) by simp
      have "wp (if a = e then kret 0 else mappages_loop root (a + PGSIZE) e (pa + PGSIZE) perm)
          (mapped s root tab ps pa perm (vpn a) (vpn e)) ?t"
      proof (cases "a = e")
        case True
        then show ?thesis
          using mappedI [OF st(1) w(2) g, of 0 "Suc (vpn a)" "vpn e" "vpn a" pa perm] pte by (simp add: wp_simps map_run_def)
      next
        case False
        note nx = vpn_next [OF al(1) aM]
        have ae: "a < e" using False "1.prems"(4) by simp
        have "wp (mappages_loop root (a + PGSIZE) e (pa + PGSIZE) perm)
            (mapped ?t root tab' ps' (pa + PGSIZE) perm (vpn (a + PGSIZE)) (vpn e)) ?t"
        proof (rule "1.IH" [OF _ conjunct2 [OF r] _ st(1) nx(2) al(2)])
          show "a + PGSIZE \<le> e" using aligned_next [OF al "1.prems"(4) False] nx(3) by (simp add: word_le_nat_alt)
          show "pte_of (mem ?t) tab' k AND PTE_V = 0" if "vpn (a + PGSIZE) \<le> k" "k \<le> vpn e" for k
            using that pte [of k] "1.prems"(6) [of k] vpn_less [OF "1.prems"(5)] nx(1) by simp
        qed (use aM False "1.prems"(5) in auto)
        then show ?thesis
          unfolding if_not_P [OF False]
        proof (rule wp_mono)
          fix r' t'
          assume "mapped ?t root tab' ps' (pa + PGSIZE) perm (vpn (a + PGSIZE)) (vpn e) r' t'"
          then obtain tab2 qs2 ps2 j where 2: "vm t' root tab2 ps2" "ps' = qs2 @ ps2" "grown ?t tab' t' tab2 qs2"
              "r' = 0 \<and> j = Suc (vpn e) \<or> r' = -1 \<and> ps2 = [] \<and> Suc (vpn a) \<le> j \<and> j \<le> vpn e"
              "\<forall>k < 2 ^ 27. pte_of (mem t') tab2 k = map_run (pa + PGSIZE) perm (Suc (vpn a)) j (pte_of (mem ?t) tab') k"
            unfolding mapped_def nx(1) by blast
          have "map_run (pa + PGSIZE) perm (Suc (vpn a)) j (pte_of (mem ?t) tab') k = map_run pa perm (vpn a) j (pte_of (mem s) tab) k"
            if "k < 2 ^ 27" for k
            using 2(4) le by (intro map_run_step [OF that] pte) auto
          then show "mapped s root tab ps pa perm (vpn a) (vpn e) r' t'"
            using 2 w(2) le by (intro mappedI [OF 2(1) _ grown_trans [OF g 2(3)], of _ _ j]) auto
        qed
      qed
      then show ?thesis
        unfolding if_not_P [OF conjunct2 [OF r]] ld64_def st64_def wp_bind wp_get wp_then wp_when wp_mod
        using clear r by simp
    qed
  qed
  moreover have "\<not> MAXVA \<le> a" using aM by simp
  ultimately show ?case by (simp add: mappages_loop.simps [of root a])
qed

lemma mappages_wp:
  assumes "vm s root tab ps" and "sz \<noteq> 0" and "unat va + unat sz \<le> 2 ^ 38"
    and "\<And>k. vpn va \<le> k \<Longrightarrow> k \<le> vpn (va + sz - 1) \<Longrightarrow> pte_of (mem s) tab k AND PTE_V = 0"
  shows "wp (mappages root va sz pa perm) (mapped s root tab ps pa perm (vpn va) (vpn (va + sz - 1))) s"
proof -
  have sz: "0 < unat sz" using assms(2) by (simp add: unat_gt_0)
  have "unat (va + sz) = unat va + unat sz" using assms(3) by (simp add: unat_plus_if')
  moreover have "va + sz \<noteq> 0" using calculation sz by (auto simp: unat_eq_0)
  ultimately have u: "unat (va + sz - 1) = unat va + unat sz - 1" by (simp add: unat_minus_one)
  have down: "vpn (PGROUNDDOWN x) = vpn x" for x by (simp add: vpn_def unat_PGROUNDDOWN)
  have "wp (mappages_loop root (PGROUNDDOWN va) (PGROUNDDOWN (va + sz - 1)) pa perm)
     (mapped s root tab ps pa perm (vpn (PGROUNDDOWN va)) (vpn (PGROUNDDOWN (va + sz - 1)))) s"
  proof (rule mappages_loop_wp [OF assms(1)])
    show "PGROUNDDOWN va \<le> PGROUNDDOWN (va + sz - 1)"
      using sz by (simp add: word_le_nat_alt unat_PGROUNDDOWN u div_le_mono)
    have "unat (va + sz - 1) div 4096 * 4096 \<le> unat (va + sz - 1)" by simp
    then show "PGROUNDDOWN (va + sz - 1) < MAXVA"
      using assms(3) sz unfolding word_less_nat_alt unat_PGROUNDDOWN unat_MAXVA u by linarith
  qed (use assms(4) down in auto)
  then show ?thesis using assms(2) by (simp add: mappages_def wp_simps down)
qed

text \<open>
  A machine with an empty page table at \<open>0x80022000\<close> and the two free pages after it.
\<close>

definition vm0 :: kmem where
  "vm0 = \<lparr>mem = wr64 (\<lambda>_. 0) 0x80023000 0x80024000, freelist = 0x80023000, kend = 0x80021E40\<rparr>"

lemma page_consts: "pg_aligned 0x80022000" "pg_aligned 0x80023000" "pg_aligned 0x80024000"
  by (simp_all add: pg_aligned_def PGSIZE_def)

lemma vm0_ok: "vm vm0 0x80022000 [[] \<mapsto> 0x80022000] [0x80023000, 0x80024000]" "pte_of (mem vm0) [[] \<mapsto> 0x80022000] k = 0"
proof -
  have z: "rd64 (wr64 (\<lambda>_. 0) 0x80023000 v) (slot t i) = 0" if "pg_aligned t" "t \<noteq> 0x80023000" "i < 512" for t i v
    using rd64_wr64_slot [OF page_consts(2) that(1), of 0 i "\<lambda>_. 0" v] that(2,3) by (simp add: slot_def rd64_def)
  have n: "rd64 (wr64 (\<lambda>_. 0) 0x80023000 v) 0x80024000 = 0" for v
    using z [OF page_consts(3), of 0] by (simp add: slot_def)
  have "free_pages vm0 [0x80023000, 0x80024000]"
    by (simp add: free_pages_def vm0_def n vpage_def page_consts PHYSTOP_def KERNBASE_def)
  moreover have "ptab_ok (kend vm0) (mem vm0) 0x80022000 [[] \<mapsto> 0x80022000]"
    using z [OF page_consts(1)]
    by (auto simp: ptab_ok_def vm0_def link_ok_def vpage_def page_consts PHYSTOP_def KERNBASE_def split: if_splits)
  ultimately show "vm vm0 0x80022000 [[] \<mapsto> 0x80022000] [0x80023000, 0x80024000]"
    by (simp add: vm_def)
  show "pte_of (mem vm0) [[] \<mapsto> 0x80022000] k = 0" by (simp add: pte_of_def path_def)
qed

text \<open>
  C3: \<open>mappages\<close> on a well-formed page table and a range of unmapped pages below \<open>MAXVA\<close>
  returns. If it returns 0, exactly the pages of the range are mapped, to consecutive
  physical pages with the given permissions; if it returns -1, the allocator is empty and a
  prefix of the range is mapped. In both cases every other entry is unchanged, the table is
  well formed, and no byte outside the table's own pages is written.
\<close>

theorem mappages_correct:
  assumes "vm s root tab ps" and "sz \<noteq> 0" and "unat va + unat sz \<le> 2 ^ 38"
    and "\<forall>k. vpn va \<le> k \<and> k \<le> vpn (va + sz - 1) \<longrightarrow> pte_of (mem s) tab k AND PTE_V = 0"
  shows "\<exists>r t tab' qs ps' j. mappages root va sz pa perm s = Ok (r, t) \<and> vm t root tab' ps' \<and> ps = qs @ ps' \<and>
    grown s tab t tab' qs \<and>
    (r = 0 \<and> j = Suc (vpn (va + sz - 1)) \<or> r = -1 \<and> ps' = [] \<and> vpn va \<le> j \<and> j \<le> vpn (va + sz - 1)) \<and>
    (\<forall>k < 2 ^ 27. pte_of (mem t) tab' k =
       (if vpn va \<le> k \<and> k < j then PA2PTE (pa + of_nat (k - vpn va) * PGSIZE) OR perm OR PTE_V
        else pte_of (mem s) tab k))"
proof -
  obtain r t where "mappages root va sz pa perm s = Ok (r, t)"
      "mapped s root tab ps pa perm (vpn va) (vpn (va + sz - 1)) r t"
    using wpD [OF mappages_wp [OF assms(1-3)]] assms(4) by blast
  then show ?thesis unfolding mapped_def map_run_def by blast
qed

theorem mappages_correct_witness:
  "\<exists>r t tab'. mappages 0x80022000 0x1000 PGSIZE 0x80030000 PTE_U vm0 = Ok (r, t) \<and> pte_of (mem t) tab' 2 = 0 \<and>
     (r = -1 \<or> pte_of (mem t) tab' 1 = PA2PTE 0x80030000 OR PTE_U OR PTE_V)"
proof -
  have sz: "PGSIZE \<noteq> 0" "unat (0x1000 :: uint64) + unat PGSIZE \<le> 2 ^ 38"
    "vpn 0x1000 = 1" "vpn (0x1000 + PGSIZE - 1) = 1" by (simp_all add: PGSIZE_def vpn_def)
  have v: "\<forall>k. vpn 0x1000 \<le> k \<and> k \<le> vpn (0x1000 + PGSIZE - 1) \<longrightarrow>
      pte_of (mem vm0) [[] \<mapsto> 0x80022000] k AND PTE_V = 0" by (simp add: vm0_ok(2))
  obtain r t tab' j where r: "mappages 0x80022000 0x1000 PGSIZE 0x80030000 PTE_U vm0 = Ok (r, t)"
      "r = 0 \<and> j = Suc 1 \<or> r = -1 \<and> 1 \<le> j \<and> j \<le> 1"
      "\<forall>k < 2 ^ 27. pte_of (mem t) tab' k = (if 1 \<le> k \<and> k < j
         then PA2PTE (0x80030000 + of_nat (k - 1) * PGSIZE) OR PTE_U OR PTE_V else pte_of (mem vm0) [[] \<mapsto> 0x80022000] k)"
    using mappages_correct [OF vm0_ok(1) sz(1,2) v, of "0x80030000" PTE_U] unfolding sz(3,4) by blast
  then have "pte_of (mem t) tab' 2 = 0" "r = -1 \<or> pte_of (mem t) tab' 1 = PA2PTE 0x80030000 OR PTE_U OR PTE_V"
    using r(3) [rule_format, of 2] r(3) [rule_format, of 1] by (auto simp: vm0_ok(2))
  with r(1) show ?thesis by blast
qed

end
