(* ===== verification/Asm.thy ===== *)
theory Asm
  imports Proc Page_Table
begin

text \<open>
  The assembly code that changes contexts: \<^verbatim>\<open>kernel/trampoline.S\<close> between user space and the
  kernel, \<^verbatim>\<open>kernel/kernelvec.S\<close> around an interrupt of the kernel, \<^verbatim>\<open>kernel/swtch.S\<close> between two
  kernel threads, and the timer's machine-mode handler. The instructions are those of RV64;
  a load or store goes through the address translation that \<^verbatim>\<open>satp\<close> selects, which is an
  argument of the model.
\<close>

section \<open>Instructions\<close>

datatype reg =
    Ra | Sp | Gp | Tp | T0 | T1 | T2 | S0 | S1 | A0 | A1 | A2 | A3 | A4 | A5 | A6
  | A7 | S2 | S3 | S4 | S5 | S6 | S7 | S8 | S9 | S10 | S11 | T3 | T4 | T5 | T6

datatype creg = SSCRATCH | SATP | MSCRATCH | SIP

datatype instr =
    Sd reg nat reg | Ld reg nat reg | Addi reg reg int | Add reg reg reg | Li reg int
  | Csrrw reg creg reg | Csrr reg creg | Csrw creg reg | Sfence
  | Jr reg | Sret | Mret

datatype jump = Jump uint64 | To_sepc | To_mepc

record amach =
  xr :: "reg \<Rightarrow> uint64"
  cr :: "creg \<Rightarrow> uint64"
  am :: memory
  jmp :: "jump option"

type_synonym mmu = "uint64 \<Rightarrow> uint64 \<Rightarrow> uint64"

definition set_reg :: "reg \<Rightarrow> uint64 \<Rightarrow> amach \<Rightarrow> amach" where
  "set_reg r v m = m\<lparr>xr := (xr m)(r := v)\<rparr>"

definition addr :: "mmu \<Rightarrow> amach \<Rightarrow> nat \<Rightarrow> reg \<Rightarrow> uint64" where
  "addr tr m off b = tr (cr m SATP) (xr m b + of_nat off)"

fun step :: "mmu \<Rightarrow> instr \<Rightarrow> amach \<Rightarrow> amach" where
  "step tr (Sd r off b) m = m\<lparr>am := wr64 (am m) (addr tr m off b) (xr m r)\<rparr>"
| "step tr (Ld r off b) m = set_reg r (rd64 (am m) (addr tr m off b)) m"
| "step tr (Addi r a i) m = set_reg r (xr m a + word_of_int i) m"
| "step tr (Add r a b) m = set_reg r (xr m a + xr m b) m"
| "step tr (Li r i) m = set_reg r (word_of_int i) m"
| "step tr (Csrrw r c a) m = (set_reg r (cr m c) m)\<lparr>cr := (cr m)(c := xr m a)\<rparr>"
| "step tr (Csrr r c) m = set_reg r (cr m c) m"
| "step tr (Csrw c a) m = m\<lparr>cr := (cr m)(c := xr m a)\<rparr>"
| "step tr Sfence m = m"
| "step tr (Jr r) m = m\<lparr>jmp := Some (Jump (xr m r))\<rparr>"
| "step tr Sret m = m\<lparr>jmp := Some To_sepc\<rparr>"
| "step tr Mret m = m\<lparr>jmp := Some To_mepc\<rparr>"

definition run :: "mmu \<Rightarrow> instr list \<Rightarrow> amach \<Rightarrow> amach" where
  "run tr is = fold (step tr) is"

section \<open>The code\<close>

definition uservec :: "instr list" where
  "uservec =
    [Csrrw A0 SSCRATCH A0, Sd Ra 40 A0, Sd Sp 48 A0, Sd Gp 56 A0, Sd Tp 64 A0, Sd T0 72 A0,
     Sd T1 80 A0, Sd T2 88 A0, Sd S0 96 A0, Sd S1 104 A0, Sd A1 120 A0, Sd A2 128 A0, Sd A3 136 A0,
     Sd A4 144 A0, Sd A5 152 A0, Sd A6 160 A0, Sd A7 168 A0, Sd S2 176 A0, Sd S3 184 A0,
     Sd S4 192 A0, Sd S5 200 A0, Sd S6 208 A0, Sd S7 216 A0, Sd S8 224 A0, Sd S9 232 A0,
     Sd S10 240 A0, Sd S11 248 A0, Sd T3 256 A0, Sd T4 264 A0, Sd T5 272 A0, Sd T6 280 A0,
     Csrr T0 SSCRATCH, Sd T0 112 A0, Ld Sp 8 A0, Ld Tp 32 A0, Ld T0 16 A0, Ld T1 0 A0, Csrw SATP T1,
     Sfence, Jr T0]"

definition userret :: "instr list" where
  "userret =
    [Csrw SATP A1, Sfence, Ld T0 112 A0, Csrw SSCRATCH T0, Ld Ra 40 A0, Ld Sp 48 A0, Ld Gp 56 A0,
     Ld Tp 64 A0, Ld T0 72 A0, Ld T1 80 A0, Ld T2 88 A0, Ld S0 96 A0, Ld S1 104 A0, Ld A1 120 A0,
     Ld A2 128 A0, Ld A3 136 A0, Ld A4 144 A0, Ld A5 152 A0, Ld A6 160 A0, Ld A7 168 A0,
     Ld S2 176 A0, Ld S3 184 A0, Ld S4 192 A0, Ld S5 200 A0, Ld S6 208 A0, Ld S7 216 A0,
     Ld S8 224 A0, Ld S9 232 A0, Ld S10 240 A0, Ld S11 248 A0, Ld T3 256 A0, Ld T4 264 A0,
     Ld T5 272 A0, Ld T6 280 A0, Csrrw A0 SSCRATCH A0, Sret]"

text \<open>\<open>kernelvec\<close> before and after its call of \<^verbatim>\<open>kerneltrap\<close>.\<close>

definition kernelvec_save :: "instr list" where
  "kernelvec_save =
    [Addi Sp Sp (-256), Sd Ra 0 Sp, Sd Sp 8 Sp, Sd Gp 16 Sp, Sd Tp 24 Sp, Sd T0 32 Sp, Sd T1 40 Sp,
     Sd T2 48 Sp, Sd S0 56 Sp, Sd S1 64 Sp, Sd A0 72 Sp, Sd A1 80 Sp, Sd A2 88 Sp, Sd A3 96 Sp,
     Sd A4 104 Sp, Sd A5 112 Sp, Sd A6 120 Sp, Sd A7 128 Sp, Sd S2 136 Sp, Sd S3 144 Sp,
     Sd S4 152 Sp, Sd S5 160 Sp, Sd S6 168 Sp, Sd S7 176 Sp, Sd S8 184 Sp, Sd S9 192 Sp,
     Sd S10 200 Sp, Sd S11 208 Sp, Sd T3 216 Sp, Sd T4 224 Sp, Sd T5 232 Sp, Sd T6 240 Sp]"

definition kernelvec_restore :: "instr list" where
  "kernelvec_restore =
    [Ld Ra 0 Sp, Ld Sp 8 Sp, Ld Gp 16 Sp, Ld T0 32 Sp, Ld T1 40 Sp, Ld T2 48 Sp,
     Ld S0 56 Sp, Ld S1 64 Sp, Ld A0 72 Sp, Ld A1 80 Sp, Ld A2 88 Sp, Ld A3 96 Sp, Ld A4 104 Sp,
     Ld A5 112 Sp, Ld A6 120 Sp, Ld A7 128 Sp, Ld S2 136 Sp, Ld S3 144 Sp, Ld S4 152 Sp,
     Ld S5 160 Sp, Ld S6 168 Sp, Ld S7 176 Sp, Ld S8 184 Sp, Ld S9 192 Sp, Ld S10 200 Sp,
     Ld S11 208 Sp, Ld T3 216 Sp, Ld T4 224 Sp, Ld T5 232 Sp, Ld T6 240 Sp, Addi Sp Sp 256, Sret]"

definition timervec :: "instr list" where
  "timervec =
    [Csrrw A0 MSCRATCH A0, Sd A1 0 A0, Sd A2 8 A0, Sd A3 16 A0, Ld A1 24 A0, Ld A2 32 A0,
     Ld A3 0 A1, Add A3 A3 A2, Sd A3 0 A1, Li A1 2, Csrw SIP A1, Ld A3 16 A0, Ld A2 8 A0,
     Ld A1 0 A0, Csrrw A0 MSCRATCH A0, Mret]"

definition swtch :: "instr list" where
  "swtch =
    [Sd Ra 0 A0, Sd Sp 8 A0, Sd S0 16 A0, Sd S1 24 A0, Sd S2 32 A0, Sd S3 40 A0, Sd S4 48 A0,
     Sd S5 56 A0, Sd S6 64 A0, Sd S7 72 A0, Sd S8 80 A0, Sd S9 88 A0, Sd S10 96 A0, Sd S11 104 A0,
     Ld Ra 0 A1, Ld Sp 8 A1, Ld S0 16 A1, Ld S1 24 A1, Ld S2 32 A1, Ld S3 40 A1, Ld S4 48 A1,
     Ld S5 56 A1, Ld S6 64 A1, Ld S7 72 A1, Ld S8 80 A1, Ld S9 88 A1, Ld S10 96 A1, Ld S11 104 A1,
     Jr Ra]"

section \<open>Saving and restoring registers\<close>

lemma run_simps [simp]: "run tr [] m = m" "run tr (i # is) m = run tr is (step tr i m)"
  "run tr (is @ js) m = run tr js (run tr is m)"
  by (simp_all add: run_def)

lemma set_reg_simps [simp]:
  "xr (set_reg r v m) = (xr m)(r := v)" "cr (set_reg r v m) = cr m" "am (set_reg r v m) = am m"
  "jmp (set_reg r v m) = jmp m"
  by (simp_all add: set_reg_def)

text \<open>Registers and the words of a frame they are kept in.\<close>

definition saves :: "(reg \<times> nat) list \<Rightarrow> reg \<Rightarrow> instr list" where
  "saves L b = map (\<lambda>(r, i). Sd r (8 * i) b) L"

definition loads :: "(reg \<times> nat) list \<Rightarrow> reg \<Rightarrow> instr list" where
  "loads L b = map (\<lambda>(r, i). Ld r (8 * i) b) L"

text \<open>The frame at virtual address \<open>a\<close> is \<open>n\<close> consecutive words of physical memory at \<open>p\<close>.\<close>

definition frame_at :: "mmu \<Rightarrow> uint64 \<Rightarrow> uint64 \<Rightarrow> uint64 \<Rightarrow> nat \<Rightarrow> bool" where
  "frame_at tr sat a p n \<longleftrightarrow> n \<le> 512 \<and> (\<forall>i < n. tr sat (a + of_nat (8 * i)) = slot p i)"

lemma run_saves:
  assumes "frame_at tr (cr m SATP) (xr m b) p n" and "\<forall>(r, i) \<in> set L. i < n"
  shows "run tr (saves L b) m = m\<lparr>am := fold (\<lambda>(r, i) mm. wr64 mm (slot p i) (xr m r)) L (am m)\<rparr>"
  using assms
proof (induction L arbitrary: m)
  case (Cons ri L)
  obtain r i where ri: "ri = (r, i)" by (cases ri)
  let ?m = "m\<lparr>am := wr64 (am m) (slot p i) (xr m r)\<rparr>"
  have a: "addr tr m (8 * i) b = slot p i"
    using Cons.prems ri by (simp add: frame_at_def addr_def)
  have "run tr (saves L b) ?m = ?m\<lparr>am := fold (\<lambda>(r, i) mm. wr64 mm (slot p i) (xr ?m r)) L (am ?m)\<rparr>"
    using Cons.prems by (intro Cons.IH) auto
  then show ?case using ri a by (simp add: saves_def)
qed (simp add: saves_def)

lemma saved_word:
  assumes "distinct (map snd L)" and "\<forall>(r, i) \<in> set L. i < 512" and "j < 512"
  shows "rd64 (fold (\<lambda>(r, i) mm. wr64 mm (slot p i) (x r)) L m) (slot p j) =
     (case find (\<lambda>(r, i). i = j) L of Some (r, _) \<Rightarrow> x r | None \<Rightarrow> rd64 m (slot p j))"
  using assms
proof (induction L arbitrary: m)
  case (Cons ri L)
  obtain r i where ri: "ri = (r, i)" by (cases ri)
  have *: "i \<notin> snd ` set L" using Cons.prems(1) ri by simp
  then have "find (\<lambda>(r, k). k = i) L = None" by (force simp: find_None_iff)
  then show ?case using Cons ri by (auto simp: rd64_wr64_word split: option.split)
qed simp

lemma find_snd:
  assumes "distinct (map snd L)" and "(r, i) \<in> set L"
  shows "find (\<lambda>(q, k). k = i) L = Some (r, i)"
proof -
  obtain q k where f: "find (\<lambda>(q, k). k = i) L = Some (q, k)"
    using assms(2) by (cases "find (\<lambda>(q, k). k = i) L") (auto simp: find_None_iff)
  then have "(q, k) \<in> set L" "k = i" by (auto dest: find_SomeD)
  then show ?thesis using f assms by (fastforce simp: distinct_map inj_on_def)
qed

lemma saved_reg:
  assumes "distinct (map snd L)" and "\<forall>(r, i) \<in> set L. i < 512" and "(r, i) \<in> set L"
  shows "rd64 (fold (\<lambda>(r, i) mm. wr64 mm (slot p i) (x r)) L m) (slot p i) = x r"
  using saved_word [OF assms(1,2), of i p x m] find_snd [OF assms(1,3)] assms(2,3) by auto

lemma run_loads:
  assumes "frame_at tr (cr m SATP) (xr m b) p n" and "\<forall>(r, i) \<in> set L. i < n"
    and "b \<notin> fst ` set L"
  shows "run tr (loads L b) m = m\<lparr>xr := fold (\<lambda>(r, i) x. x(r := rd64 (am m) (slot p i))) L (xr m)\<rparr>"
  using assms
proof (induction L arbitrary: m)
  case (Cons ri L)
  obtain r i where ri: "ri = (r, i)" by (cases ri)
  let ?m = "set_reg r (rd64 (am m) (slot p i)) m"
  have a: "addr tr m (8 * i) b = slot p i"
    using Cons.prems ri by (simp add: frame_at_def addr_def)
  have "run tr (loads L b) ?m = ?m\<lparr>xr := fold (\<lambda>(r, i) x. x(r := rd64 (am ?m) (slot p i))) L (xr ?m)\<rparr>"
    using Cons.prems ri by (intro Cons.IH) auto
  then show ?case using ri a by (simp add: loads_def) (simp add: set_reg_def fun_upd_def)
qed (simp add: loads_def)

lemma loaded_reg:
  assumes "distinct (map fst L)"
  shows "fold (\<lambda>(r, i) x. x(r := v i)) L x q = (case map_of L q of Some i \<Rightarrow> v i | None \<Rightarrow> x q)"
  using assms
proof (induction L arbitrary: x)
  case (Cons ri L)
  obtain r i where ri: "ri = (r, i)" by (cases ri)
  have "map_of L r = None" using Cons.prems ri by (simp add: map_of_eq_None_iff)
  then show ?case using Cons ri by (auto split: option.split)
qed simp

section \<open>Between user space and the kernel\<close>

definition tf_regs :: "(reg \<times> nat) list" where
  "tf_regs =
    [(Ra, 5), (Sp, 6), (Gp, 7), (Tp, 8), (T0, 9), (T1, 10), (T2, 11), (S0, 12), (S1, 13), (A1, 15),
     (A2, 16), (A3, 17), (A4, 18), (A5, 19), (A6, 20), (A7, 21), (S2, 22), (S3, 23), (S4, 24),
     (S5, 25), (S6, 26), (S7, 27), (S8, 28), (S9, 29), (S10, 30), (S11, 31), (T3, 32), (T4, 33),
     (T5, 34), (T6, 35)]"

lemma uservec_form:
  "uservec = Csrrw A0 SSCRATCH A0 # saves tf_regs A0 @
     [Csrr T0 SSCRATCH, Sd T0 112 A0, Ld Sp 8 A0, Ld Tp 32 A0, Ld T0 16 A0, Ld T1 0 A0, Csrw SATP T1, Sfence, Jr T0]"
  by (simp add: uservec_def tf_regs_def saves_def)

lemma userret_form:
  "userret = [Csrw SATP A1, Sfence, Ld T0 112 A0, Csrw SSCRATCH T0] @ loads tf_regs A0 @ [Csrrw A0 SSCRATCH A0, Sret]"
  by (simp add: userret_def tf_regs_def loads_def)

lemma tf_regs_facts:
  "distinct (map fst tf_regs)" "distinct (map snd tf_regs)" "A0 \<notin> fst ` set tf_regs"
  "\<forall>(r, i) \<in> set tf_regs. i < 36" "\<forall>(r, i) \<in> set tf_regs. i < 512" "\<forall>(r, i) \<in> set tf_regs. i \<noteq> 14 \<and> 5 \<le> i"
  by (simp_all add: tf_regs_def)

lemma tf_regs_all: "r \<noteq> A0 \<Longrightarrow> \<exists>i. (r, i) \<in> set tf_regs"
  by (cases r) (simp_all add: tf_regs_def)

text \<open>The effect of \<open>uservec\<close>.\<close>

lemma frame_addr: "frame_at tr sat a p n \<Longrightarrow> i < n \<Longrightarrow> tr sat (a + of_nat (8 * i)) = slot p i"
  by (simp add: frame_at_def)

lemma uservec_run:
  assumes "frame_at tr (cr m SATP) (cr m SSCRATCH) tf 36"
  defines "mm \<equiv> wr64 (fold (\<lambda>(r, i) mm. wr64 mm (slot tf i) (xr m r)) tf_regs (am m)) (slot tf 14) (xr m A0)"
  shows "am (run tr uservec m) = mm" "xr (run tr uservec m) Sp = rd64 mm (slot tf 1)"
    "xr (run tr uservec m) Tp = rd64 mm (slot tf 4)" "jmp (run tr uservec m) = Some (Jump (rd64 mm (slot tf 2)))"
    "cr (run tr uservec m) SATP = rd64 mm (slot tf 0)"
proof -
  let ?m = "step tr (Csrrw A0 SSCRATCH A0) m"
  have fr: "frame_at tr (cr ?m SATP) (xr ?m A0) tf 36" using assms(1) by simp
  have x: "xr ?m r = xr m r" if "r \<noteq> A0" for r using that by simp
  have "fold (\<lambda>(r, i) mm. wr64 mm (slot tf i) (xr ?m r)) tf_regs (am ?m) =
      fold (\<lambda>(r, i) mm. wr64 mm (slot tf i) (xr m r)) tf_regs (am m)"
    using tf_regs_facts(3) by (intro fold_cong) (auto simp: x image_iff)
  note sv = run_saves [OF fr tf_regs_facts(4), unfolded this]
  note w = frame_addr [OF assms(1)]
  note ws = w [of 14, simplified] w [of 1, simplified] w [of 4, simplified] w [of 2, simplified] w [of 0, simplified]
  show "am (run tr uservec m) = mm" "xr (run tr uservec m) Sp = rd64 mm (slot tf 1)"
    "xr (run tr uservec m) Tp = rd64 mm (slot tf 4)" "jmp (run tr uservec m) = Some (Jump (rd64 mm (slot tf 2)))"
    "cr (run tr uservec m) SATP = rd64 mm (slot tf 0)"
    unfolding uservec_form using sv by (simp_all add: mm_def addr_def ws)
qed

text \<open>The word of the trap frame that holds a register.\<close>

definition tf_word :: "reg \<Rightarrow> nat" where
  "tf_word r = (if r = A0 then 14 else the (map_of tf_regs r))"

lemma tf_word_mem: "r \<noteq> A0 \<Longrightarrow> (r, tf_word r) \<in> set tf_regs"
  using tf_regs_all [of r] tf_regs_facts(1) by (auto simp: tf_word_def)

lemma uservec_word:
  assumes "frame_at tr (cr m SATP) (cr m SSCRATCH) tf 36"
  shows "rd64 (am (run tr uservec m)) (slot tf (tf_word r)) = xr m r"
    and "i < 5 \<Longrightarrow> rd64 (am (run tr uservec m)) (slot tf i) = rd64 (am m) (slot tf i)"
proof -
  let ?mm = "fold (\<lambda>(r, i) mm. wr64 mm (slot tf i) (xr m r)) tf_regs (am m)"
  note sw = saved_word [OF tf_regs_facts(2,5), of _ tf "xr m" "am m"]
  show "rd64 (am (run tr uservec m)) (slot tf (tf_word r)) = xr m r"
  proof (cases "r = A0")
    case True
    then show ?thesis by (simp add: uservec_run [OF assms] rd64_wr64_word tf_word_def)
  next
    case False
    then have r: "(r, tf_word r) \<in> set tf_regs" by (rule tf_word_mem)
    then have "tf_word r < 512" "tf_word r \<noteq> 14" using tf_regs_facts(5,6) by auto
    then show ?thesis using saved_reg [OF tf_regs_facts(2,5) r] by (simp add: uservec_run [OF assms] rd64_wr64_word)
  qed
  assume i: "i < 5"
  then have "find (\<lambda>(q, k). k = i) tf_regs = None" using tf_regs_facts(6) by (force simp: find_None_iff)
  then show "rd64 (am (run tr uservec m)) (slot tf i) = rd64 (am m) (slot tf i)"
    using sw i by (simp add: uservec_run [OF assms] rd64_wr64_word)
qed

lemma uservec_entry:
  assumes "frame_at tr (cr m SATP) (cr m SSCRATCH) tf 36"
  shows "xr (run tr uservec m) Sp = rd64 (am m) (slot tf 1)" "xr (run tr uservec m) Tp = rd64 (am m) (slot tf 4)"
    "cr (run tr uservec m) SATP = rd64 (am m) (slot tf 0)"
    "jmp (run tr uservec m) = Some (Jump (rd64 (am m) (slot tf 2)))"
proof -
  note w = uservec_word(2) [OF assms, unfolded uservec_run(1) [OF assms]]
  show "xr (run tr uservec m) Sp = rd64 (am m) (slot tf 1)" "xr (run tr uservec m) Tp = rd64 (am m) (slot tf 4)"
    "cr (run tr uservec m) SATP = rd64 (am m) (slot tf 0)"
    "jmp (run tr uservec m) = Some (Jump (rd64 (am m) (slot tf 2)))"
    using w [of 1] w [of 4] w [of 0] w [of 2] by (simp_all only: uservec_run(2-5) [OF assms])
qed

lemma userret_run:
  assumes "frame_at tr (xr k A1) (xr k A0) tf 36"
  shows "xr (run tr userret k) r = rd64 (am k) (slot tf (tf_word r))"
    and "cr (run tr userret k) SATP = xr k A1" and "cr (run tr userret k) SSCRATCH = xr k A0"
    and "jmp (run tr userret k) = Some To_sepc"
proof -
  let ?k = "run tr [Csrw SATP A1, Sfence, Ld T0 112 A0, Csrw SSCRATCH T0] k"
  have w: "tr (xr k A1) (xr k A0 + 112) = slot tf 14" using frame_addr [OF assms, of 14] by simp
  have fr: "frame_at tr (cr ?k SATP) (xr ?k A0) tf 36" using assms by simp
  have am: "am ?k = am k" and a0: "xr ?k A0 = xr k A0" by simp_all
  have sc: "cr ?k SSCRATCH = rd64 (am k) (slot tf 14)" by (simp add: addr_def w)
  define X where "X = fold (\<lambda>(r, i) x. x(r := rd64 (am k) (slot tf i))) tf_regs (xr ?k)"
  have e: "run tr userret k = step tr Sret (step tr (Csrrw A0 SSCRATCH A0) (?k\<lparr>xr := X\<rparr>))"
    using run_loads [OF fr tf_regs_facts(4,3), unfolded am, folded X_def]
    by (simp only: userret_form run_simps(3)) (simp only: run_simps)
  have l: "X q = (if q = A0 then xr k A0 else rd64 (am k) (slot tf (tf_word q)))" for q
  proof (cases "q = A0")
    case True
    have "map_of tf_regs A0 = None" using tf_regs_facts(3) by (simp add: map_of_eq_None_iff)
    then show ?thesis using True a0 by (simp only: X_def loaded_reg [OF tf_regs_facts(1)] option.case simp_thms if_True)
  next
    case False
    then have "map_of tf_regs q = Some (tf_word q)" using tf_word_mem tf_regs_facts(1) by (simp add: map_of_eq_Some_iff)
    then show ?thesis using False by (simp only: X_def loaded_reg [OF tf_regs_facts(1)] option.case simp_thms if_False)
  qed
  show "xr (run tr userret k) r = rd64 (am k) (slot tf (tf_word r))"
    unfolding e using sc by (cases "r = A0") (simp_all add: l tf_word_def)
  show "cr (run tr userret k) SATP = xr k A1" "cr (run tr userret k) SSCRATCH = xr k A0"
    "jmp (run tr userret k) = Some To_sepc"
    unfolding e by (simp_all add: l)
qed

text \<open>
  C31: A system call and its return restore every user register. \<^verbatim>\<open>uservec\<close> runs with the user's
  registers, page table and the trap frame's address in \<^verbatim>\<open>sscratch\<close>; it enters the kernel on the
  kernel stack, with the kernel page table and at the address that \<open>usertrapret\<close> left in the frame.
  Whatever the kernel does, if the words of the frame for the user registers are as they
  were, except the one of \<^verbatim>\<open>a0\<close>, then \<^verbatim>\<open>userret\<close> gives back all registers with the new \<^verbatim>\<open>a0\<close>.
\<close>

theorem trap_round_trip:
  assumes "frame_at tr us va tf 36"
    and "cr m SATP = us" and "cr m SSCRATCH = va"
    and "xr k A0 = va" and "xr k A1 = us"
    and "\<forall>r. r \<noteq> A0 \<longrightarrow> rd64 (am k) (slot tf (tf_word r)) = rd64 (am (run tr uservec m)) (slot tf (tf_word r))"
  shows "xr (run tr uservec m) Sp = rd64 (am m) (slot tf 1) \<and>
    xr (run tr uservec m) Tp = rd64 (am m) (slot tf 4) \<and>
    cr (run tr uservec m) SATP = rd64 (am m) (slot tf 0) \<and>
    jmp (run tr uservec m) = Some (Jump (rd64 (am m) (slot tf 2))) \<and>
    xr (run tr userret k) = (xr m)(A0 := rd64 (am k) (slot tf (tf_word A0))) \<and>
    cr (run tr userret k) SATP = us \<and> cr (run tr userret k) SSCRATCH = va \<and>
    jmp (run tr userret k) = Some To_sepc"
proof -
  have fm: "frame_at tr (cr m SATP) (cr m SSCRATCH) tf 36" and fk: "frame_at tr (xr k A1) (xr k A0) tf 36"
    using assms by simp_all
  have "xr (run tr userret k) r = ((xr m)(A0 := rd64 (am k) (slot tf (tf_word A0)))) r" for r
    using assms(6) uservec_word(1) [OF fm, of r] by (cases "r = A0") (simp_all only: userret_run(1) [OF fk] fun_upd_def simp_thms if_True if_False)
  then have "xr (run tr userret k) = (xr m)(A0 := rd64 (am k) (slot tf (tf_word A0)))" by (rule ext)
  then show ?thesis using uservec_entry [OF fm] userret_run(2-4) [OF fk] assms(4,5) by (simp only: simp_thms)
qed

definition user_mach :: amach where
  "user_mach = \<lparr>xr = (\<lambda>r. if r = S3 then 7 else 0), cr = (\<lambda>c. if c = SSCRATCH then 0x4000 else 8), am = (\<lambda>_. 0), jmp = None\<rparr>"

definition back_mach :: amach where
  "back_mach = \<lparr>xr = (\<lambda>r. if r = A0 then 0x4000 else 8), cr = (\<lambda>_. 0),
     am = wr64 (am (run (\<lambda>_ a. a) uservec user_mach)) (slot 0x4000 14) 42, jmp = None\<rparr>"

theorem trap_round_trip_witness:
  "xr (run (\<lambda>_ a. a) userret back_mach) S3 = 7 \<and> xr (run (\<lambda>_ a. a) userret back_mach) A0 = 42"
proof -
  have w: "tf_word r < 512 \<and> (r \<noteq> A0 \<longrightarrow> tf_word r \<noteq> 14)" for r
    using tf_word_mem [of r] tf_regs_facts(5,6) by (cases "r = A0") (auto simp: tf_word_def [of A0])
  have "frame_at (\<lambda>_ a. a) 8 0x4000 0x4000 36" by (simp add: frame_at_def slot_def)
  moreover have "rd64 (am back_mach) (slot 0x4000 (tf_word r)) =
      rd64 (am (run (\<lambda>_ a. a) uservec user_mach)) (slot 0x4000 (tf_word r))" if "r \<noteq> A0" for r
    using w [of r] that by (simp add: back_mach_def rd64_wr64_word)
  ultimately have "xr (run (\<lambda>_ a. a) userret back_mach) = (xr user_mach)(A0 := rd64 (am back_mach) (slot 0x4000 (tf_word A0)))"
    using trap_round_trip [of "\<lambda>_ a. a" 8 "0x4000" "0x4000" user_mach back_mach] by (simp add: user_mach_def back_mach_def)
  then show ?thesis by (simp add: user_mach_def back_mach_def rd64_wr64_word tf_word_def)
qed

section \<open>Interrupting the kernel\<close>

definition kv_regs :: "(reg \<times> nat) list" where
  "kv_regs =
    [(Ra, 0), (Sp, 1), (Gp, 2), (Tp, 3), (T0, 4), (T1, 5), (T2, 6), (S0, 7), (S1, 8), (A0, 9),
     (A1, 10), (A2, 11), (A3, 12), (A4, 13), (A5, 14), (A6, 15), (A7, 16), (S2, 17), (S3, 18),
     (S4, 19), (S5, 20), (S6, 21), (S7, 22), (S8, 23), (S9, 24), (S10, 25), (S11, 26), (T3, 27),
     (T4, 28), (T5, 29), (T6, 30)]"

definition kv_rest :: "(reg \<times> nat) list" where
  "kv_rest = filter (\<lambda>(r, i). r \<notin> {Ra, Sp, Tp}) kv_regs"

lemma kernelvec_form:
  "kernelvec_save = Addi Sp Sp (-256) # saves kv_regs Sp"
  "kernelvec_restore = Ld Ra 0 Sp # Ld Sp 8 Sp # loads kv_rest Sp @ [Addi Sp Sp 256, Sret]"
  by (simp_all add: kernelvec_save_def kernelvec_restore_def kv_regs_def kv_rest_def saves_def loads_def)

lemma kv_facts:
  "distinct (map snd kv_regs)" "\<forall>(r, i) \<in> set kv_regs. i < 31" "\<forall>(r, i) \<in> set kv_regs. i < 512"
  "distinct (map fst kv_rest)" "\<forall>(r, i) \<in> set kv_rest. i < 31" "Sp \<notin> fst ` set kv_rest"
  by (simp_all add: kv_regs_def kv_rest_def)

text \<open>
  C33: An interrupt of the kernel is transparent. \<open>kernelvec\<close> saves all registers on the kernel
  stack; if the handler returns with the stack pointer and the saved words as they were,
  then every register but \<^verbatim>\<open>tp\<close> is restored, and \<^verbatim>\<open>tp\<close> keeps the number of the CPU on which the handler
  returned, which may be another one.
\<close>

theorem kernelvec_transparent:
  assumes "frame_at tr (cr m SATP) (xr m Sp - 256) p 31"
    and "cr k SATP = cr m SATP" and "xr k Sp = xr m Sp - 256"
    and "\<forall>i < 31. rd64 (am k) (slot p i) = rd64 (am (run tr kernelvec_save m)) (slot p i)"
  shows "xr (run tr kernelvec_restore k) = (xr m)(Tp := xr k Tp) \<and> jmp (run tr kernelvec_restore k) = Some To_sepc"
proof -
  let ?m = "step tr (Addi Sp Sp (-256)) m"
  have fm: "frame_at tr (cr ?m SATP) (xr ?m Sp) p 31" using assms(1) by simp
  have am: "am (run tr kernelvec_save m) = fold (\<lambda>(r, i) mm. wr64 mm (slot p i) (xr ?m r)) kv_regs (am ?m)"
    unfolding kernelvec_form using run_saves [OF fm kv_facts(2)] by simp
  have w: "rd64 (am k) (slot p i) = xr ?m r" if "(r, i) \<in> set kv_regs" for r i
    using assms(4) that kv_facts(2) saved_reg [OF kv_facts(1,3) that, of p "xr ?m" "am ?m"] unfolding am by auto
  let ?k = "set_reg Ra (xr m Ra) k"
  have "rd64 (am k) (slot p 0) = xr m Ra" "rd64 (am k) (slot p 1) = xr m Sp - 256"
    using w [of Ra 0] w [of Sp 1] by (simp_all add: kv_regs_def)
  then have k: "step tr (Ld Sp 8 Sp) (step tr (Ld Ra 0 Sp) k) = ?k"
    using frame_addr [OF assms(1), of 0] frame_addr [OF assms(1), of 1] assms(2,3)
    by (auto simp: addr_def set_reg_def fun_eq_iff intro!: amach.equality)
  have fk: "frame_at tr (cr ?k SATP) (xr ?k Sp) p 31" using assms(1-3) by simp
  define X where "X = fold (\<lambda>(r, i) x. x(r := rd64 (am k) (slot p i))) kv_rest (xr ?k)"
  have r: "run tr kernelvec_restore k = step tr Sret (step tr (Addi Sp Sp 256) (?k\<lparr>xr := X\<rparr>))"
    using run_loads [OF fk kv_facts(5,6)] unfolding kernelvec_form X_def by (simp only: run_simps k set_reg_simps)
  have "X q = (if q = Sp then xr m Sp - 256 else if q = Tp then xr k Tp else xr m q)" for q
  proof (cases "map_of kv_rest q")
    case None
    then have "q = Ra \<or> q = Sp \<or> q = Tp" by (cases q) (simp_all add: kv_rest_def kv_regs_def)
    then show ?thesis using None assms(3) by (auto simp: X_def loaded_reg [OF kv_facts(4)])
  next
    case (Some i)
    then have "(q, i) \<in> set kv_regs" "q \<noteq> Sp" "q \<noteq> Tp" by (auto simp: kv_rest_def dest: map_of_SomeD)
    then show ?thesis using Some w [of q i] by (simp add: X_def loaded_reg [OF kv_facts(4)])
  qed
  then show ?thesis unfolding r by (auto simp: set_reg_def)
qed

definition kern_mach :: amach where
  "kern_mach = \<lparr>xr = (\<lambda>r. if r = Sp then 0x5000 else if r = S3 then 7 else if r = Tp then 1 else 0), cr = (\<lambda>_. 8), am = (\<lambda>_. 0), jmp = None\<rparr>"

definition kern_back :: amach where
  "kern_back = \<lparr>xr = (\<lambda>r. if r = Sp then 0x4F00 else if r = Tp then 2 else 99), cr = (\<lambda>_. 8),
     am = am (run (\<lambda>_ a. a) kernelvec_save kern_mach), jmp = None\<rparr>"

theorem kernelvec_transparent_witness:
  "xr (run (\<lambda>_ a. a) kernelvec_restore kern_back) S3 = 7 \<and> xr (run (\<lambda>_ a. a) kernelvec_restore kern_back) Tp = 2"
proof -
  have "frame_at (\<lambda>_ a. a) (cr kern_mach SATP) (xr kern_mach Sp - 256) 0x4F00 31"
    by (simp add: frame_at_def slot_def kern_mach_def)
  then have "xr (run (\<lambda>_ a. a) kernelvec_restore kern_back) = (xr kern_mach)(Tp := xr kern_back Tp)"
    using kernelvec_transparent [of "\<lambda>_ a. a" kern_mach "0x4F00" kern_back] by (simp add: kern_back_def) (simp add: kern_mach_def)
  then show ?thesis by (simp add: kern_mach_def) (simp add: kern_back_def)
qed

section \<open>Switching between kernel threads\<close>

definition sw_regs :: "(reg \<times> nat) list" where
  "sw_regs =
    [(Ra, 0), (Sp, 1), (S0, 2), (S1, 3), (S2, 4), (S3, 5), (S4, 6), (S5, 7), (S6, 8), (S7, 9),
     (S8, 10), (S9, 11), (S10, 12), (S11, 13)]"

lemma swtch_form: "swtch = saves sw_regs A0 @ loads sw_regs A1 @ [Jr Ra]"
  by (simp add: swtch_def sw_regs_def saves_def loads_def)

lemma sw_facts:
  "distinct (map fst sw_regs)" "distinct (map snd sw_regs)" "\<forall>(r, i) \<in> set sw_regs. i < 14"
  "\<forall>(r, i) \<in> set sw_regs. i < 512" "A1 \<notin> fst ` set sw_regs" "(Ra, 0) \<in> set sw_regs"
  by (simp_all add: sw_regs_def)

lemma am_loads [simp]: "am (run tr (loads L b) m) = am m"
  by (induction L arbitrary: m) (auto simp: loads_def)

text \<open>Two contexts whose words do not overlap.\<close>

definition separate :: "uint64 \<Rightarrow> uint64 \<Rightarrow> nat \<Rightarrow> bool" where
  "separate p q n \<longleftrightarrow> (\<forall>i < n. \<forall>j < n. 8 \<le> unat (slot q i - slot p j) \<and> 8 \<le> unat (slot p j - slot q i))"

lemma separateI:
  assumes "8 * n \<le> unat (q - p)" and "unat (q - p) + 8 * n \<le> 2 ^ 64"
  shows "separate p q n"
  unfolding separate_def
proof (intro allI impI)
  fix i j assume ij: "i < n" "j < n"
  let ?k = "unat (q - p) + 8 * i - 8 * j"
  have k: "8 \<le> ?k" "?k + 8 \<le> 2 ^ 64" using assms ij by auto
  have "slot q i - slot p j = (q - p) + of_nat (8 * i) - of_nat (8 * j)" by (simp add: slot_def algebra_simps)
  also have "\<dots> = of_nat ?k" using assms(1) ij by (simp add: of_nat_diff)
  finally have e: "slot q i - slot p j = of_nat ?k" .
  then have u: "unat (slot q i - slot p j) = ?k" using k by (simp only: unat_of_nat) simp
  have "unat (slot p j - slot q i) = 2 ^ 64 - ?k"
    using u k unat_sub_if' [of 0 "slot q i - slot p j"] by simp
  then show "8 \<le> unat (slot q i - slot p j) \<and> 8 \<le> unat (slot p j - slot q i)" using u k by simp
qed

lemma saves_separate:
  assumes "separate p q n" and "\<forall>(r, i) \<in> set L. i < n" and "j < n"
  shows "rd64 (fold (\<lambda>(r, i) mm. wr64 mm (slot q i) (x r)) L m) (slot p j) = rd64 m (slot p j)"
  using assms(2)
proof (induction L arbitrary: m)
  case (Cons ri L)
  then show ?case using assms(1,3) rd64_wr64_other by (cases ri) (auto simp: separate_def)
qed simp

text \<open>
  C32: A kernel thread that gave up its CPU goes on where it stopped. It left its registers in
  its context with \<open>swtch\<close>; when another thread, with a context of its own, later switches to
  that context, then the callee-saved registers and the stack pointer are the old ones and the
  CPU returns from the first call of \<open>swtch\<close>.
\<close>

theorem swtch_resumes:
  assumes "frame_at tr (cr m SATP) (xr m A0) p 14"
    and "frame_at tr (cr k SATP) (xr k A0) q 14" and "frame_at tr (cr k SATP) (xr k A1) p 14"
    and "separate p q 14"
    and "\<forall>i < 14. rd64 (am k) (slot p i) = rd64 (am (run tr swtch m)) (slot p i)"
  shows "(\<forall>r. r \<in> fst ` set sw_regs \<longrightarrow> xr (run tr swtch k) r = xr m r) \<and>
    jmp (run tr swtch k) = Some (Jump (xr m Ra))"
proof -
  have m: "am (run tr swtch m) = fold (\<lambda>(r, i) mm. wr64 mm (slot p i) (xr m r)) sw_regs (am m)"
    unfolding swtch_form using run_saves [OF assms(1) sw_facts(3)] by simp
  let ?mm = "fold (\<lambda>(r, i) mm. wr64 mm (slot q i) (xr k r)) sw_regs (am k)"
  let ?X = "fold (\<lambda>(r, i) x. x(r := rd64 ?mm (slot p i))) sw_regs (xr k)"
  have sv: "run tr (saves sw_regs A0) k = k\<lparr>am := ?mm\<rparr>" by (rule run_saves [OF assms(2) sw_facts(3)])
  have "frame_at tr (cr (k\<lparr>am := ?mm\<rparr>) SATP) (xr (k\<lparr>am := ?mm\<rparr>) A1) p 14" using assms(3) by simp
  from run_loads [OF this sw_facts(3,5)]
  have r: "run tr swtch k = step tr (Jr Ra) (k\<lparr>am := ?mm, xr := ?X\<rparr>)"
    unfolding swtch_form by (simp only: run_simps sv) simp
  have "?X r = xr m r" if "(r, i) \<in> set sw_regs" for r i
  proof -
    have i: "i < 14" and mo: "map_of sw_regs r = Some i" using that sw_facts(1,3) by auto
    have "?X r = rd64 (am k) (slot p i)"
      using mo saves_separate [OF assms(4) sw_facts(3) i] by (simp add: loaded_reg [OF sw_facts(1)])
    then show ?thesis using assms(5) i saved_reg [OF sw_facts(2,4) that] unfolding m by simp
  qed
  then show ?thesis using sw_facts(6) unfolding r by auto
qed

definition thread1 :: amach where
  "thread1 = \<lparr>xr = (\<lambda>r. if r = A0 then 0x1000 else if r = Ra then 0x80001234 else if r = S1 then 5 else 0), cr = (\<lambda>_. 8), am = (\<lambda>_. 0), jmp = None\<rparr>"

definition thread2 :: amach where
  "thread2 = \<lparr>xr = (\<lambda>r. if r = A0 then 0x2000 else if r = A1 then 0x1000 else 77), cr = (\<lambda>_. 8),
     am = am (run (\<lambda>_ a. a) swtch thread1), jmp = None\<rparr>"

theorem swtch_resumes_witness:
  "xr (run (\<lambda>_ a. a) swtch thread2) S1 = 5 \<and> jmp (run (\<lambda>_ a. a) swtch thread2) = Some (Jump 0x80001234)"
proof -
  have "separate 0x1000 0x2000 14" by (rule separateI) simp_all
  moreover have "frame_at (\<lambda>_ a. a) 8 a a 14" for a by (simp add: frame_at_def slot_def)
  ultimately have "xr (run (\<lambda>_ a. a) swtch thread2) S1 = xr thread1 S1"
      "jmp (run (\<lambda>_ a. a) swtch thread2) = Some (Jump (xr thread1 Ra))"
    using swtch_resumes [of "\<lambda>_ a. a" thread1 "0x1000" thread2 "0x2000"]
    by (simp_all add: thread2_def sw_regs_def) (simp_all add: thread1_def)
  then show ?thesis by (simp add: thread1_def)
qed

section \<open>The timer\<close>

text \<open>
  C34: The timer's handler leaves every register of the interrupted code as it was, schedules the
  next timer interrupt one interval after the last one, and raises a software interrupt for the
  kernel. It runs in machine mode, where addresses are physical.
\<close>

theorem timervec_transparent:
  assumes "cmp = rd64 (am m) (slot (cr m MSCRATCH) 3)"
    and "\<forall>i < 5. 8 \<le> unat (slot (cr m MSCRATCH) i - cmp) \<and> 8 \<le> unat (cmp - slot (cr m MSCRATCH) i)"
  shows "let t = run (\<lambda>_ a. a) timervec m in
    xr t = xr m \<and> cr t = (cr m)(SIP := 2) \<and>
    rd64 (am t) cmp = rd64 (am m) cmp + rd64 (am m) (slot (cr m MSCRATCH) 4) \<and> jmp t = Some To_mepc"
proof -
  define q where "q = cr m MSCRATCH"
  have W: "rd64 (wr64 mm (q + of_nat (8 * i)) v) (q + of_nat (8 * j)) = (if i = j then v else rd64 mm (q + of_nat (8 * j)))"
    if "i < 5" "j < 5" for mm v i j
    using that rd64_wr64_word [of i j mm q v] by (simp add: slot_def)
  have C: "rd64 (wr64 mm (q + of_nat (8 * i)) v) cmp = rd64 mm cmp"
    "rd64 (wr64 mm cmp v) (q + of_nat (8 * i)) = rd64 mm (q + of_nat (8 * i))" if "i < 5" for mm v i
    using assms(2) that rd64_wr64_other unfolding q_def [symmetric] by (auto simp: slot_def)
  note w = W [of 0 0, simplified] W [of 0 1, simplified] W [of 0 2, simplified] W [of 0 3, simplified] W [of 0 4, simplified]
    W [of 1 0, simplified] W [of 1 1, simplified] W [of 1 2, simplified] W [of 1 3, simplified] W [of 1 4, simplified]
    W [of 2 0, simplified] W [of 2 1, simplified] W [of 2 2, simplified] W [of 2 3, simplified] W [of 2 4, simplified]
    C(1) [of 0, simplified] C(1) [of 1, simplified] C(1) [of 2, simplified]
    C(2) [of 0, simplified] C(2) [of 1, simplified] C(2) [of 2, simplified]
  have c: "rd64 (am m) (q + 24) = cmp" by (simp add: assms(1) slot_def q_def)
  show ?thesis
    unfolding timervec_def Let_def
    by (auto simp: addr_def q_def [symmetric] w c slot_def fun_eq_iff)
qed

definition timer_mach :: amach where
  "timer_mach = \<lparr>xr = (\<lambda>r. if r = A1 then 3 else 0), cr = (\<lambda>c. if c = MSCRATCH then 0x1000 else 0),
     am = wr64 (wr64 (\<lambda>_. 0) (slot 0x1000 3) 0x2004000) (slot 0x1000 4) 1000000, jmp = None\<rparr>"

theorem timervec_transparent_witness:
  "xr (run (\<lambda>_ a. a) timervec timer_mach) A1 = 3 \<and> cr (run (\<lambda>_ a. a) timervec timer_mach) SIP = 2"
proof -
  have c: "rd64 (am timer_mach) (slot (cr timer_mach MSCRATCH) 3) = 0x2004000"
    by (simp add: timer_mach_def rd64_wr64_word)
  have "separate 0x1000 0x2004000 5" by (rule separateI) simp_all
  then have "\<forall>i < 5. 8 \<le> unat (slot 0x1000 i - 0x2004000) \<and> 8 \<le> unat (0x2004000 - slot 0x1000 i)"
    unfolding separate_def using slot_def [of "0x2004000" 0] by (auto dest: spec [of _ 0])
  then show ?thesis using timervec_transparent [OF c [symmetric]] by (simp add: Let_def) (simp add: timer_mach_def)
qed

end
