(* ===== verification/Gallery.thy ===== *)
theory Gallery
  imports Vga
begin

text \<open>
  The image viewer (\<^verbatim>\<open>user/gallery.c\<close>). Its memory is the heap from \<^verbatim>\<open>sbrk\<close>, a list of bytes in
  which a pixel is three of them, blue, green and red; an access past the end of the heap is a
  fault. The file is given by its contents. Calls of \<open>setpixel\<close> and messages are recorded in
  order; a program that exits stops with its last message.
\<close>

section \<open>State\<close>

record Pixel =
  px_b :: uchar
  px_g :: uchar
  px_r :: uchar

text \<open>\<open>g_hdr\<close> holds the two headers, \<open>g_fds\<close> the number of open descriptors.\<close>

record gal =
  g_hdr :: "uchar list"
  g_width :: int
  g_height :: int
  g_pixels :: nat
  g_pa :: nat
  g_pb :: nat
  g_a :: bool
  g_heap :: "uchar list"
  g_limit :: nat
  g_fds :: nat
  g_xpos :: int
  g_ypos :: int
  g_zoom :: int
  g_calls :: "(int \<times> int \<times> Pixel) list"
  g_said :: "string list"
  g_listen :: int

definition nl :: string where "nl = [CHR 0x0A]"

definition say :: "string \<Rightarrow> (gal, unit) kop" where
  "say t = kmod (\<lambda>s. s\<lparr>g_said := g_said s @ [t]\<rparr>)"

definition uexit :: "string \<Rightarrow> (gal, 'a) kop" where
  "uexit t = kpanic t"

definition black :: Pixel where
  "black = \<lparr>px_b = 0, px_g = 0, px_r = 0\<rparr>"

definition px_bytes :: "Pixel \<Rightarrow> uchar list" where
  "px_bytes p = [px_b p, px_g p, px_r p]"

definition px_at :: "uchar list \<Rightarrow> nat \<Rightarrow> Pixel" where
  "px_at h a = \<lparr>px_b = h ! a, px_g = h ! (a + 1), px_r = h ! (a + 2)\<rparr>"

definition load_px :: "nat \<Rightarrow> (gal, Pixel) kop" where
  "load_px a = kthen (kbind (kget g_heap) (\<lambda>h. kcheck (a + 3 \<le> length h))) (kget (\<lambda>s. px_at (g_heap s) a))"

definition store_px :: "nat \<Rightarrow> Pixel \<Rightarrow> (gal, unit) kop" where
  "store_px a p = kthen (kbind (kget g_heap) (\<lambda>h. kcheck (a + 3 \<le> length h)))
     (kmod (\<lambda>s. s\<lparr>g_heap := splice a (px_bytes p) (g_heap s)\<rparr>))"

section \<open>Reading the image\<close>

text \<open>
  \<open>g_limit\<close> is the memory the kernel has for the heap. Beyond it \<^verbatim>\<open>sbrk\<close> returns -1, which the
  source uses as an address without looking at it: a fault of the model.
\<close>

definition sbrk :: "nat \<Rightarrow> (gal, nat) kop" where
  "sbrk n = kbind (kget (\<lambda>s. length (g_heap s))) (\<lambda>old.
     kthen (kbind (kget g_limit) (\<lambda>m. kcheck (old + n \<le> m)))
     (kthen (kmod (\<lambda>s. s\<lparr>g_heap := g_heap s @ replicate n 0\<rparr>))
            (kret old)))"

text \<open>
  Reading at most \<open>n\<close> bytes of what is left of the file into the heap. At the end of the file
  a read returns fewer bytes, which is no error.
\<close>

definition read_heap :: "uchar list \<Rightarrow> nat \<Rightarrow> nat \<Rightarrow> (gal, uchar list) kop" where
  "read_heap f a n =
     kthen (kbind (kget g_heap) (\<lambda>h. kcheck (a + length (take n f) \<le> length h)))
     (kthen (kmod (\<lambda>s. s\<lparr>g_heap := splice a (take n f) (g_heap s)\<rparr>))
            (kret (drop n f)))"

text \<open>The rows are stored from the last to the first, each followed by its padding.\<close>

primrec read_rows :: "nat \<Rightarrow> nat \<Rightarrow> uchar list \<Rightarrow> (gal, unit) kop" where
  "read_rows 0 w f = kret ()"
| "read_rows (Suc y) w f =
     kbind (kget g_pixels) (\<lambda>p.
     kbind (read_heap f (p + 3 * (y * w)) (3 * w)) (\<lambda>f.
     read_rows y w (drop (w mod 4) f)))"

text \<open>
  The size of an image with negative or too large dimensions overflows an \<^verbatim>\<open>int\<close>; that is a
  fault of the model.
\<close>

definition imgread :: "uchar list option \<Rightarrow> (gal, unit) kop" where
  "imgread file =
     kbind (kget g_fds) (\<lambda>n.
     case file of
       None \<Rightarrow> uexit (''Invalid file'' @ nl)
     | Some f \<Rightarrow>
         if n \<ge> NOFILE then uexit (''Invalid file'' @ nl)
         else
           kthen (kmod (\<lambda>s. s\<lparr>g_fds := g_fds s + 1, g_hdr := splice 0 (take 54 f) (g_hdr s)\<rparr>))
           (kthen (kmod (\<lambda>s. s\<lparr>g_height := sint (get32 (g_hdr s) 22), g_width := sint (get32 (g_hdr s) 18)\<rparr>))
           (kbind (kget g_width) (\<lambda>w. kbind (kget g_height) (\<lambda>h.
            kthen (kcheck (0 \<le> w \<and> 0 \<le> h \<and> w * h * 3 < 2 ^ 31))
            (kbind (sbrk (nat (w * h * 3))) (\<lambda>pa.
             kthen (kmod (\<lambda>s. s\<lparr>g_pa := pa\<rparr>))
             (kbind (sbrk (nat (w * h * 3))) (\<lambda>pb.
              kthen (kmod (\<lambda>s. s\<lparr>g_pb := pb\<rparr>))
              (kthen (kmod (\<lambda>s. s\<lparr>g_pixels := pa\<rparr>))
                     (read_rows (nat h) (nat w) (drop 54 f))))))))))))"

section \<open>Pixels\<close>

definition outside :: "int \<Rightarrow> int \<Rightarrow> gal \<Rightarrow> bool" where
  "outside x y s \<longleftrightarrow> x < 0 \<or> x \<ge> g_width s \<or> y < 0 \<or> y \<ge> g_height s"

definition set_pixel :: "int \<Rightarrow> int \<Rightarrow> Pixel \<Rightarrow> (gal, unit) kop" where
  "set_pixel x y p =
     kbind (kget (\<lambda>s. s)) (\<lambda>s.
     if outside x y s then uexit (''set_pixel error'' @ nl)
     else store_px (g_pixels s + 3 * nat (y * g_width s + x)) p)"

definition get_pixel :: "int \<Rightarrow> int \<Rightarrow> (gal, Pixel) kop" where
  "get_pixel x y =
     kbind (kget (\<lambda>s. s)) (\<lambda>s.
     if outside x y s then kret black
     else load_px (g_pixels s + 3 * nat (y * g_width s + x)))"

section \<open>Transformations\<close>

definition swap_pixels :: "int \<Rightarrow> int \<Rightarrow> int \<Rightarrow> int \<Rightarrow> (gal, unit) kop" where
  "swap_pixels x y x' y' =
     kbind (get_pixel x y) (\<lambda>temp.
     kbind (get_pixel x' y') (\<lambda>p.
     kthen (set_pixel x y p)
           (set_pixel x' y' temp)))"

definition hflip :: "(gal, unit) kop" where
  "hflip =
     kbind (kget (\<lambda>s. (g_width s, g_height s))) (\<lambda>(w, h).
     kfor [0..<nat h] (\<lambda>y. kfor [0..<nat w div 2] (\<lambda>x.
       swap_pixels (int x) (int y) (w - int x - 1) (int y))))"

definition vflip :: "(gal, unit) kop" where
  "vflip =
     kbind (kget (\<lambda>s. (g_width s, g_height s))) (\<lambda>(w, h).
     kfor [0..<nat w] (\<lambda>x. kfor [0..<nat h div 2] (\<lambda>y.
       swap_pixels (int x) (int y) (int x) (h - int y - 1))))"

definition rrotate :: "(gal, unit) kop" where
  "rrotate =
     kbind (kget (\<lambda>s. if g_a s then g_pb s else g_pa s)) (\<lambda>new_pixels.
     kthen (kmod (\<lambda>s. s\<lparr>g_a := \<not> g_a s\<rparr>))
     (kbind (kget (\<lambda>s. (nat (g_width s), nat (g_height s)))) (\<lambda>(w, h).
      kthen (kfor [0..<w] (\<lambda>i. kfor [0..<h] (\<lambda>j.
        kbind (get_pixel (int i) (int j)) (\<lambda>p.
        store_px (new_pixels + 3 * (i * h + h - j + 1)) p))))
      (kmod (\<lambda>s. s\<lparr>g_pixels := new_pixels, g_width := g_height s, g_height := g_width s\<rparr>)))))"

definition lrotate :: "(gal, unit) kop" where
  "lrotate = kfor [0..<3] (\<lambda>_. rrotate)"

section \<open>Drawing\<close>

definition setpixel :: "int \<Rightarrow> int \<Rightarrow> Pixel \<Rightarrow> (gal, unit) kop" where
  "setpixel x y p = kmod (\<lambda>s. s\<lparr>g_calls := g_calls s @ [(x, y, p)]\<rparr>)"

definition draw :: "(gal, unit) kop" where
  "draw =
     kbind (kget (\<lambda>s. s)) (\<lambda>s.
     kthen (kcheck (g_zoom s \<noteq> 0))
     (let zoom = g_zoom s; xmax = c_div WIDTH zoom; ymax = c_div HEIGHT zoom in
      kfor [0..<nat xmax] (\<lambda>i. kfor [0..<nat ymax] (\<lambda>j.
        kbind (get_pixel (g_xpos s + int i) (g_ypos s + int j)) (\<lambda>p.
        kfor [0..<nat zoom] (\<lambda>k. kfor [0..<nat zoom] (\<lambda>l.
          setpixel (int i * zoom + int k) (int j * zoom + int l) p)))))))"

definition testcolors :: "(gal, unit) kop" where
  "testcolors =
     kfor [0..<nat WIDTH] (\<lambda>i. kfor [0..<nat HEIGHT] (\<lambda>j.
       setpixel (int i) (int j) \<lparr>px_b = word_of_int (c_mod (int i + int j * (1 - 2 * (int j mod 2))) 256),
         px_g = of_nat j, px_r = of_nat i\<rparr>))"

section \<open>Keys\<close>

definition pan :: int where "pan = 8"

text \<open>
  The zoom factor is an \<^verbatim>\<open>int\<close>: doubling it beyond the range is a fault. The cases are those of
  the \<^verbatim>\<open>switch\<close>; \<open>file\<close> is the file to read again.
\<close>

definition key :: "uchar list option \<Rightarrow> uchar \<Rightarrow> (gal, unit) kop" where
  "key file msg =
     (if msg = 0x72 then
        kthen (say (''Resetting'' @ nl))
        (kthen (kmod (\<lambda>s. s\<lparr>g_xpos := 0, g_ypos := 0, g_zoom := 1\<rparr>))
        (kthen (imgread file)
               draw))
      else if msg = 0x68 then kthen (say (''Flipping horizontally'' @ nl)) (kthen hflip draw)
      else if msg = 0x76 then kthen (say (''Flipping vertically'' @ nl)) (kthen vflip draw)
      else if msg = 0x69 then
        kthen (say (''Zooming in'' @ nl))
        (kthen (kbind (kget g_zoom) (\<lambda>z. kcheck (z * 2 < 2 ^ 31)))
        (kthen (kmod (\<lambda>s. s\<lparr>g_zoom := g_zoom s * 2\<rparr>))
               draw))
      else if msg = 0x6f then
        kbind (kget g_zoom) (\<lambda>z.
        kwhen (z > 1)
          (kthen (say (''Zooming out'' @ nl))
          (kthen (kmod (\<lambda>s. s\<lparr>g_zoom := c_div (g_zoom s) 2\<rparr>))
                 draw)))
      else if msg = 0x41 then
        kthen (say (''Panning up'' @ nl)) (kthen (kmod (\<lambda>s. s\<lparr>g_ypos := g_ypos s - pan\<rparr>)) draw)
      else if msg = 0x42 then
        kthen (say (''Panning down'' @ nl)) (kthen (kmod (\<lambda>s. s\<lparr>g_ypos := g_ypos s + pan\<rparr>)) draw)
      else if msg = 0x43 then
        kthen (say (''Panning right'' @ nl)) (kthen (kmod (\<lambda>s. s\<lparr>g_xpos := g_xpos s + pan\<rparr>)) draw)
      else if msg = 0x44 then
        kthen (say (''Panning left'' @ nl)) (kthen (kmod (\<lambda>s. s\<lparr>g_xpos := g_xpos s - pan\<rparr>)) draw)
      else if msg = 0x64 then kthen (say (''Rotating left'' @ nl)) (kthen lrotate draw)
      else if msg = 0x66 then kthen (say (''Rotating right'' @ nl)) (kthen rrotate draw)
      else kret ())"

text \<open>
  The loop on the messages as they arrive; an empty poll gives 0. It ends with the key \<^verbatim>\<open>x\<close>; a
  list that ends before leaves it waiting for more, which is \<open>False\<close>.
\<close>

primrec events :: "uchar list option \<Rightarrow> uchar list \<Rightarrow> (gal, bool) kop" where
  "events file [] = kret False"
| "events file (m # ms) =
     (if m = 0x78 then kret True
      else kthen (kwhen (m \<noteq> 0) (key file m)) (events file ms))"

definition eventloop :: "uchar list option \<Rightarrow> uchar list \<Rightarrow> (gal, bool) kop" where
  "eventloop file ms =
     kthen (kmod (\<lambda>s. s\<lparr>g_listen := 1\<rparr>))
     (kbind (events file ms) (\<lambda>done.
      kthen (kwhen done (kmod (\<lambda>s. s\<lparr>g_listen := 0\<rparr>)))
            (kret done)))"

definition help_text :: string where
  "help_text = concat (map (\<lambda>l. l @ nl)
     [[],
      [],
      ''Gallery'',
      ''     x: exit'',
      ''     r: reset view'',
      ''     h: flip horizontally'',
      ''     v: flip vertically'',
      ''     i: zoom in'',
      ''     o: zoom out'',
      ''     d: rotate left'',
      ''     f: rotate right'',
      ''     up, down, left, right arrows: pan'',
      ''     ''])"

definition gallery_main :: "nat \<Rightarrow> uchar list option \<Rightarrow> uchar list \<Rightarrow> (gal, bool) kop" where
  "gallery_main argc file ms =
     (if argc \<noteq> 2 then kthen testcolors (uexit (''Usage: gallery [filename]'' @ nl))
      else
        kthen (imgread file)
        (kthen (say help_text)
        (kthen draw
        (kbind (eventloop file ms) (\<lambda>done.
         kthen (kwhen done (kmod (\<lambda>s. s\<lparr>g_fds := g_fds s - 1\<rparr>)))
               (kret done))))))"

section \<open>The image in memory\<close>

definition img_ok :: "gal \<Rightarrow> bool" where
  "img_ok s \<longleftrightarrow> 0 \<le> g_width s \<and> 0 \<le> g_height s \<and>
     g_pixels s + 3 * (nat (g_width s) * nat (g_height s)) \<le> length (g_heap s)"

definition px_addr :: "gal \<Rightarrow> nat \<times> nat \<Rightarrow> nat" where
  "px_addr s c = g_pixels s + 3 * (snd c * nat (g_width s) + fst c)"

definition pix :: "gal \<Rightarrow> nat \<times> nat \<Rightarrow> Pixel" where
  "pix s c = px_at (g_heap s) (px_addr s c)"

definition inside :: "gal \<Rightarrow> nat \<times> nat \<Rightarrow> bool" where
  "inside s c \<longleftrightarrow> int (fst c) < g_width s \<and> int (snd c) < g_height s"

text \<open>What a change of the heap keeps.\<close>

definition same_image :: "gal \<Rightarrow> gal \<Rightarrow> bool" where
  "same_image s t \<longleftrightarrow> (\<exists>h. length h = length (g_heap s) \<and> t = s\<lparr>g_heap := h\<rparr>)"

lemma same_image_refl [simp]: "same_image s s"
  by (auto simp: same_image_def intro!: exI [of _ "g_heap s"])

lemma same_image_trans: "same_image s t \<Longrightarrow> same_image t u \<Longrightarrow> same_image s u"
  by (auto simp: same_image_def)

lemma same_image_splice:
  assumes "same_image s t" and "a + length bs \<le> length (g_heap s)"
  shows "same_image s (t\<lparr>g_heap := splice a bs (g_heap t)\<rparr>)"
proof -
  obtain h where h: "length h = length (g_heap s)" "t = s\<lparr>g_heap := h\<rparr>" using assms(1) by (auto simp: same_image_def)
  then have "t\<lparr>g_heap := splice a bs (g_heap t)\<rparr> = s\<lparr>g_heap := splice a bs h\<rparr>" "length (splice a bs h) = length (g_heap s)"
    using assms(2) by simp_all
  then show ?thesis unfolding same_image_def by blast
qed

lemma same_imageD:
  assumes "same_image s t"
  shows "img_ok t = img_ok s" "inside t c = inside s c" "px_addr t c = px_addr s c"
    "g_width t = g_width s" "g_height t = g_height s"
  using assms by (auto simp: same_image_def img_ok_def inside_def px_addr_def)

lemma pixel_index: "x < w \<Longrightarrow> y < h \<Longrightarrow> y * w + x < w * (h :: nat)"
proof -
  assume "x < w" "y < h"
  then have "y * w + x < Suc y * w" by simp
  also have "\<dots> \<le> h * w" using \<open>y < h\<close> by (intro mult_le_mono1) simp
  finally show ?thesis by (simp add: mult.commute)
qed

lemma pixel_index_inj: "x < w \<Longrightarrow> x' < w \<Longrightarrow> y * w + x = y' * w + (x' :: nat) \<longleftrightarrow> x = x' \<and> y = y'"
  by (metis add.commute div_mult_self1 div_less mod_less mod_mult_self1 add_0 gr_implies_not0)

lemma inside_addr: "img_ok s \<Longrightarrow> inside s c \<Longrightarrow> px_addr s c + 3 \<le> length (g_heap s)"
proof -
  assume "img_ok s" "inside s c"
  then have "snd c * nat (g_width s) + fst c < nat (g_width s) * nat (g_height s)"
    by (intro pixel_index) (auto simp: inside_def)
  then show ?thesis using \<open>img_ok s\<close> by (simp add: img_ok_def px_addr_def)
qed

lemma px_at_splice:
  "a + 3 \<le> length h \<Longrightarrow> b + 3 \<le> length h \<Longrightarrow> a = b \<or> a + 3 \<le> b \<or> b + 3 \<le> a \<Longrightarrow>
   px_at (splice a (px_bytes p) h) b = (if a = b then p else px_at h b)"
  by (auto simp: px_at_def nth_splice px_bytes_def nth_Cons numeral_2_eq_2)

lemma pixel_nat:
  "inside s (x, y) \<Longrightarrow> nat (int y * g_width s + int x) = y * nat (g_width s) + x"
  by (auto simp: inside_def nat_add_distrib nat_mult_distrib)

lemma get_pixel_ok:
  "img_ok s \<Longrightarrow> inside s (x, y) \<Longrightarrow> get_pixel (int x) (int y) s = Ok (pix s (x, y), s)"
  using inside_addr [of s "(x, y)"] pixel_nat [of s x y]
  by (simp add: get_pixel_def load_px_def krun outside_def px_addr_def pix_def) (auto simp: inside_def)

lemma get_pixel_outside: "outside x y s \<Longrightarrow> get_pixel x y s = Ok (black, s)"
  by (simp add: get_pixel_def krun)

definition put_px :: "nat \<times> nat \<Rightarrow> Pixel \<Rightarrow> gal \<Rightarrow> gal" where
  "put_px c p s = s\<lparr>g_heap := splice (px_addr s c) (px_bytes p) (g_heap s)\<rparr>"

lemma set_pixel_ok:
  "img_ok s \<Longrightarrow> inside s (x, y) \<Longrightarrow> set_pixel (int x) (int y) p s = Ok ((), put_px (x, y) p s)"
  using inside_addr [of s "(x, y)"] pixel_nat [of s x y]
  by (simp add: set_pixel_def store_px_def krun outside_def px_addr_def put_px_def) (auto simp: inside_def)

lemma put_px_same: "img_ok s \<Longrightarrow> inside s c \<Longrightarrow> same_image s (put_px c p s)"
  using inside_addr [of s c] same_image_splice [of s s "px_addr s c" "px_bytes p"]
  by (simp add: put_px_def px_bytes_def)

lemma pix_put_px:
  assumes "img_ok s" and "inside s c" and "inside s d"
  shows "pix (put_px c p s) d = (if c = d then p else pix s d)"
proof -
  have e: "px_addr (put_px c p s) d = px_addr s d" by (simp add: put_px_def px_addr_def)
  have "px_addr s c = px_addr s d \<longleftrightarrow> c = d"
    using assms(2,3) pixel_index_inj [of "fst c" "nat (g_width s)" "fst d" "snd c" "snd d"]
    by (auto simp: px_addr_def inside_def prod_eq_iff)
  moreover have "px_addr s c = px_addr s d \<or> px_addr s c + 3 \<le> px_addr s d \<or> px_addr s d + 3 \<le> px_addr s c"
    unfolding px_addr_def by arith
  ultimately show ?thesis
    using px_at_splice [of "px_addr s c" "g_heap s" "px_addr s d" p] inside_addr [OF assms(1)] assms
    unfolding pix_def e by (simp add: put_px_def split: if_splits)
qed

lemma swap_pixels_wp:
  assumes "img_ok s" and "inside s (x, y)" and "inside s (x', y')"
  shows "wp (swap_pixels (int x) (int y) (int x') (int y')) (\<lambda>_ t. same_image s t \<and>
     (\<forall>d. inside s d \<longrightarrow> pix t d = (if d = (x', y') then pix s (x, y) else if d = (x, y) then pix s (x', y') else pix s d))) s"
proof -
  let ?t = "put_px (x, y) (pix s (x', y')) s"
  let ?u = "put_px (x', y') (pix s (x, y)) ?t"
  have t: "same_image s ?t" using assms put_px_same by blast
  then have ok: "img_ok ?t" "inside ?t (x', y')" using assms by (simp_all add: same_imageD)
  have u: "same_image s ?u" using t ok put_px_same same_image_trans by blast
  have "swap_pixels (int x) (int y) (int x') (int y') s = Ok ((), ?u)"
    using assms ok by (simp add: swap_pixels_def kbind_Ok kthen_Ok get_pixel_ok set_pixel_ok)
  moreover have "pix ?u d = (if d = (x', y') then pix s (x, y) else if d = (x, y) then pix s (x', y') else pix s d)"
    if "inside s d" for d
    using that ok assms by (auto simp: pix_put_px same_imageD [OF t])
  ultimately show ?thesis using u by (auto intro: wpI)
qed

section \<open>Flipping\<close>

declare split_paired_All [simp del]

text \<open>Nested counting loops are one loop over pairs.\<close>

lemma kfor_append: "kfor (xs @ ys) f = kthen (kfor xs f) (kfor ys f)"
  by (induction xs) (auto simp: fun_eq_iff kop_defs split: res.splits)

lemma kfor_cong: "(\<And>i. i \<in> set xs \<Longrightarrow> f i = g i) \<Longrightarrow> kfor xs f = kfor xs g"
  by (induction xs) auto

lemma kfor_map: "kfor (map g xs) f = kfor xs (\<lambda>x. f (g x))"
  by (induction xs) auto

lemma kfor_product: "kfor ys (\<lambda>y. kfor xs (f y)) = kfor (List.product ys xs) (\<lambda>(y, x). f y x)"
  by (induction ys) (simp_all add: kfor_append kfor_map)

text \<open>A sequence of swaps of disjoint pairs of pixels, paired by an involution.\<close>

definition swap_at :: "(nat \<times> nat \<Rightarrow> nat \<times> nat) \<Rightarrow> nat \<times> nat \<Rightarrow> (gal, unit) kop" where
  "swap_at m c = swap_pixels (int (fst c)) (int (snd c)) (int (fst (m c))) (int (snd (m c)))"

lemma swaps_wp:
  assumes ok: "img_ok s" and cs: "\<And>c. c \<in> set cs \<Longrightarrow> inside s c \<and> inside s (m c) \<and> m c \<notin> set cs"
    and inv: "\<And>c. inside s c \<Longrightarrow> m (m c) = c" and d: "distinct cs"
  shows "wp (kfor cs (swap_at m)) (\<lambda>_ t. same_image s t \<and>
     (\<forall>c. inside s c \<longrightarrow> pix t c = (if c \<in> set cs \<or> m c \<in> set cs then pix s (m c) else pix s c))) s"
proof (rule wp_kfor_rev [where I = "\<lambda>xs t. same_image s t \<and>
     (\<forall>c. inside s c \<longrightarrow> pix t c = (if c \<in> set xs \<or> m c \<in> set xs then pix s (m c) else pix s c))"])
  fix xs c ys t
  assume e: "cs = xs @ c # ys" and I: "same_image s t \<and>
     (\<forall>c. inside s c \<longrightarrow> pix t c = (if c \<in> set xs \<or> m c \<in> set xs then pix s (m c) else pix s c))"
  then have st: "same_image s t" by blast
  have c: "inside s c" "inside s (m c)" "m c \<notin> set cs" "c \<notin> set xs" using cs [of c] d e by auto
  have "wp (swap_at m c) (\<lambda>_ u. same_image t u \<and>
      (\<forall>d. inside t d \<longrightarrow> pix u d = (if d = m c then pix t c else if d = c then pix t (m c) else pix t d))) t"
    using swap_pixels_wp [of t "fst c" "snd c" "fst (m c)" "snd (m c)", unfolded prod.collapse] ok c
    unfolding swap_at_def same_imageD [OF st] by blast
  then show "wp (swap_at m c) (\<lambda>_ u. same_image s u \<and>
     (\<forall>d. inside s d \<longrightarrow> pix u d = (if d \<in> set (xs @ [c]) \<or> m d \<in> set (xs @ [c]) then pix s (m d) else pix s d))) t"
  proof (rule wp_mono, intro conjI allI impI)
    fix x u d
    assume u: "same_image t u \<and>
      (\<forall>d. inside t d \<longrightarrow> pix u d = (if d = m c then pix t c else if d = c then pix t (m c) else pix t d))"
    then show "same_image s u" using st same_image_trans by blast
    assume d: "inside s d"
    have x: "m c \<notin> set xs" using c(3) e by auto
    have pc: "pix t c = pix s c" "pix t (m c) = pix s (m c)"
      using I [THEN conjunct2, rule_format, OF c(1)] I [THEN conjunct2, rule_format, OF c(2)] c x inv [OF c(1)] by simp_all
    have "m d = c \<longleftrightarrow> d = m c" using inv [OF d] inv [OF c(1)] by auto
    then show "pix u d = (if d \<in> set (xs @ [c]) \<or> m d \<in> set (xs @ [c]) then pix s (m d) else pix s d)"
      using u I d pc x c inv by (auto simp: same_imageD [OF st])
  qed
qed (simp_all)

lemma hflip_wp:
  assumes "img_ok s"
  shows "wp hflip (\<lambda>_ t. same_image s t \<and>
     (\<forall>c. inside s c \<longrightarrow> pix t c = pix s (nat (g_width s) - 1 - fst c, snd c))) s"
proof -
  let ?w = "nat (g_width s)" and ?h = "nat (g_height s)"
  let ?m = "\<lambda>c. (?w - 1 - fst c, snd c) :: nat \<times> nat"
  let ?cs = "map (\<lambda>(y, x). (x, y)) (List.product [0..<?h] [0..<?w div 2])"
  have f: "hflip s = kfor ?cs (swap_at ?m) s"
    unfolding hflip_def kfor_product kfor_map swap_at_def krun
    by (simp add: krun kfor_product) (rule arg_cong [of _ _ "\<lambda>f. f s"], rule kfor_cong, auto simp: of_nat_diff algebra_simps)
  have "wp (kfor ?cs (swap_at ?m)) (\<lambda>_ t. same_image s t \<and>
     (\<forall>c. inside s c \<longrightarrow> pix t c = (if c \<in> set ?cs \<or> ?m c \<in> set ?cs then pix s (?m c) else pix s c))) s"
    using assms by (intro swaps_wp) (auto simp: inside_def distinct_map distinct_product inj_on_def)
  note w = this
  have "c \<in> set ?cs \<or> ?m c \<in> set ?cs \<or> ?m c = c" if "inside s c" for c
    using that by (cases c) (auto simp: inside_def image_iff)
  then have "pix t c = pix s (?m c)"
    if "inside s c" "pix t c = (if c \<in> set ?cs \<or> ?m c \<in> set ?cs then pix s (?m c) else pix s c)" for t c
    using that by metis
  then show ?thesis using w unfolding wp_iff f by blast
qed

lemma vflip_wp:
  assumes "img_ok s"
  shows "wp vflip (\<lambda>_ t. same_image s t \<and>
     (\<forall>c. inside s c \<longrightarrow> pix t c = pix s (fst c, nat (g_height s) - 1 - snd c))) s"
proof -
  let ?w = "nat (g_width s)" and ?h = "nat (g_height s)"
  let ?m = "\<lambda>c. (fst c, ?h - 1 - snd c) :: nat \<times> nat"
  let ?cs = "List.product [0..<?w] [0..<?h div 2]"
  have f: "vflip s = kfor ?cs (swap_at ?m) s"
    unfolding vflip_def swap_at_def
    by (simp add: krun kfor_product) (rule arg_cong [of _ _ "\<lambda>f. f s"], rule kfor_cong, auto simp: of_nat_diff algebra_simps)
  have "wp (kfor ?cs (swap_at ?m)) (\<lambda>_ t. same_image s t \<and>
     (\<forall>c. inside s c \<longrightarrow> pix t c = (if c \<in> set ?cs \<or> ?m c \<in> set ?cs then pix s (?m c) else pix s c))) s"
    using assms by (intro swaps_wp) (auto simp: inside_def distinct_product)
  note w = this
  have "c \<in> set ?cs \<or> ?m c \<in> set ?cs \<or> ?m c = c" if "inside s c" for c
    using that by (cases c) (auto simp: inside_def)
  then have "pix t c = pix s (?m c)"
    if "inside s c" "pix t c = (if c \<in> set ?cs \<or> ?m c \<in> set ?cs then pix s (?m c) else pix s c)" for t c
    using that by metis
  then show ?thesis using w unfolding wp_iff f by blast
qed

section \<open>Reading a bitmap\<close>

text \<open>
  A bitmap file with 24 bits for a pixel: the headers, and the rows from the last to the first,
  each padded to a multiple of four bytes.
\<close>

definition bmp_row :: "nat \<Rightarrow> (nat \<times> nat \<Rightarrow> Pixel) \<Rightarrow> nat \<Rightarrow> uchar list" where
  "bmp_row w img y = concat (map (\<lambda>x. px_bytes (img (x, y))) [0..<w])"

definition bmp_rows :: "nat \<Rightarrow> nat \<Rightarrow> (nat \<times> nat \<Rightarrow> Pixel) \<Rightarrow> (nat \<Rightarrow> uchar list) \<Rightarrow> uchar list" where
  "bmp_rows w h img pad = concat (map (\<lambda>y. bmp_row w img y @ pad y) (rev [0..<h]))"

definition bmp_pad :: "nat \<Rightarrow> nat" where
  "bmp_pad w = (4 - 3 * w mod 4) mod 4"

lemma bmp_pad: "bmp_pad w = w mod 4" "(3 * w + bmp_pad w) mod 4 = 0"
proof -
  have "w mod 4 = 0 \<or> w mod 4 = 1 \<or> w mod 4 = 2 \<or> w mod 4 = 3" using mod_less_divisor [of 4 w] by linarith
  moreover have "3 * w mod 4 = 3 * (w mod 4) mod 4" by (simp add: mod_mult_right_eq)
  ultimately show p: "bmp_pad w = w mod 4" unfolding bmp_pad_def by (elim disjE) simp_all
  have "(3 * w + w mod 4) mod 4 = (3 * w + w) mod 4" by (rule mod_add_right_eq)
  then show "(3 * w + bmp_pad w) mod 4 = 0" unfolding p by simp
qed

lemma length_bmp_row [simp]: "length (bmp_row w img y) = 3 * w"
  by (induction w) (simp_all add: bmp_row_def px_bytes_def)

lemma nth_bmp_row: "x < w \<Longrightarrow> k < 3 \<Longrightarrow> bmp_row w img y ! (3 * x + k) = px_bytes (img (x, y)) ! k"
proof (induction w)
  case (Suc w)
  have e: "bmp_row (Suc w) img y = bmp_row w img y @ px_bytes (img (w, y))" by (simp add: bmp_row_def)
  show ?case
  proof (cases "x < w")
    case True
    then show ?thesis using Suc unfolding e by (simp add: nth_append)
  next
    case False
    then have "x = w" using Suc.prems by simp
    then show ?thesis unfolding e by (simp add: nth_append)
  qed
qed simp

lemma px_at_row:
  assumes "a + 3 * w \<le> length h" and "x < w"
  shows "px_at (splice a (bmp_row w img y) h) (a + 3 * x) = img (x, y)"
proof -
  have "splice a (bmp_row w img y) h ! (a + 3 * x + k) = px_bytes (img (x, y)) ! k" if "k < 3" for k
    using assms that nth_bmp_row [of x w k img y] by (simp add: nth_splice)
  from this [of 0] this [of 1] this [of 2] show ?thesis by (simp add: px_at_def px_bytes_def)
qed

lemma bmp_rows_Suc: "bmp_rows w (Suc h) img pad = bmp_row w img h @ pad h @ bmp_rows w h img pad"
  by (simp add: bmp_rows_def)

lemma read_rows_wp:
  assumes "\<And>y. length (pad y) = w mod 4"
  shows "g_pixels s + 3 * (h * w) \<le> length (g_heap s) \<Longrightarrow>
    wp (read_rows h w (bmp_rows w h img pad)) (\<lambda>_ t. same_image s t \<and>
      (\<forall>x y. x < w \<longrightarrow> y < h \<longrightarrow> px_at (g_heap t) (g_pixels s + 3 * (y * w + x)) = img (x, y)) \<and>
      (\<forall>i. g_pixels s + 3 * (h * w) \<le> i \<longrightarrow> i < length (g_heap s) \<longrightarrow> g_heap t ! i = g_heap s ! i)) s"
proof (induction h arbitrary: s)
  case 0
  then show ?case by (simp add: wp_simps)
next
  case (Suc h)
  let ?p = "g_pixels s" and ?row = "bmp_row w img h"
  let ?s = "s\<lparr>g_heap := splice (?p + 3 * (h * w)) ?row (g_heap s)\<rparr>"
  have fit: "?p + 3 * (h * w) + 3 * w \<le> length (g_heap s)" using Suc.prems by simp
  have l: "length (g_heap ?s) = length (g_heap s)" using fit by simp
  have run: "read_rows (Suc h) w (bmp_rows w (Suc h) img pad) s = read_rows h w (bmp_rows w h img pad) ?s"
    using fit by (simp add: krun read_heap_def bmp_rows_Suc assms)
  have gp: "g_pixels ?s = ?p" by simp
  have ss: "same_image s ?s" using l by (auto simp: same_image_def)
  have row: "px_at (g_heap ?s) (?p + 3 * (h * w + x)) = img (x, h)" if "x < w" for x
    using px_at_row [OF fit that, of img h] by (simp add: algebra_simps)
  have keep: "g_heap ?s ! i = g_heap s ! i" if "?p + 3 * (Suc h * w) \<le> i" "i < length (g_heap s)" for i
    using fit that by (simp add: nth_splice)
  have w: "wp (read_rows h w (bmp_rows w h img pad)) (\<lambda>_ t. same_image ?s t \<and>
      (\<forall>x y. x < w \<longrightarrow> y < h \<longrightarrow> px_at (g_heap t) (g_pixels ?s + 3 * (y * w + x)) = img (x, y)) \<and>
      (\<forall>i. g_pixels ?s + 3 * (h * w) \<le> i \<longrightarrow> i < length (g_heap ?s) \<longrightarrow> g_heap t ! i = g_heap ?s ! i)) ?s"
    using fit l by (intro Suc.IH) simp
  have "px_at (g_heap t) (?p + 3 * (y * w + x)) = img (x, y)"
    if xy: "x < w" "y < Suc h"
      and low: "\<forall>x y. x < w \<longrightarrow> y < h \<longrightarrow> px_at (g_heap t) (?p + 3 * (y * w + x)) = img (x, y)"
      and up: "\<forall>i. ?p + 3 * (h * w) \<le> i \<longrightarrow> i < length (g_heap s) \<longrightarrow> g_heap t ! i = g_heap ?s ! i" for t x y
  proof (cases "y < h")
    case True
    then show ?thesis using low xy by blast
  next
    case False
    then have y: "y = h" using xy by simp
    have "px_at (g_heap t) (?p + 3 * (h * w + x)) = px_at (g_heap ?s) (?p + 3 * (h * w + x))"
      using up fit xy(1) by (simp add: px_at_def)
    then show ?thesis using row [OF xy(1)] y by simp
  qed
  note px = this
  have "wp (read_rows h w (bmp_rows w h img pad)) (\<lambda>_ t. same_image s t \<and>
      (\<forall>x y. x < w \<longrightarrow> y < Suc h \<longrightarrow> px_at (g_heap t) (?p + 3 * (y * w + x)) = img (x, y)) \<and>
      (\<forall>i. ?p + 3 * (Suc h * w) \<le> i \<longrightarrow> i < length (g_heap s) \<longrightarrow> g_heap t ! i = g_heap s ! i)) ?s"
  proof (rule wp_mono [OF w [unfolded l gp]], elim conjE, intro conjI)
    fix x t
    assume st: "same_image ?s t"
      and low: "\<forall>x y. x < w \<longrightarrow> y < h \<longrightarrow> px_at (g_heap t) (?p + 3 * (y * w + x)) = img (x, y)"
      and up: "\<forall>i. ?p + 3 * (h * w) \<le> i \<longrightarrow> i < length (g_heap s) \<longrightarrow> g_heap t ! i = g_heap ?s ! i"
    show "same_image s t" using ss st by (rule same_image_trans)
    show "\<forall>x y. x < w \<longrightarrow> y < Suc h \<longrightarrow> px_at (g_heap t) (?p + 3 * (y * w + x)) = img (x, y)"
      using px [OF _ _ low up] by blast
    show "\<forall>i. ?p + 3 * (Suc h * w) \<le> i \<longrightarrow> i < length (g_heap s) \<longrightarrow> g_heap t ! i = g_heap s ! i"
      using keep up by auto
  qed
  then show ?case unfolding wp_def run .
qed

lemma sint_of_nat_small: "n < 2 ^ 31 \<Longrightarrow> sint (of_nat n :: uint32) = int n"
  by (simp add: signed_of_nat signed_take_bit_int_eq_self)

lemma splice_all: "length bs = length d \<Longrightarrow> splice 0 bs d = bs"
  by (simp add: splice_def)

lemma imgread_wp:
  assumes "length hd_bytes = 54" and "get32 hd_bytes 18 = of_nat w" and "get32 hd_bytes 22 = of_nat h"
    and "w < 2 ^ 31" and "h < 2 ^ 31" and "w * h * 3 < 2 ^ 31"
    and "\<forall>y. length (pad y) = bmp_pad w"
    and "g_fds s < NOFILE" and "length (g_hdr s) = 54" and "length (g_heap s) + 6 * (w * h) \<le> g_limit s"
  shows "wp (imgread (Some (hd_bytes @ bmp_rows w h img pad))) (\<lambda>_ t. img_ok t \<and>
     g_width t = int w \<and> g_height t = int h \<and>
     (\<forall>x y. x < w \<longrightarrow> y < h \<longrightarrow> pix t (x, y) = img (x, y)) \<and>
     g_pixels t = g_pa t \<and> g_pb t = g_pa t + 3 * (w * h) \<and> length (g_heap t) = g_pb t + 3 * (w * h) \<and>
     g_xpos t = g_xpos s \<and> g_ypos t = g_ypos s \<and> g_zoom t = g_zoom s \<and> g_calls t = g_calls s) s"
proof -
  let ?f = "bmp_rows w h img pad" and ?n = "length (g_heap s)" and ?k = "3 * (w * h)"
  let ?s = "s\<lparr>g_fds := g_fds s + 1, g_hdr := hd_bytes, g_height := int h, g_width := int w,
      g_pa := ?n, g_heap := g_heap s @ replicate ?k 0 @ replicate ?k 0, g_pb := ?n + ?k, g_pixels := ?n\<rparr>"
  have k: "nat (int w * int h * 3) = ?k" by (simp add: nat_mult_distrib)
  have r: "int w * int h * 3 < 2 ^ 31"
    using assms(6) by (metis of_nat_less_iff of_nat_mult of_nat_numeral of_nat_power)
  have run: "imgread (Some (hd_bytes @ ?f)) s = read_rows h w ?f ?s"
    using assms(1-5,8,9,10) k r
    by (simp add: imgread_def krun sbrk_def splice_all sint_of_nat_small mult.commute [of h w])
  have "g_pixels ?s + 3 * (h * w) \<le> length (g_heap ?s)" by (simp add: mult.commute)
  from read_rows_wp [OF _ this, of pad img] assms(7)
  have "wp (read_rows h w ?f) (\<lambda>_ t. same_image ?s t \<and>
      (\<forall>x y. x < w \<longrightarrow> y < h \<longrightarrow> px_at (g_heap t) (g_pixels ?s + 3 * (y * w + x)) = img (x, y))) ?s"
    by (simp add: bmp_pad wp_conj)
  then show ?thesis
    unfolding wp_def run by (auto split: res.splits simp: same_image_def img_ok_def pix_def px_addr_def)
qed

text \<open>
  C9: Reading a bitmap gives the image of the file. For every width, height and picture, every
  contents of the other header fields and of the padding, \<open>imgread\<close>, given memory for two
  copies of the image, returns with the
  dimensions of the header and with each pixel of the picture at its place, the first row
  on top; the memory holds the image and a second buffer of the same size behind it.
\<close>

theorem imgread_decodes:
  assumes "length hd_bytes = 54" and "get32 hd_bytes 18 = of_nat w" and "get32 hd_bytes 22 = of_nat h"
    and "w < 2 ^ 31" and "h < 2 ^ 31" and "w * h * 3 < 2 ^ 31"
    and "\<forall>y. length (pad y) = bmp_pad w"
    and "g_fds s < NOFILE" and "length (g_hdr s) = 54" and "length (g_heap s) + 6 * (w * h) \<le> g_limit s"
  shows "wp (imgread (Some (hd_bytes @ bmp_rows w h img pad))) (\<lambda>_ t. img_ok t \<and>
     g_width t = int w \<and> g_height t = int h \<and>
     (\<forall>x y. x < w \<longrightarrow> y < h \<longrightarrow> pix t (x, y) = img (x, y)) \<and>
     g_pixels t = g_pa t \<and> g_pb t = g_pa t + 3 * (w * h) \<and> length (g_heap t) = g_pb t + 3 * (w * h)) s"
  by (rule wp_mono [OF imgread_wp [OF assms]]) blast

definition gal0 :: gal where
  "gal0 = \<lparr>g_hdr = replicate 54 0, g_width = 0, g_height = 0, g_pixels = 0, g_pa = 0, g_pb = 0, g_a = True,
     g_heap = [], g_limit = 1000000, g_fds = 3, g_xpos = 0, g_ypos = 0, g_zoom = 1, g_calls = [], g_said = [], g_listen = 0\<rparr>"

definition bmp2x1 :: "uchar list" where
  "bmp2x1 = put32 22 1 (put32 18 2 (replicate 54 0)) @ bmp_rows 2 1 (\<lambda>c. if c = (1, 0) then black\<lparr>px_r := 200\<rparr> else black) (\<lambda>_. [7, 7])"

theorem imgread_decodes_witness:
  "\<exists>t. imgread (Some bmp2x1) gal0 = Ok ((), t) \<and> g_width t = 2 \<and> px_r (pix t (1, 0)) = 200"
proof -
  have "get32 (put32 22 1 (put32 18 2 (replicate 54 0))) 18 = of_nat 2" "get32 (put32 22 1 (put32 18 2 (replicate 54 0))) 22 = of_nat 1"
    by (simp_all add: get_put_other)
  then have "wp (imgread (Some bmp2x1)) (\<lambda>_ t. img_ok t \<and> g_width t = int 2 \<and> g_height t = int 1 \<and>
     (\<forall>x y. x < 2 \<longrightarrow> y < 1 \<longrightarrow> pix t (x, y) = (if (x, y) = (1, 0) then black\<lparr>px_r := 200\<rparr> else black)) \<and>
     g_pixels t = g_pa t \<and> g_pb t = g_pa t + 3 * (2 * 1) \<and> length (g_heap t) = g_pb t + 3 * (2 * 1)) gal0"
    unfolding bmp2x1_def by (intro imgread_decodes) (simp_all add: bmp_pad gal0_def NOFILE_def)
  then show ?thesis by (auto simp: wp_iff)
qed


definition gal2x1 :: gal where
  "gal2x1 = gal0\<lparr>g_width := 2, g_height := 1, g_heap := [1, 2, 3, 4, 5, 6, 0, 0, 0, 0, 0, 0], g_pb := 6\<rparr>"


section \<open>Rotating\<close>

lemma kfor_fault:
  assumes "I s" and "\<And>x t. x \<in> set xs \<Longrightarrow> I t \<Longrightarrow> f x t = Fault \<or> (\<exists>u. f x t = Ok ((), u) \<and> I u)"
    and "x \<in> set xs" and "\<And>t. I t \<Longrightarrow> f x t = Fault"
  shows "kfor xs f s = Fault"
  using assms
proof (induction xs arbitrary: s)
  case (Cons y ys)
  show ?case
  proof (cases "f y s = Fault")
    case True
    then show ?thesis by (simp add: kthen_def kbind_def)
  next
    case False
    then obtain u where u: "f y s = Ok ((), u)" "I u" using Cons.prems by (metis list.set_intros(1))
    moreover have "x \<noteq> y" using False Cons.prems by blast
    ultimately show ?thesis using Cons by (simp add: kthen_Ok)
  qed
qed simp

definition rot_step :: "nat \<Rightarrow> nat \<Rightarrow> nat \<times> nat \<Rightarrow> (gal, unit) kop" where
  "rot_step q h c = kbind (get_pixel (int (fst c)) (int (snd c))) (\<lambda>p.
     store_px (q + 3 * (fst c * h + h - snd c + 1)) p)"

lemma rrotate_run:
  "rrotate s = kthen (kfor (List.product [0..<nat (g_width s)] [0..<nat (g_height s)])
       (rot_step (if g_a s then g_pb s else g_pa s) (nat (g_height s))))
     (kmod (\<lambda>t. t\<lparr>g_pixels := (if g_a s then g_pb s else g_pa s), g_width := g_height t, g_height := g_width t\<rparr>))
     (s\<lparr>g_a := \<not> g_a s\<rparr>)"
proof -
  have e: "(\<lambda>(i, j). kbind (get_pixel (int i) (int j)) (store_px (q + 3 * (i * h + h - j + 1)))) = rot_step q h" for q h
    by (auto simp: fun_eq_iff rot_step_def)
  show ?thesis by (simp only: rrotate_def krun kfor_product e prod.case) simp
qed

lemma rot_step_run:
  assumes "same_image s t" and "img_ok s" and "inside s c"
  shows "rot_step q h c t = (if q + 3 * (fst c * h + h - snd c + 1) + 3 \<le> length (g_heap s)
     then Ok ((), t\<lparr>g_heap := splice (q + 3 * (fst c * h + h - snd c + 1)) (px_bytes (pix t c)) (g_heap t)\<rparr>) else Fault)"
proof -
  have "get_pixel (int (fst c)) (int (snd c)) t = Ok (pix t c, t)"
    using get_pixel_ok [of t "fst c" "snd c"] assms by (simp add: same_imageD [OF assms(1)])
  moreover have "length (g_heap t) = length (g_heap s)" using assms(1) by (auto simp: same_image_def)
  ultimately show ?thesis by (simp add: rot_step_def kbind_Ok store_px_def krun)
qed

text \<open>
  C17: A rotation overruns its buffer. After \<open>imgread\<close> the second buffer is the end of the heap;
  rotating any image with at least one pixel then stores past the end of the heap: the index
  of the new pixel is two too large.
\<close>

theorem rrotate_overruns:
  assumes "img_ok s" and "0 < g_width s" and "0 < g_height s" and "g_a s"
    and "length (g_heap s) = g_pb s + 3 * nat (g_width s * g_height s)"
  shows "rrotate s = Fault"
proof -
  let ?w = "nat (g_width s)" and ?h = "nat (g_height s)" and ?s = "s\<lparr>g_a := \<not> g_a s\<rparr>"
  let ?xs = "List.product [0..<?w] [0..<?h]"
  have len: "length (g_heap ?s) = g_pb s + 3 * (?w * ?h)" using assms by (simp add: nat_mult_distrib)
  have ok: "img_ok ?s" using assms(1) by (simp add: img_ok_def)
  have "kfor ?xs (rot_step (g_pb s) ?h) ?s = Fault"
  proof (rule kfor_fault [where I = "same_image ?s" and x = "(?w - 1, 0)"])
    fix c t assume c: "c \<in> set ?xs" and t: "same_image ?s t"
    then have "inside ?s c" by (auto simp: inside_def)
    from rot_step_run [OF t ok this, of "g_pb s" ?h]
    show "rot_step (g_pb s) ?h c t = Fault \<or> (\<exists>u. rot_step (g_pb s) ?h c t = Ok ((), u) \<and> same_image ?s u)"
      using same_image_splice [OF t] by (simp add: px_bytes_def)
  next
    show last: "(?w - 1, 0) \<in> set ?xs" using assms by simp
    fix t assume t: "same_image ?s t"
    have "?w * ?h = (?w - 1) * ?h + ?h" using assms(2) by (cases ?w) auto
    moreover have "inside ?s (?w - 1, 0)" using assms by (auto simp: inside_def)
    ultimately show "rot_step (g_pb s) ?h (?w - 1, 0) t = Fault"
      using rot_step_run [OF t ok, of "(?w - 1, 0)" "g_pb s" ?h] len by simp
  qed simp
  then show ?thesis using assms(4) by (simp add: rrotate_run kthen_def kbind_def)
qed

theorem rrotate_overruns_witness: "rrotate gal2x1 = Fault"
  by (rule rrotate_overruns) (simp_all add: img_ok_def gal2x1_def gal0_def)

text \<open>
  With two more pixels of memory behind the buffer, which the last page of the heap may have, the
  rotation ends, and pixel \<open>k\<close> of the rotated picture is found at place \<open>k + 2\<close>.
\<close>

lemma rrotate_shifts:
  fixes s :: gal
  defines "w \<equiv> nat (g_width s)" and "h \<equiv> nat (g_height s)"
  assumes "img_ok s" and "g_a s" and "g_pb s + 3 * (w * h + 2) \<le> length (g_heap s)"
    and "g_pixels s + 3 * (w * h) \<le> g_pb s"
  shows "wp rrotate (\<lambda>_ t. g_width t = g_height s \<and> g_height t = g_width s \<and> g_pixels t = g_pb s \<and>
     (\<forall>k < w * h. px_at (g_heap t) (g_pb s + 3 * (k + 2)) = pix s (k div h, h - 1 - k mod h))) s"
proof -
  let ?s = "s\<lparr>g_a := \<not> g_a s\<rparr>" and ?xs = "List.product [0..<w] [0..<h]"
  let ?a = "\<lambda>c :: nat \<times> nat. g_pb s + 3 * (fst c * h + h - snd c + 1)"
  define I where "I xs t \<longleftrightarrow> same_image ?s t \<and> (\<forall>i < g_pb s. g_heap t ! i = g_heap s ! i) \<and>
    (\<forall>c \<in> set xs. px_at (g_heap t) (?a c) = pix s c)" for xs t
  have ok: "img_ok ?s" using assms(3) by (simp add: img_ok_def)
  have idx: "fst c * h + h - snd c + 1 = fst c * h + (h - 1 - snd c) + 2" if "c \<in> set ?xs" for c
    using that by auto
  have bound: "?a c + 3 \<le> length (g_heap s)" if "c \<in> set ?xs" for c
  proof -
    have "fst c * h + (h - 1 - snd c) < h * w" using that by (intro pixel_index) auto
    then show ?thesis using assms(5) unfolding idx [OF that] by (simp add: mult.commute)
  qed
  have inj: "?a c = ?a d \<longleftrightarrow> c = d" if "c \<in> set ?xs" "d \<in> set ?xs" for c d
    using that pixel_index_inj [of "h - 1 - snd c" h "h - 1 - snd d" "fst c" "fst d"]
    unfolding idx [OF that(1)] idx [OF that(2)] by (auto simp: prod_eq_iff)
  have src: "pix t c = pix s c" if "c \<in> set ?xs" "same_image ?s t" "\<forall>i < g_pb s. g_heap t ! i = g_heap s ! i" for t c
  proof -
    have "snd c * w + fst c < w * h" using that(1) by (intro pixel_index) auto
    then have "px_addr s c + 3 \<le> g_pb s" using assms(6) by (simp add: px_addr_def w_def)
    moreover have "px_addr t c = px_addr s c" using that(2) by (auto simp: same_image_def px_addr_def)
    ultimately show ?thesis using that(3) by (simp add: pix_def px_at_def)
  qed
  have "wp (kfor ?xs (rot_step (g_pb s) h)) (\<lambda>_. I ?xs) ?s"
  proof (rule wp_kfor_rev [where I = I])
    show "I [] ?s" by (simp add: I_def)
    fix xs c ys t assume e: "?xs = xs @ c # ys" and It: "I xs t"
    have c: "c \<in> set ?xs" and xs: "set xs \<subseteq> set ?xs" and c': "c \<notin> set xs"
      using e distinct_product [of "[0..<w]" "[0..<h]"] by auto
    have t: "same_image ?s t" using It by (simp add: I_def)
    have l: "length (g_heap t) = length (g_heap s)" using t by (auto simp: same_image_def)
    let ?u = "t\<lparr>g_heap := splice (?a c) (px_bytes (pix t c)) (g_heap t)\<rparr>"
    have "inside ?s c" using c by (auto simp: inside_def w_def h_def)
    then have run: "rot_step (g_pb s) h c t = Ok ((), ?u)"
      using rot_step_run [OF t ok] bound [OF c] by simp
    have "px_at (g_heap ?u) (?a d) = pix s d" if d: "d \<in> set (xs @ [c])" for d
    proof -
      have "d \<in> set ?xs" using d c xs by auto
      moreover have "?a c = ?a d \<or> ?a c + 3 \<le> ?a d \<or> ?a d + 3 \<le> ?a c" by arith
      ultimately have "px_at (g_heap ?u) (?a d) = (if c = d then pix t c else px_at (g_heap t) (?a d))"
        using px_at_splice [of "?a c" "g_heap t" "?a d" "pix t c"] bound c l inj [of c d] by simp
      then show ?thesis using It d src [OF c t] by (auto simp: I_def)
    qed
    moreover have "same_image ?s ?u" using bound [OF c] by (intro same_image_splice [OF t]) (simp add: px_bytes_def)
    moreover have "\<forall>i < g_pb s. g_heap ?u ! i = g_heap s ! i"
      using It bound [OF c] l by (simp add: I_def nth_splice px_bytes_def)
    ultimately show "wp (rot_step (g_pb s) h c) (\<lambda>_. I (xs @ [c])) t"
      using run by (simp add: wp_iff I_def)
  qed simp
  then obtain t where t: "kfor ?xs (rot_step (g_pb s) h) ?s = Ok ((), t)" "I ?xs t" by (auto simp: wp_iff)
  have "px_at (g_heap t) (g_pb s + 3 * (k + 2)) = pix s (k div h, h - 1 - k mod h)" if k: "k < w * h" for k
  proof -
    let ?c = "(k div h, h - 1 - k mod h)"
    have h: "0 < h" using k by (cases h) auto
    then have "k mod h < h" "k div h < w" using k by (auto simp: less_mult_imp_div_less mult.commute)
    then have c: "?c \<in> set ?xs" by auto
    have "k div h * h + (h - 1 - (h - 1 - k mod h)) = k" using \<open>k mod h < h\<close> by simp
    then have "?a ?c = g_pb s + 3 * (k + 2)" unfolding idx [OF c] by simp
    then show ?thesis using t(2) c unfolding I_def by metis
  qed
  moreover have "g_width t = g_width s" "g_height t = g_height s" using t(2) by (auto simp: I_def same_image_def)
  ultimately show ?thesis using t(1) assms(4) by (simp add: wp_def rrotate_run w_def h_def kthen_Ok krun)
qed

section \<open>What the screen shows\<close>

text \<open>The color at a place of the picture; black beyond its borders.\<close>

definition look :: "gal \<Rightarrow> int \<Rightarrow> int \<Rightarrow> Pixel" where
  "look s x y = (if outside x y s then black else pix s (nat x, nat y))"

lemma get_pixel_look: "img_ok s \<Longrightarrow> get_pixel x y (s\<lparr>g_calls := cs\<rparr>) = Ok (look s x y, s\<lparr>g_calls := cs\<rparr>)"
proof -
  assume ok: "img_ok s"
  let ?s = "s\<lparr>g_calls := cs\<rparr>"
  have o: "outside x y ?s = outside x y s" by (simp add: outside_def)
  show ?thesis
  proof (cases "outside x y s")
    case True
    then show ?thesis using get_pixel_outside [of x y ?s] o by (simp add: look_def)
  next
    case False
    then have "inside ?s (nat x, nat y)" "0 \<le> x" "0 \<le> y" by (auto simp: inside_def outside_def)
    moreover have "img_ok ?s" using ok by (simp add: img_ok_def)
    ultimately show ?thesis using get_pixel_ok [of ?s "nat x" "nat y"] False
      by (simp add: look_def pix_def px_addr_def)
  qed
qed

text \<open>A loop whose body only adds to the calls.\<close>

lemma kfor_calls:
  assumes "\<And>x cs. x \<in> set xs \<Longrightarrow> f x (s\<lparr>g_calls := cs\<rparr>) = Ok ((), s\<lparr>g_calls := cs @ g x\<rparr>)"
  shows "kfor xs f (s\<lparr>g_calls := cs\<rparr>) = Ok ((), s\<lparr>g_calls := cs @ concat (map g xs)\<rparr>)"
  using assms
proof (induction xs arbitrary: cs)
  case (Cons x xs)
  then have "f x (s\<lparr>g_calls := cs\<rparr>) = Ok ((), s\<lparr>g_calls := cs @ g x\<rparr>)" by simp
  then show ?case using Cons by (simp add: kthen_Ok)
qed (simp add: krun)

definition square :: "gal \<Rightarrow> nat \<Rightarrow> nat \<Rightarrow> nat \<Rightarrow> (int \<times> int \<times> Pixel) list" where
  "square s z i j = concat (map (\<lambda>k. concat (map (\<lambda>l.
     [(int i * int z + int k, int j * int z + int l, look s (g_xpos s + int i) (g_ypos s + int j))]) [0..<z])) [0..<z])"

definition draw_calls :: "gal \<Rightarrow> nat \<Rightarrow> (int \<times> int \<times> Pixel) list" where
  "draw_calls s z = concat (map (\<lambda>i. concat (map (\<lambda>j. square s z i j) [0..<200 div z])) [0..<320 div z])"

lemma c_div_nat: "c_div (int a) (int b) = int (a div b)"
  by (simp add: c_div_def zdiv_int sgn_if)

lemma draw_run:
  assumes "img_ok s" and "g_zoom s = int z" and "0 < z"
  shows "draw s = Ok ((), s\<lparr>g_calls := g_calls s @ draw_calls s z\<rparr>)"
proof -
  have x: "nat (c_div WIDTH (int z)) = 320 div z" "nat (c_div HEIGHT (int z)) = 200 div z"
    using c_div_nat [of 320 z] c_div_nat [of 200 z] by (simp_all add: WIDTH_def HEIGHT_def)
  have sq: "kfor [0..<z] (\<lambda>k. kfor [0..<z] (\<lambda>l. setpixel (int i * int z + int k) (int j * int z + int l) p)) (s\<lparr>g_calls := cs\<rparr>) =
      Ok ((), s\<lparr>g_calls := cs @ concat (map (\<lambda>k. concat (map (\<lambda>l. [(int i * int z + int k, int j * int z + int l, p)]) [0..<z])) [0..<z])\<rparr>)"
    for i j p cs
    by (intro kfor_calls) (simp add: setpixel_def krun)
  have "kfor [0..<320 div z] (\<lambda>i. kfor [0..<200 div z] (\<lambda>j.
        kbind (get_pixel (g_xpos s + int i) (g_ypos s + int j)) (\<lambda>p.
        kfor [0..<z] (\<lambda>k. kfor [0..<z] (\<lambda>l. setpixel (int i * int z + int k) (int j * int z + int l) p)))))
      (s\<lparr>g_calls := g_calls s\<rparr>) = Ok ((), s\<lparr>g_calls := g_calls s @ draw_calls s z\<rparr>)"
    unfolding draw_calls_def square_def
    by (intro kfor_calls) (simp add: kbind_def get_pixel_look [OF assms(1)] sq)
  then show ?thesis using assms(2,3) x by (simp add: draw_def krun Let_def)
qed

lemma in_concat_upt: "x \<in> set (concat (map f [0..<n])) \<longleftrightarrow> (\<exists>i < n. x \<in> set (f i))"
  unfolding set_concat set_map set_upt by fastforce

lemma square_set:
  "set (square s z i j) = {(X, Y, p). int i * int z \<le> X \<and> X < (int i + 1) * int z \<and> int j * int z \<le> Y \<and>
     Y < (int j + 1) * int z \<and> p = look s (g_xpos s + int i) (g_ypos s + int j)}" (is "?L = ?R")
proof
  show "?L \<subseteq> ?R" by (auto simp: square_def algebra_simps)
  show "?R \<subseteq> ?L"
  proof clarify
    fix X Y p assume X: "int i * int z \<le> X" "X < (int i + 1) * int z" "int j * int z \<le> Y" "Y < (int j + 1) * int z"
    let ?k = "nat (X - int i * int z)" and ?l = "nat (Y - int j * int z)"
    have e: "int i * int z + int ?k = X" "int j * int z + int ?l = Y" and "?k < z" "?l < z"
      using X by (auto simp: algebra_simps)
    then have "(int i * int z + int ?k, int j * int z + int ?l, look s (g_xpos s + int i) (g_ypos s + int j)) \<in> ?L"
      unfolding square_def in_concat_upt by (intro exI [of _ ?k] conjI exI [of _ ?l]) simp_all
    then show "(X, Y, look s (g_xpos s + int i) (g_ypos s + int j)) \<in> ?L" unfolding e .
  qed
qed

lemma div_between:
  assumes "0 < (z :: int)"
  shows "i * z \<le> X \<and> X < (i + 1) * z \<longleftrightarrow> X div z = i"
proof
  assume "i * z \<le> X \<and> X < (i + 1) * z"
  then show "X div z = i"
    using assms by (intro int_div_pos_eq [of X z i "X - i * z"]) (auto simp: algebra_simps)
next
  assume "X div z = i"
  then have "X = i * z + X mod z" by (metis div_mult_mod_eq)
  then show "i * z \<le> X \<and> X < (i + 1) * z"
    using pos_mod_bound [OF assms, of X] pos_mod_sign [OF assms, of X] by (simp add: distrib_right)
qed

lemma div_below:
  assumes "0 < (z :: nat)"
  shows "(\<exists>i < n. X div int z = int i) \<longleftrightarrow> 0 \<le> X \<and> X < int (n * z)"
proof
  assume "\<exists>i < n. X div int z = int i"
  then obtain i where i: "i < n" "X div int z = int i" by blast
  then have "int i * int z \<le> X" "X < (int i + 1) * int z"
    using div_between [of "int z" "int i" X] assms by auto
  moreover have "0 \<le> int i * int z" by simp
  moreover have "(int i + 1) * int z \<le> int n * int z" using i(1) by (intro mult_right_mono) auto
  ultimately show "0 \<le> X \<and> X < int (n * z)" unfolding of_nat_mult by linarith
next
  assume X: "0 \<le> X \<and> X < int (n * z)"
  then have "nat X < n * z" by linarith
  then have "nat X div z < n" by (rule less_mult_imp_div_less)
  moreover have "X div int z = int (nat X div z)" using X by (simp add: zdiv_int)
  ultimately show "\<exists>i < n. X div int z = int i" by blast
qed

lemma draw_calls_set:
  assumes "0 < z"
  shows "set (draw_calls s z) = {(X, Y, p). 0 \<le> X \<and> X < int (320 div z * z) \<and> 0 \<le> Y \<and> Y < int (200 div z * z) \<and>
     p = look s (g_xpos s + X div int z) (g_ypos s + Y div int z)}"
proof -
  have sq: "(X, Y, p) \<in> set (square s z i j) \<longleftrightarrow> X div int z = int i \<and> Y div int z = int j \<and>
      p = look s (g_xpos s + int i) (g_ypos s + int j)" for X Y p i j
    using assms div_between [of "int z" "int i" X] div_between [of "int z" "int j" Y] by (auto simp: square_set)
  have "(X, Y, p) \<in> set (draw_calls s z) \<longleftrightarrow> (\<exists>i < 320 div z. X div int z = int i) \<and> (\<exists>j < 200 div z. Y div int z = int j) \<and>
      p = look s (g_xpos s + X div int z) (g_ypos s + Y div int z)" for X Y p
    unfolding draw_calls_def in_concat_upt sq by auto
  then show ?thesis unfolding div_below [OF assms] by (intro set_eqI) (simp add: split_paired_all)
qed

text \<open>
  C10: The screen shows the part of the picture under the view. Drawing an image at a zoom factor
  \<open>z\<close> returns, and the pixels it sets are those of the largest part of the screen that \<open>z\<close> divides: each
  of them gets the color of the picture at its position divided by \<open>z\<close> and moved by the pan, black
  outside the picture. No pixel outside the screen is set.
\<close>

theorem draw_shows:
  assumes "img_ok s" and "g_zoom s = int z" and "0 < z"
  shows "\<exists>calls. draw s = Ok ((), s\<lparr>g_calls := g_calls s @ calls\<rparr>) \<and>
     set calls = {(X, Y, p). 0 \<le> X \<and> X < int (320 div z * z) \<and> 0 \<le> Y \<and> Y < int (200 div z * z) \<and>
       p = look s (g_xpos s + X div int z) (g_ypos s + Y div int z)} \<and>
     (\<forall>(X, Y, p) \<in> set calls. X < WIDTH \<and> Y < HEIGHT)"
proof (intro exI conjI)
  show "draw s = Ok ((), s\<lparr>g_calls := g_calls s @ draw_calls s z\<rparr>)" using assms by (rule draw_run)
  show e: "set (draw_calls s z) = {(X, Y, p). 0 \<le> X \<and> X < int (320 div z * z) \<and> 0 \<le> Y \<and> Y < int (200 div z * z) \<and>
       p = look s (g_xpos s + X div int z) (g_ypos s + Y div int z)}"
    using assms(3) by (rule draw_calls_set)
  have "int (320 div z * z) \<le> 320" "int (200 div z * z) \<le> 200"
    using div_times_less_eq_dividend [of 320 z] div_times_less_eq_dividend [of 200 z] by linarith+
  then show "\<forall>(X, Y, p) \<in> set (draw_calls s z). X < WIDTH \<and> Y < HEIGHT"
    unfolding e by (auto simp: WIDTH_def HEIGHT_def)
qed

theorem draw_shows_witness:
  "\<exists>t. draw (gal2x1\<lparr>g_zoom := 100\<rparr>) = Ok ((), t) \<and>
     (150, 20, \<lparr>px_b = 4, px_g = 5, px_r = 6\<rparr>) \<in> set (g_calls t) \<and> (150, 120, black) \<in> set (g_calls t)"
proof -
  let ?s = "gal2x1\<lparr>g_zoom := 100\<rparr>"
  have "img_ok ?s" "g_zoom ?s = int 100" "0 < (100 :: nat)" by (simp_all add: img_ok_def gal2x1_def gal0_def)
  from draw_shows [OF this] obtain calls where c: "draw ?s = Ok ((), ?s\<lparr>g_calls := g_calls ?s @ calls\<rparr>)"
    "set calls = {(X, Y, p). 0 \<le> X \<and> X < int (320 div 100 * 100) \<and> 0 \<le> Y \<and> Y < int (200 div 100 * 100) \<and>
       p = look ?s (g_xpos ?s + X div int 100) (g_ypos ?s + Y div int 100)}" by blast
  have "look ?s 1 0 = \<lparr>px_b = 4, px_g = 5, px_r = 6\<rparr>" "look ?s 1 1 = black"
    by (simp_all add: look_def outside_def pix_def px_addr_def px_at_def gal2x1_def gal0_def)
  then show ?thesis unfolding c(1) using c(2) by (simp add: gal2x1_def gal0_def)
qed

end
