(* ===== verification/Screen.thy ===== *)
theory Screen
  imports Gallery Page_Table
begin

text \<open>
  What the user sees: the system call \<^verbatim>\<open>setpixel\<close> from the registers of the program to the frame
  buffer, the colors that the palette of \<^verbatim>\<open>kernel/vga.c\<close> gives to its bytes, and the image viewer on
  top of both.
\<close>

section \<open>The frame buffer\<close>

text \<open>The byte of a pixel of the screen.\<close>

definition cell :: "int \<Rightarrow> int \<Rightarrow> uint64" where
  "cell x y = FRAMEBUFFER + word_of_int (WIDTH * y + x)"

abbreviation on_screen :: "int \<Rightarrow> int \<Rightarrow> bool" where
  "on_screen x y \<equiv> 0 \<le> x \<and> x < WIDTH \<and> 0 \<le> y \<and> y < HEIGHT"

lemma uint_cell: "on_screen x y \<Longrightarrow> uint (cell x y) = 0x40000000 + WIDTH * y + x"
  unfolding cell_def FRAMEBUFFER_def WIDTH_def HEIGHT_def
  by (simp add: uint_word_ariths uint_word_of_int)

lemma cell_inj: "on_screen x y \<Longrightarrow> on_screen x' y' \<Longrightarrow> cell x y = cell x' y' \<longleftrightarrow> x = x' \<and> y = y'"
proof -
  assume a: "on_screen x y" "on_screen x' y'"
  have "cell x y = cell x' y' \<longleftrightarrow> uint (cell x y) = uint (cell x' y')" by (rule word_uint_eq_iff)
  also have "\<dots> \<longleftrightarrow> WIDTH * y + x = WIDTH * y' + x'" using a by (simp add: uint_cell)
  also have "\<dots> \<longleftrightarrow> x = x' \<and> y = y'"
  proof
    have d: "(WIDTH * y + x) div WIDTH = y" if "0 \<le> x" "x < WIDTH" for x y
      using that by (simp add: WIDTH_def div_pos_pos_trivial)
    assume e: "WIDTH * y + x = WIDTH * y' + x'"
    then have "y = y'" using a d [of x y] d [of x' y'] by simp
    with e show "x = x' \<and> y = y'" by simp
  qed simp
  finally show ?thesis .
qed

section \<open>The system call\<close>

definition tframe :: "'a kst_scheme \<Rightarrow> uint64" where
  "tframe s = p_trapframe (ptable s (me s))"

text \<open>The integer arguments, in registers \<open>a0\<close> and following.\<close>

definition iarg :: "'a kst_scheme \<Rightarrow> nat \<Rightarrow> int" where
  "iarg s n = sint (ucast (rd64 (mem s) (slot (tframe s) (14 + n))) :: uint32)"

lemma arg_reg_off: "n < 6 \<Longrightarrow> tf_off (the (arg_reg n)) = 8 * of_nat (14 + n)"
proof -
  assume "n < 6"
  then consider "n = 0" | "n = 1" | "n = 2" | "n = 3" | "n = 4" | "n = 5" by linarith
  then show ?thesis by cases simp_all
qed

lemma argint_run:
  "running s \<Longrightarrow> n < 6 \<Longrightarrow> kbind (argint n) f s = f (ucast (rd64 (mem s) (slot (tframe s) (14 + n)))) s"
  using arg_reg_off [of n]
  by (simp add: argint_def argraw_def krun tf_get_def ld64_def tframe_def slot_def)

lemma sys_setpixel_run:
  assumes "running s" and "on_screen (iarg s 0) (iarg s 1)"
  shows "sys_setpixel s = Ok (Some 0, s\<lparr>mem := (mem s)
    (cell (iarg s 0) (iarg s 1) := color_index (iarg s 2) (iarg s 3) (iarg s 4))\<rparr>)"
proof -
  have "\<not> (iarg s 0 < 0 \<or> iarg s 1 < 0 \<or> iarg s 0 \<ge> WIDTH \<or> iarg s 1 \<ge> HEIGHT)" using assms(2) by linarith
  moreover have a: "kbind (argint n) f s = f (ucast (rd64 (mem s) (slot (tframe s) (14 + n)))) s" if "n < 6" for n f
    using assms(1) that by (rule argint_run)
  ultimately show ?thesis
    unfolding sys_setpixel_def iarg_def cell_def by (simp only: a if_False) (simp add: a mstore_def krun)
qed

section \<open>Colors\<close>

text \<open>The six-bit levels of red, green and blue that the display shows for a byte.\<close>

definition levels :: "int \<Rightarrow> int \<Rightarrow> int \<Rightarrow> uchar list" where
  "levels r g b = [word_of_int (16 * (r div 64)), word_of_int (8 * (g div 32)), word_of_int (16 * (b div 64))]"

lemma color_split: "G < 8 \<Longrightarrow> B < 4 \<Longrightarrow> color (64 * R + 4 * G + B) = [of_nat (16 * R), of_nat (8 * G), of_nat (16 * B)]"
proof -
  assume b: "G < 8" "B < 4"
  have "(64 * R + 4 * G + B) div 32 = 2 * R" by (rule div_nat_eqI) (use b in simp_all)
  moreover have "(64 * R + 4 * G + B) div 4 = 16 * R + G" by (rule div_nat_eqI) (use b in simp_all)
  moreover have "(8 * (2 * R) + G) mod 8 = G" "(4 * (16 * R + G) + B) mod 4 = B"
    unfolding mod_mult_self4 using b by simp_all
  ultimately show ?thesis by (simp add: color_def algebra_simps)
qed

lemma color_index_sum:
  assumes "0 \<le> r" "0 \<le> g" "0 \<le> b"
  shows "color_index r g b = word_of_int (64 * (r div 64) + 4 * (g div 32) + b div 64)"
proof -
  have c: "c_div a n = a div n" "c_mod a n = a mod n" if "0 \<le> a" "0 < n" for a n
    using that by (auto simp: c_div_def c_mod_def sgn_if minus_div_mult_eq_mod)
  have "g div 8 - g div 8 mod 4 = 4 * (g div 8 div 4)" by (simp add: minus_mod_eq_mult_div)
  also have "g div 8 div 4 = g div 32" by (simp add: div_mult2_eq [symmetric])
  finally have "r - r mod 64 + (g div 8 - g div 8 mod 4) + b div 64 = 64 * (r div 64) + 4 * (g div 32) + b div 64"
    by (simp only: minus_mod_eq_mult_div)
  then show ?thesis using assms
    by (simp only: color_index_def Let_def c pos_imp_zdiv_nonneg_iff zero_less_numeral)
qed

lemma color_index_levels:
  assumes "0 \<le> r" "r < 256" "0 \<le> g" "g < 256" "0 \<le> b" "b < 256"
  shows "color (unat (color_index r g b)) = levels r g b"
proof -
  define R G B where "R = nat (r div 64)" and "G = nat (g div 32)" and "B = nat (b div 64)"
  have d: "r div 64 = int R" "g div 32 = int G" "b div 64 = int B" and l: "R < 4" "G < 8" "B < 4"
    using assms by (auto simp: R_def G_def B_def pos_imp_zdiv_nonneg_iff)
  have "64 * int R + 4 * int G + int B = int (64 * R + 4 * G + B)" by simp
  then have "color_index r g b = of_nat (64 * R + 4 * G + B)"
    using assms by (simp only: color_index_sum d of_int_of_nat_eq)
  moreover have "64 * R + 4 * G + B < 2 ^ LENGTH(8)" using l by simp
  ultimately have "unat (color_index r g b) = 64 * R + 4 * G + B" by (simp only: unsigned_of_nat take_bit_nat_eq_self of_nat_id)
  then show ?thesis using color_split [OF l(2,3), of R] by (simp add: levels_def d)
qed

section \<open>Calls of the program\<close>

text \<open>
  The system call stub (\<^verbatim>\<open>user/usys.pl\<close>): the arguments and the number of the call are in registers,
  which the trap saves in the trap frame; \<open>syscall\<close> follows.
\<close>

definition call_setpixel :: "int \<times> int \<times> Pixel \<Rightarrow> ('a kst_scheme, bool) kop" where
  "call_setpixel c = (case c of (x, y, p) \<Rightarrow>
     kbind myproc (\<lambda>q.
     kthen (tf_set q TF_a0 (word_of_int x))
     (kthen (tf_set q TF_a1 (word_of_int y))
     (kthen (tf_set q TF_a2 (ucast (px_r p)))
     (kthen (tf_set q TF_a3 (ucast (px_g p)))
     (kthen (tf_set q TF_a4 (ucast (px_b p)))
     (kthen (tf_set q TF_a7 (word_of_int SYS_setpixel))
            syscall)))))))"

lemma frame_mem [simp]: "running (s\<lparr>mem := m\<rparr>) = running s" "me (s\<lparr>mem := m\<rparr>) = me s" "tframe (s\<lparr>mem := m\<rparr>) = tframe s"
  by (simp_all add: running_def me_def tframe_def)

lemma syscalls_setpixel: "syscalls SYS_setpixel = Some sys_setpixel"
  by (simp add: syscalls_def SYS_fork_def SYS_exit_def SYS_wait_def SYS_pipe_def SYS_read_def SYS_kill_def
    SYS_exec_def SYS_fstat_def SYS_chdir_def SYS_dup_def SYS_getpid_def SYS_sbrk_def SYS_sleep_def
    SYS_uptime_def SYS_open_def SYS_write_def SYS_mknod_def SYS_unlink_def SYS_link_def SYS_mkdir_def
    SYS_close_def SYS_setpixel_def)

text \<open>The registers as the kernel finds them.\<close>

definition with_args :: "uint64 \<Rightarrow> int \<times> int \<times> Pixel \<Rightarrow> memory \<Rightarrow> memory" where
  "with_args tf c m = (case c of (x, y, p) \<Rightarrow>
     wr64 (wr64 (wr64 (wr64 (wr64 (wr64 m (slot tf 14) (word_of_int x)) (slot tf 15) (word_of_int y))
       (slot tf 16) (ucast (px_r p))) (slot tf 17) (ucast (px_g p))) (slot tf 18) (ucast (px_b p)))
       (slot tf 21) (word_of_int SYS_setpixel))"

lemma sint_of_word_of_int:
  "- (2 ^ 31) \<le> x \<Longrightarrow> x < 2 ^ 31 \<Longrightarrow> sint (ucast (word_of_int x :: uint64) :: uint32) = x"
  by (simp add: unsigned_of_int signed_of_int signed_take_bit_take_bit signed_take_bit_int_eq_self)

lemma sint_of_uchar: "sint (ucast (ucast (c :: uchar) :: uint64) :: uint32) = uint c"
proof -
  have "uint c < 256" using uint_lt2p [of c] by simp
  then have "uint c < 2 ^ 31" by (rule less_trans) simp
  moreover have "- (2 ^ 31) \<le> uint c" by (rule order_trans [of _ 0]) simp_all
  ultimately have "- (2 ^ 31) \<le> uint c" and "uint c < 2 ^ 31" by blast+
  from sint_of_word_of_int [OF this] show ?thesis by simp
qed

lemma with_args_iarg:
  fixes s :: "'a kst_scheme" and p :: Pixel
  assumes "running s" and "on_screen x y"
  defines "t \<equiv> s\<lparr>mem := with_args (tframe s) (x, y, p) (mem s)\<rparr>"
  shows "iarg t 0 = x" "iarg t 1 = y" "iarg t 2 = uint (px_r p)" "iarg t 3 = uint (px_g p)" "iarg t 4 = uint (px_b p)"
    "rd64 (mem t) (slot (tframe t) 21) = word_of_int SYS_setpixel"
  using assms(2) by (simp_all add: t_def iarg_def with_args_def rd64_wr64_word sint_of_word_of_int sint_of_uchar WIDTH_def HEIGHT_def)

lemma syscall_run:
  assumes "running s" and "rd64 (mem s) (slot (tframe s) 21) = word_of_int n" and "0 \<le> n" "n < 2 ^ 31" and "syscalls n = Some f"
  shows "syscall s = kbind f (\<lambda>v. case v of Some v \<Rightarrow> kthen (tf_set (me s) TF_a0 v) (kret True) | None \<Rightarrow> kret False) s"
proof -
  have "sint (ucast (word_of_int n :: uint64) :: uint32) = n" using assms(3,4) by (intro sint_of_word_of_int) auto
  then show ?thesis
    using assms by (simp add: syscall_def krun tf_get_def ld64_def tframe_def slot_def Let_def)
qed

lemma call_setpixel_run:
  fixes s :: "'a kst_scheme" and p :: Pixel
  assumes "running s" and "on_screen x y"
  defines "m \<equiv> with_args (tframe s) (x, y, p) (mem s)"
  shows "call_setpixel (x, y, p) s = Ok (True, s\<lparr>mem := wr64
    (m(cell x y := color_index (uint (px_r p)) (uint (px_g p)) (uint (px_b p)))) (slot (tframe s) 14) 0\<rparr>)"
proof -
  let ?t = "s\<lparr>mem := m\<rparr>"
  have a: "iarg ?t 0 = x" "iarg ?t 1 = y" "iarg ?t 2 = uint (px_r p)" "iarg ?t 3 = uint (px_g p)" "iarg ?t 4 = uint (px_b p)"
    "rd64 (mem ?t) (slot (tframe ?t) 21) = word_of_int SYS_setpixel"
    unfolding m_def using with_args_iarg [OF assms(1,2), of p] by blast+
  have "call_setpixel (x, y, p) s = syscall ?t"
    using assms(1) by (simp add: call_setpixel_def krun tf_set_def st64_def with_args_def m_def tframe_def slot_def)
  also have "\<dots> = kbind sys_setpixel (\<lambda>v. case v of Some v \<Rightarrow> kthen (tf_set (me s) TF_a0 v) (kret True) | None \<Rightarrow> kret False) ?t"
    using syscall_run [of ?t SYS_setpixel, OF _ a(6) _ _ syscalls_setpixel] assms(1) by (simp add: SYS_setpixel_def)
  also have "\<dots> = Ok (True, s\<lparr>mem := wr64
    (m(cell x y := color_index (uint (px_r p)) (uint (px_g p)) (uint (px_b p)))) (slot (tframe s) 14) 0\<rparr>)"
  proof -
    have "sys_setpixel ?t = Ok (Some 0, ?t\<lparr>mem := m(cell x y := color_index (uint (px_r p)) (uint (px_g p)) (uint (px_b p)))\<rparr>)"
      using sys_setpixel_run [of ?t] assms(1,2) unfolding a(1-5) by simp
    then show ?thesis using assms(1) by (simp add: kbind_Ok krun tf_set_def st64_def tframe_def slot_def)
  qed
  finally show ?thesis .
qed

text \<open>The byte for a pixel; the trap frame is a page of RAM, which the frame buffer is not part of.\<close>

definition px_index :: "Pixel \<Rightarrow> uchar" where
  "px_index p = color_index (uint (px_r p)) (uint (px_g p)) (uint (px_b p))"

text \<open>The levels of red, green and blue that the display shows for it.\<close>

definition px_levels :: "Pixel \<Rightarrow> uchar list" where
  "px_levels p = levels (uint (px_r p)) (uint (px_g p)) (uint (px_b p))"

lemma px_levels_black: "px_levels black = [0, 0, 0]"
  by (simp add: px_levels_def levels_def black_def)

lemma uint_uchar_less: "uint (c :: uchar) < 256"
  using uint_lt2p [of c] by simp

lemma shown_index: "dac pal i [] (vgainit rd) (unat (px_index p)) = px_levels p"
proof -
  have "unat (px_index p) < 256" by (rule order_less_le_trans [OF unsigned_less]) simp
  then show ?thesis
    by (simp add: vgainit_palette px_index_def px_levels_def color_index_levels uint_uchar_less)
qed

lemma cell_not_in_frame:
  assumes "vpage KERNBASE tf" and "on_screen x y"
  shows "\<not> in_page tf (cell x y)"
proof -
  have c: "uint (cell x y) < 0x80000000"
    using assms(2) unfolding uint_cell [OF assms(2)] WIDTH_def HEIGHT_def by linarith
  have t: "0x80000000 \<le> uint tf" "uint tf < 0x88000000"
    using assms(1) by (simp_all add: vpage_def KERNBASE_def PHYSTOP_def word_le_def word_less_def)
  have "uint (cell x y - tf) = uint (cell x y) - uint tf + 0x10000000000000000"
    using c t uint_sub_if' [of "cell x y" tf] by simp
  then have "4096 \<le> uint (cell x y - tf)" using t uint_ge_0 [of "cell x y"] by linarith
  then show ?thesis using uint_nat [of "cell x y - tf"] unfolding in_page_def by linarith
qed

lemma call_setpixel_effect:
  fixes s :: "'a kst_scheme"
  assumes "running s" and "vpage KERNBASE (tframe s)" and "on_screen x y"
  shows "\<exists>m. call_setpixel (x, y, p) s = Ok (True, s\<lparr>mem := m\<rparr>) \<and> m (cell x y) = px_index p \<and>
    (\<forall>a. \<not> in_page (tframe s) a \<longrightarrow> a \<noteq> cell x y \<longrightarrow> m a = mem s a)"
proof (intro exI conjI)
  show "call_setpixel (x, y, p) s = Ok (True, s\<lparr>mem := wr64 ((with_args (tframe s) (x, y, p) (mem s))
    (cell x y := px_index p)) (slot (tframe s) 14) 0\<rparr>)"
    unfolding px_index_def using assms(1,3) by (rule call_setpixel_run)
  show "wr64 ((with_args (tframe s) (x, y, p) (mem s)) (cell x y := px_index p)) (slot (tframe s) 14) 0 (cell x y) = px_index p"
    using cell_not_in_frame [OF assms(2,3)] by (simp add: wr64_slot_frame)
  show "\<forall>a. \<not> in_page (tframe s) a \<longrightarrow> a \<noteq> cell x y \<longrightarrow>
    wr64 ((with_args (tframe s) (x, y, p) (mem s)) (cell x y := px_index p)) (slot (tframe s) 14) 0 a = mem s a"
    by (simp add: wr64_slot_frame with_args_def)
qed

lemma calls_on_screen:
  fixes s :: "'a kst_scheme"
  assumes "running s" and "vpage KERNBASE (tframe s)" and "\<forall>(x, y, p) \<in> set cs. on_screen x y \<and> p = f x y"
  shows "\<exists>m. kfor cs (\<lambda>c. kthen (call_setpixel c) (kret ())) s = Ok ((), s\<lparr>mem := m\<rparr>) \<and>
    (\<forall>(x, y, p) \<in> set cs. m (cell x y) = px_index p) \<and>
    (\<forall>a. \<not> in_page (tframe s) a \<longrightarrow> a \<notin> {cell x y |x y p. (x, y, p) \<in> set cs} \<longrightarrow> m a = mem s a)"
  using assms
proof (induction cs arbitrary: s)
  case Nil
  show ?case by (rule exI [of _ "mem s"]) (simp add: krun)
next
  case (Cons c cs)
  obtain x y p where c: "c = (x, y, p)" by (cases c)
  with Cons.prems have o: "on_screen x y" and p: "p = f x y" by auto
  obtain m where m: "call_setpixel c s = Ok (True, s\<lparr>mem := m\<rparr>)" "m (cell x y) = px_index p"
    "\<forall>a. \<not> in_page (tframe s) a \<longrightarrow> a \<noteq> cell x y \<longrightarrow> m a = mem s a"
    using call_setpixel_effect [OF Cons.prems(1,2) o, of p] unfolding c by blast
  obtain m' where m': "kfor cs (\<lambda>c. kthen (call_setpixel c) (kret ())) (s\<lparr>mem := m\<rparr>) = Ok ((), s\<lparr>mem := m'\<rparr>)"
    "\<forall>(x, y, p) \<in> set cs. m' (cell x y) = px_index p"
    "\<forall>a. \<not> in_page (tframe s) a \<longrightarrow> a \<notin> {cell x y |x y p. (x, y, p) \<in> set cs} \<longrightarrow> m' a = m a"
    using Cons.IH [of "s\<lparr>mem := m\<rparr>"] Cons.prems by auto
  have "m' (cell x y) = px_index p"
  proof (cases "\<exists>q. (x, y, q) \<in> set cs")
    case True
    then obtain q where "(x, y, q) \<in> set cs" ..
    then show ?thesis using m'(2) Cons.prems(3) p by fastforce
  next
    case False
    then have "cell x y \<notin> {cell x y |x y p. (x, y, p) \<in> set cs}"
      using Cons.prems(3) cell_inj [OF o] by fastforce
    then show ?thesis using m'(3) m(2) cell_not_in_frame [OF Cons.prems(2) o] by simp
  qed
  moreover have "kfor (c # cs) (\<lambda>c. kthen (call_setpixel c) (kret ())) s = Ok ((), s\<lparr>mem := m'\<rparr>)"
    using m(1) m'(1) by (simp add: kthen_Ok krun kthen_def kbind_def)
  moreover have "m' a = mem s a" if "\<not> in_page (tframe s) a" "a \<notin> {cell x y |x y p. (x, y, p) \<in> set (c # cs)}" for a
  proof -
    have "a \<noteq> cell x y" "a \<notin> {cell x y |x y p. (x, y, p) \<in> set cs}" using that(2) unfolding c by auto
    then show ?thesis using m(3) m'(3) that(1) by simp
  qed
  ultimately show ?case using m'(2) unfolding c by (intro exI [of _ m']) auto
qed

section \<open>The image viewer on the screen\<close>

lemma imgread_draw:
  assumes "length hd_bytes = 54" and "get32 hd_bytes 18 = of_nat w" and "get32 hd_bytes 22 = of_nat h"
    and "w < 2 ^ 31" and "h < 2 ^ 31" and "w * h * 3 < 2 ^ 31"
    and "\<forall>y. length (pad y) = bmp_pad w"
    and "g_fds s < NOFILE" and "length (g_hdr s) = 54" and "length (g_heap s) + 6 * (w * h) \<le> g_limit s"
    and "g_xpos s = 0" "g_ypos s = 0" "g_zoom s = 1" "g_calls s = []"
  shows "\<exists>t. kthen (imgread (Some (hd_bytes @ bmp_rows w h img pad))) draw s = Ok ((), t) \<and>
    set (g_calls t) = {(x, y, p). on_screen x y \<and> p = (if x < int w \<and> y < int h then img (nat x, nat y) else black)}"
proof -
  obtain t where t: "imgread (Some (hd_bytes @ bmp_rows w h img pad)) s = Ok ((), t)" "img_ok t"
    "g_width t = int w" "g_height t = int h" "\<forall>x y. x < w \<longrightarrow> y < h \<longrightarrow> pix t (x, y) = img (x, y)"
    "g_xpos t = 0" "g_ypos t = 0" "g_zoom t = 1" "g_calls t = []"
    using imgread_wp [OF assms(1-10), of img] assms(11-14) by (auto simp: wp_iff)
  have "draw t = Ok ((), t\<lparr>g_calls := g_calls t @ draw_calls t 1\<rparr>)" using t by (intro draw_run) simp_all
  moreover have l: "look t x y = (if x < int w \<and> y < int h then img (nat x, nat y) else black)" if "0 \<le> x" "0 \<le> y" for x y
    using t(3-5) that by (auto simp: look_def outside_def)
  have "set (draw_calls t 1) = {(x, y, p). on_screen x y \<and> p = (if x < int w \<and> y < int h then img (nat x, nat y) else black)}"
    unfolding draw_calls_set [OF zero_less_one] using t(6,7) by (auto simp: WIDTH_def HEIGHT_def l)
  ultimately show ?thesis using t(1,9) by (auto simp: kthen_Ok)
qed

text \<open>A kernel with zeroed tables in which process 0 runs on CPU 0.\<close>

definition kst0 :: kst where
  "kst0 = \<lparr>mem = (\<lambda>_. 0), freelist = 0, kend = 0x80021E40, kernel_pagetable = 0, satp = 0,
     ptable = (\<lambda>p. if p = 0 then proc0\<lparr>p_state := RUNNING, p_pid := 1, p_trapframe := 0x87F00000\<rparr> else proc0),
     initproc = Some 0, nextpid = 2, cpu_proc = (\<lambda>c. if c = 0 then Some 0 else None), hart = 0,
     bufs = (\<lambda>_. buf0), dsk = (\<lambda>_. replicate BSIZE 0), dwrites = [],
     l_start = 2, l_size = 30, l_outstanding = 0, l_committing = 0, l_dev = 1, lh_n = 0, lh_block = replicate 30 0,
     sb = \<lparr>sb_magic = 0x10203040, sb_size = 1000, sb_nblocks = 954, sb_ninodes = 200, sb_nlog = 30,
       sb_logstart = 2, sb_inodestart = 32, sb_bmapstart = 45\<rparr>,
     inodes = (\<lambda>_. \<lparr>i_dev = 0, i_inum = 0, i_ref = 0, i_lock = \<lparr>sl_locked = 0, sl_pid = 0\<rparr>, i_valid = 0, i_type = 0,
       i_major = 0, i_minor = 0, i_nlink = 0, i_size = 0, i_addrs = replicate 13 0\<rparr>),
     dev_uart = \<lparr>u_rx = [], u_room = 1, u_out = [], u_setup = [], tx_buf = replicate 32 0, tx_w = 0, tx_r = 0\<rparr>,
     dev_cons = \<lparr>c_buf = replicate 128 0, c_r = 0, c_w = 0, c_e = 0\<rparr>,
     dev_msgs = \<lparr>msgqueue = replicate 128 0, listening = 0, qfront = 0, qback = 0\<rparr>, ticks = 0,
     ftable = (\<lambda>_. \<lparr>f_type = FD_NONE, f_ref = 0, f_readable = False, f_writable = False, f_pipe = 0, f_ip = 0,
       f_off = 0, f_major = 0\<rparr>),
     pipes = (\<lambda>_. \<lparr>pi_data = replicate PIPESIZE 0, pi_nread = 0, pi_nwrite = 0, pi_readopen = 0, pi_writeopen = 0\<rparr>),
     syms = \<lparr>sym_trampoline = 0x80007000, sym_uservec = 0x80007000, sym_userret = 0x80007090, sym_forkret = 0x80001a00,
       sym_usertrap = 0x80002700, sym_kernelvec = 0x80005b00\<rparr>,
     forkret_first = 1\<rparr>"

lemma kst0_facts: "running kst0" "vpage KERNBASE (tframe kst0)"
  by (simp_all add: kst0_def running_def me_def tframe_def vpage_def KERNBASE_def PHYSTOP_def pg_aligned_def PGSIZE_def)

end
