(* ===== verification/Spec2Isabelle.thy ===== *)
theory Spec2Isabelle
  imports Spinlock Trap Asm Screen
begin

text \<open>
  Verification of the xv6 kernel for RISC-V with a VGA display, a keyboard message queue and an
  image viewer that uses both.

  \<^bold>\<open>The program.\<close> A kernel (\<^verbatim>\<open>src/kernel\<close>) runs user programs (\<^verbatim>\<open>src/user\<close>) on several CPUs.
  Physical pages come from one allocator; page tables are built from them; the process table and
  the scheduler decide what runs; traps and system calls enter the kernel. Files are kept on a
  disk behind a driver, a cache of blocks and a log that makes groups of writes atomic. Keys
  reach programs through the console, which edits lines, or through a queue of messages, which
  the image viewer listens to; it draws with a system call that writes to the frame buffer.

  \<^bold>\<open>The style of the model.\<close> An operation of the kernel is a function from a state to a result
  (theory \<open>Prelude\<close>): a value and a new state, a panic with its message, a process that goes to
  sleep on a channel, or a fault, which is an access that the C program must not make (an index
  outside an array, a division by zero, an overflow of a signed number). Each global of the
  source is a field of a record. The records extend each other in the order in which the
  components call each other, and an operation is polymorphic in what extends its own layer:
  \<open>kmem\<close> (allocator, memory), \<open>vmst\<close> (kernel page table), \<open>ptab\<close> (processes), \<open>bio\<close> (cache and
  disk), \<open>logst\<close>, \<open>fsst\<close>, \<open>devst\<close> (UART and console), \<open>filest\<close> (open files and pipes), \<open>kst\<close> (linker
  symbols), \<open>vdst\<close> (disk driver) and \<open>trapst\<close> (control registers). Integers have the width they
  have in C; arithmetic wraps where the C type is unsigned. A spin lock that is held from the
  first to the last access of an operation makes the operation one step, so its acquire and
  release are not repeated in the model of the operation; the locks themselves are verified in
  \<open>Spinlock\<close>. Where the code can sleep and go on later, its loop returns how far it came.

  \<^bold>\<open>Theories and sources.\<close>

    \<^item> \<open>Prelude\<close>: results, operations and their weakest preconditions, loops, generic lemmas.
      \<open>Bytes\<close>: integers in byte arrays. \<open>Ring\<close>: buffers with free-running indices and the locale
      \<open>bounded_queue\<close>.
    \<^item> \<open>Riscv\<close>: macros of \<^verbatim>\<open>riscv.h\<close>, \<^verbatim>\<open>memlayout.h\<close>. Rounding to pages and the fields of a page
      table entry are correct on all words.
    \<^item> \<open>KString\<close>: \<^verbatim>\<open>string.c\<close> on byte-addressed memory. Each function does what its C contract says,
      \<open>memmove\<close> also when the regions overlap.
    \<^item> \<open>Kalloc\<close>: \<^verbatim>\<open>kalloc.c\<close>, a free list linked through the free pages. The pages are the ones between
      \<^verbatim>\<open>end\<close> and \<^verbatim>\<open>PHYSTOP\<close>, each is handed out at most once, and freed pages come back. The contract is
      the locale \<open>page_allocator\<close>, interpreted on \<open>kalloc\<close> and \<open>kfree\<close>.
    \<^item> \<open>Vm\<close>, \<open>Page_Table\<close>: \<^verbatim>\<open>vm.c\<close>, and the tree that a table in memory represents. \<open>mappages\<close> maps
      exactly its range, and fails only when no page is left.
    \<^item> \<open>Spinlock\<close>: \<^verbatim>\<open>spinlock.c\<close> as an interleaving of the atomic steps of all CPUs. At most one CPU is
      between \<open>acquire\<close> and \<open>release\<close>, and a holder can always release.
    \<^item> \<open>Proc_Table\<close>, \<open>Proc\<close>: \<^verbatim>\<open>proc.c\<close>. No process runs on two CPUs; a wakeup that follows the test of
      the condition is not lost; \<open>kill\<close> reaches the process.
    \<^item> \<open>Sleeplock\<close>: \<^verbatim>\<open>sleeplock.c\<close>, over any place that holds such a lock.
    \<^item> \<open>Bio\<close>: \<^verbatim>\<open>bio.c\<close>, the doubly linked list in order of use. \<open>binit\<close> establishes the invariant,
      and \<open>bread\<close> returns the current contents of the block in a buffer the caller has locked. The
      locale \<open>block_cache\<close> is the contract; the log relies on its interpretation.
    \<^item> \<open>Log\<close>: \<^verbatim>\<open>log.c\<close>. A crash after any number of the disk writes of a commit, followed by any
      number of interrupted recoveries, leaves all or none of a transaction.
    \<^item> \<open>Fs\<close>: \<^verbatim>\<open>fs.c\<close>; \<open>File\<close>: \<^verbatim>\<open>file.c\<close> and \<^verbatim>\<open>pipe.c\<close>; \<open>Exec\<close>: \<^verbatim>\<open>exec.c\<close> and the arguments of system
      calls; \<open>Sysfile\<close>: \<^verbatim>\<open>sysfile.c\<close>; \<open>Sysproc\<close>: \<^verbatim>\<open>sysproc.c\<close> and the dispatcher of \<^verbatim>\<open>syscall.c\<close>.
    \<^item> \<open>Printf\<close>: \<^verbatim>\<open>printf.c\<close> of the kernel and of the user library. \<open>Console\<close>: \<^verbatim>\<open>uart.c\<close> and
      \<^verbatim>\<open>console.c\<close>; the editing of a line refines a specification on lists.
    \<^item> \<open>Msg\<close>: \<^verbatim>\<open>msg.c\<close> and its system calls. The ring is the queue of the last 127 keys; the locale
      is \<open>lossy_queue\<close>.
    \<^item> \<open>Virtio\<close>: \<^verbatim>\<open>virtio_disk.c\<close>. \<open>Vga\<close>: \<^verbatim>\<open>vga.c\<close> and \<^verbatim>\<open>pci.c\<close> as the sequence of their writes; the
      palette is the one that the colors of \<open>sys_setpixel\<close> assume.
    \<^item> \<open>Trap\<close>: \<^verbatim>\<open>trap.c\<close>, \<^verbatim>\<open>plic.c\<close>, \<^verbatim>\<open>start.c\<close>, \<^verbatim>\<open>main.c\<close>. \<open>Asm\<close>: the assembly of \<^verbatim>\<open>trampoline.S\<close>,
      \<^verbatim>\<open>kernelvec.S\<close> and \<^verbatim>\<open>swtch.S\<close>, instruction by instruction: a trap and the return from it keep the
      user's registers, a switched thread resumes with its own.
    \<^item> \<open>Gallery\<close>: \<^verbatim>\<open>user/gallery.c\<close>. A bitmap is decoded to its pixels, the flips mirror it, the screen
      shows the selected part; the rotation writes behind its buffer.
\<close>

text \<open>
  C1: The picture of the file appears on the screen. The viewer reads any well-formed bitmap for
  which it has memory and draws it; the calls of \<^verbatim>\<open>setpixel\<close> it makes pass through the trap frame,
  the dispatcher of system calls and \<open>sys_setpixel\<close> into the frame buffer. With the palette of
  \<open>vgainit\<close>, every pixel of the 320x200 screen then shows the pixel of the picture at its place in
  the levels the palette has (four of red, eight of green and four of blue), and black outside
  the picture; no other memory than the frame buffer and the trap frame of the process changes.
\<close>

theorem picture_on_screen:
  fixes k :: kst
  assumes "length hd_bytes = 54" and "get32 hd_bytes 18 = of_nat w" and "get32 hd_bytes 22 = of_nat h"
    and "w < 2 ^ 31" and "h < 2 ^ 31" and "w * h * 3 < 2 ^ 31"
    and "\<forall>y. length (pad y) = bmp_pad w"
    and "g_fds s < NOFILE" and "length (g_hdr s) = 54" and "length (g_heap s) + 6 * (w * h) \<le> g_limit s"
    and "g_xpos s = 0" and "g_ypos s = 0" and "g_zoom s = 1" and "g_calls s = []"
    and "running k" and "vpage KERNBASE (tframe k)"
  shows "\<exists>t m. kthen (imgread (Some (hd_bytes @ bmp_rows w h img pad))) draw s = Ok ((), t) \<and>
    kfor (g_calls t) (\<lambda>c. kthen (call_setpixel c) (kret ())) k = Ok ((), k\<lparr>mem := m\<rparr>) \<and>
    (\<forall>x y. on_screen x y \<longrightarrow> dac pal i [] (vgainit rd) (unat (m (cell x y))) =
       (if x < int w \<and> y < int h then px_levels (img (nat x, nat y)) else [0, 0, 0])) \<and>
    (\<forall>a. \<not> in_page (tframe k) a \<longrightarrow> a \<notin> {cell x y |x y. on_screen x y} \<longrightarrow> m a = mem k a)"
proof -
  let ?f = "\<lambda>x y. if x < int w \<and> y < int h then img (nat x, nat y) else black"
  obtain t where t: "kthen (imgread (Some (hd_bytes @ bmp_rows w h img pad))) draw s = Ok ((), t)"
    and c: "set (g_calls t) = {(x, y, p). on_screen x y \<and> p = ?f x y}"
    using imgread_draw [OF assms(1-14), of img] by blast
  have "\<forall>(x, y, p) \<in> set (g_calls t). on_screen x y \<and> p = ?f x y" unfolding c by blast
  from calls_on_screen [OF assms(15,16) this] obtain m where
    m: "kfor (g_calls t) (\<lambda>c. kthen (call_setpixel c) (kret ())) k = Ok ((), k\<lparr>mem := m\<rparr>)"
      "\<forall>(x, y, p) \<in> set (g_calls t). m (cell x y) = px_index p"
      "\<forall>a. \<not> in_page (tframe k) a \<longrightarrow> a \<notin> {cell x y |x y p. (x, y, p) \<in> set (g_calls t)} \<longrightarrow> m a = mem k a" by blast
  have "m (cell x y) = px_index (?f x y)" if "on_screen x y" for x y using m(2) that unfolding c by blast
  then have "dac pal i [] (vgainit rd) (unat (m (cell x y))) = px_levels (?f x y)" if "on_screen x y" for x y
    using that by (simp add: shown_index)
  then have sh: "dac pal i [] (vgainit rd) (unat (m (cell x y))) =
      (if x < int w \<and> y < int h then px_levels (img (nat x, nat y)) else [0, 0, 0])" if "on_screen x y" for x y
    using that px_levels_black by simp
  have "{cell x y |x y p. (x, y, p) \<in> set (g_calls t)} \<subseteq> {cell x y |x y. on_screen x y}" unfolding c by blast
  then have fr: "m a = mem k a" if "\<not> in_page (tframe k) a" "a \<notin> {cell x y |x y. on_screen x y}" for a
    using m(3) [rule_format, OF that(1) contra_subsetD [OF _ that(2)]] by simp
  show ?thesis by (intro exI [of _ t] exI [of _ m] conjI allI impI t m(1) sh fr) simp_all
qed

theorem picture_on_screen_witness:
  "\<exists>t m. kthen (imgread (Some bmp2x1)) draw gal0 = Ok ((), t) \<and>
    kfor (g_calls t) (\<lambda>c. kthen (call_setpixel c) (kret ())) kst0 = Ok ((), kst0\<lparr>mem := m\<rparr>) \<and>
    dac (\<lambda>_. []) 0 [] (vgainit (\<lambda>_. 0)) (unat (m (cell 1 0))) = [48, 0, 0] \<and>
    dac (\<lambda>_. []) 0 [] (vgainit (\<lambda>_. 0)) (unat (m (cell 319 199))) = [0, 0, 0]"
proof -
  have h: "get32 (put32 22 1 (put32 18 2 (replicate 54 0))) 18 = of_nat 2" "get32 (put32 22 1 (put32 18 2 (replicate 54 0))) 22 = of_nat 1"
    by (simp_all add: get_put_other)
  have l: "length (put32 22 1 (put32 18 2 (replicate 54 0))) = 54" "2 < (2 :: nat) ^ 31" "1 < (2 :: nat) ^ 31" "2 * 1 * 3 < (2 :: nat) ^ 31"
    "\<forall>y :: nat. length [7 :: uchar, 7] = bmp_pad 2" by (simp_all add: bmp_pad)
  have g: "g_fds gal0 < NOFILE" "length (g_hdr gal0) = 54" "length (g_heap gal0) + 6 * (2 * 1) \<le> g_limit gal0"
    "g_xpos gal0 = 0" "g_ypos gal0 = 0" "g_zoom gal0 = 1" "g_calls gal0 = []" by (simp_all add: gal0_def NOFILE_def)
  have o: "on_screen 1 0" "on_screen 319 199" by (simp_all add: WIDTH_def HEIGHT_def)
  have v: "px_levels (black\<lparr>px_r := 200\<rparr>) = [48, 0, 0]" by (simp add: px_levels_def levels_def black_def)
  let ?img = "\<lambda>c :: nat \<times> nat. if c = (1, 0) then black\<lparr>px_r := 200\<rparr> else black"
  from picture_on_screen [OF l(1) h l(2-5) g kst0_facts, of ?img "\<lambda>_. []" 0 "\<lambda>_. 0"]
  obtain t m where t: "kthen (imgread (Some bmp2x1)) draw gal0 = Ok ((), t)"
      "kfor (g_calls t) (\<lambda>c. kthen (call_setpixel c) (kret ())) kst0 = Ok ((), kst0\<lparr>mem := m\<rparr>)"
    and m: "\<And>x y. on_screen x y \<Longrightarrow> dac (\<lambda>_. []) 0 [] (vgainit (\<lambda>_. 0)) (unat (m (cell x y))) =
       (if x < int 2 \<and> y < int 1 then px_levels (?img (nat x, nat y)) else [0, 0, 0])"
    unfolding bmp2x1_def by (elim exE conjE) simp
  show ?thesis using t m [OF o(1)] m [OF o(2)] v by auto
qed

end
